(* ===== verification/Fec_Prelude.thy ===== *)
theory Fec_Prelude
  imports Main "HOL-Library.Word" "HOL-Library.AList" "HOL-Library.Multiset"
begin

text \<open>
  Shared vocabulary of the development: the machine integers of the Rust sources, results whose
  errors are values (a \<open>bail!\<close> or a panic), checked slices and indexing, big-endian byte
  encodings, \<open>Vec\<close> chunking, and the association lists that stand for \<open>HashMap\<close> and
  \<open>BTreeMap\<close>.  The last sections hold the two generic interfaces (an event machine with an
  invariant and a table of part slots) that several components provide.
\<close>

section \<open>Machine integers and results\<close>

type_synonym u8 = "8 word"
type_synonym u16 = "16 word"
type_synonym u32 = "32 word"
type_synonym u64 = "64 word"
type_synonym bytes = "u8 list"

text \<open>A reading of the monotonic clock, in nanoseconds.\<close>

type_synonym instant = nat

text \<open>A socket address is opaque.\<close>

type_synonym addr = nat

text \<open>
  An \<open>Err\<close> of the sources carries its message.  \<open>Panic\<close> is the outcome of an
  out-of-range index or slice; the release profile aborts the whole process on it.
\<close>

datatype error = Bail string | BailLine string nat | Panic

type_synonym 'a result = "error + 'a"

named_theorems result_simps \<open>unfolding of results and checked reads\<close>
named_theorems wire_simps \<open>lengths and layout of the wire formats\<close>

definition rbind :: "'a result \<Rightarrow> ('a \<Rightarrow> 'b result) \<Rightarrow> 'b result" where
  "rbind r f = (case r of Inl e \<Rightarrow> Inl e | Inr x \<Rightarrow> f x)"

lemma rbind_Inl [simp]: "rbind (Inl e) f = Inl e"
  by (simp add: rbind_def)

lemma rbind_Inr [simp]: "rbind (Inr x) f = f x"
  by (simp add: rbind_def)

lemma rbind_eq_Inr_iff: "rbind r f = Inr y \<longleftrightarrow> (\<exists>x. r = Inr x \<and> f x = Inr y)"
  by (cases r) auto

lemma rbind_eq_Inl_iff: "rbind r f = Inl e \<longleftrightarrow> r = Inl e \<or> (\<exists>x. r = Inr x \<and> f x = Inl e)"
  by (cases r) auto

lemma rbind_cong [fundef_cong]:
  "r = r' \<Longrightarrow> (\<And>x. r' = Inr x \<Longrightarrow> f x = g x) \<Longrightarrow> rbind r f = rbind r' g"
  by (cases r') auto

definition index_at :: "'a list \<Rightarrow> nat \<Rightarrow> 'a result" where
  "index_at xs i = (if i < length xs then Inr (xs ! i) else Inl Panic)"

definition slice :: "nat \<Rightarrow> nat \<Rightarrow> 'a list \<Rightarrow> 'a list result" where
  "slice a b xs = (if a \<le> b \<and> b \<le> length xs then Inr (take (b - a) (drop a xs)) else Inl Panic)"

lemma index_at_ok [simp]: "i < length xs \<Longrightarrow> index_at xs i = Inr (xs ! i)"
  by (simp add: index_at_def)

lemma slice_ok [simp]:
  "a \<le> b \<Longrightarrow> b \<le> length xs \<Longrightarrow> slice a b xs = Inr (take (b - a) (drop a xs))"
  by (simp add: slice_def)

lemma slice_eq_InrD: "slice a b xs = Inr ys \<Longrightarrow> length ys = b - a \<and> a \<le> b \<and> b \<le> length xs"
  by (auto simp: slice_def split: if_splits)

section \<open>Arithmetic of the standard library\<close>

definition sat_sub :: "'a::len word \<Rightarrow> 'a word \<Rightarrow> 'a word" where
  "sat_sub a b = (if a < b then 0 else a - b)"

definition sat_add :: "'a::len word \<Rightarrow> 'a word \<Rightarrow> 'a word" where
  "sat_add a b = (if unat a + unat b < 2 ^ LENGTH('a) then a + b else - 1)"

definition div_ceil :: "nat \<Rightarrow> nat \<Rightarrow> nat" where
  "div_ceil a b = a div b + (if a mod b = 0 then 0 else 1)"

lemma unat_less_width: "unat w < 2 ^ LENGTH('a)" for w :: "'a::len word"
  by (rule unsigned_less)

lemma replicate_numeral: "replicate (numeral n) x = x # replicate (pred_numeral n) x"
  by (simp add: numeral_eq_Suc)

lemma xor_one_neq: "xor (x :: u8) 1 \<noteq> x"
proof
  assume "xor x 1 = x"
  then have "bit (xor x 1) 0 = bit x 0" by simp
  then show False by (simp add: bit_xor_iff bit_1_iff)
qed

lemma unat_of_nat_small: "n < 2 ^ LENGTH('a) \<Longrightarrow> unat (of_nat n :: 'a::len word) = n"
  by (simp add: unat_of_nat)

lemma unat_sat_sub: "unat (sat_sub a b) = unat a - unat b"
  by (auto simp: sat_sub_def unat_sub_if' word_less_nat_alt word_le_nat_alt)

lemma unat_sat_add: "unat (sat_add a b) = min (unat a + unat b) (2 ^ LENGTH('a) - 1)"
  for a b :: "'a::len word"
  by (auto simp: sat_add_def unat_word_ariths unsigned_minus_1_eq_mask mask_eq_exp_minus_1)

lemma div_ceil_le_iff: "0 < b \<Longrightarrow> div_ceil a b \<le> k \<longleftrightarrow> a \<le> k * b"
proof -
  assume b: "0 < b"
  have eq: "a = a div b * b + a mod b" by simp
  show ?thesis
  proof (cases "a mod b = 0")
    case True
    then show ?thesis
      using b eq by (simp add: div_ceil_def) (metis mult.commute nonzero_mult_div_cancel_right
        div_le_mono mult_le_mono1 neq0_conv)
  next
    case False
    have "a div b + 1 \<le> k \<longleftrightarrow> a < k * b"
      using b by (metis Suc_eq_plus1 Suc_le_eq less_mult_imp_div_less div_less_iff_less_mult)
    moreover have "a \<noteq> k * b" using False by auto
    ultimately show ?thesis using False by (auto simp: div_ceil_def)
  qed
qed

section \<open>Big-endian byte strings\<close>

definition be_bytes :: "nat \<Rightarrow> 'a::len word \<Rightarrow> bytes" where
  "be_bytes n w = map (\<lambda>i. of_nat (unat w div 256 ^ i)) (rev [0..<n])"

definition be_nat :: "bytes \<Rightarrow> nat" where
  "be_nat bs = foldl (\<lambda>a b. a * 256 + unat b) 0 bs"

definition from_be :: "bytes \<Rightarrow> 'a::len word" where
  "from_be bs = of_nat (be_nat bs)"

lemma length_be_bytes [simp]: "length (be_bytes n w) = n"
  by (simp add: be_bytes_def)

lemma be_bytes_2: "be_bytes 2 w = [of_nat (unat w div 256), of_nat (unat w)]"
  by (simp add: be_bytes_def upt_rec)

lemma be_bytes_4:
  "be_bytes 4 w = [of_nat (unat w div 16777216), of_nat (unat w div 65536), of_nat (unat w div 256),
     of_nat (unat w)]"
  by (simp add: be_bytes_def upt_rec)

lemma be_nat_Nil [simp]: "be_nat [] = 0"
  by (simp add: be_nat_def)

lemma be_nat_snoc [simp]: "be_nat (bs @ [b]) = be_nat bs * 256 + unat b"
  by (simp add: be_nat_def)

lemma be_nat_less: "be_nat bs < 256 ^ length bs"
proof (induction bs rule: rev_induct)
  case Nil
  then show ?case by simp
next
  case (snoc b bs)
  have "unat b < 256" using unat_less_width [of b] by simp
  with snoc show ?case by simp
qed

lemma map_shift_digits:
  "map (\<lambda>i. of_nat (m div 256 ^ i) :: u8) (rev [0..<Suc n]) =
   map (\<lambda>i. of_nat ((m div 256) div 256 ^ i)) (rev [0..<n]) @ [of_nat m]"
proof -
  have "[0..<Suc n] = 0 # map Suc [0..<n]"
    by (simp add: upt_conv_Cons map_Suc_upt del: upt_Suc)
  then show ?thesis
    by (simp add: rev_map comp_def div_mult2_eq del: upt_Suc)
qed

lemma be_nat_digits: "be_nat (map (\<lambda>i. of_nat (m div 256 ^ i)) (rev [0..<n])) = m mod 256 ^ n"
proof (induction n arbitrary: m)
  case 0
  then show ?case by simp
next
  case (Suc n)
  have "be_nat (map (\<lambda>i. of_nat (m div 256 ^ i)) (rev [0..<Suc n])) =
      (m div 256) mod 256 ^ n * 256 + m mod 256"
    unfolding map_shift_digits be_nat_snoc Suc.IH by (simp add: unat_of_nat)
  also have "\<dots> = m mod 256 ^ Suc n"
    by (simp add: mod_mult2_eq)
  finally show ?case .
qed

lemma be_nat_be_bytes: "be_nat (be_bytes n w) = unat w mod 256 ^ n"
  by (simp add: be_bytes_def be_nat_digits)

lemma from_be_be_bytes: "2 ^ LENGTH('a) \<le> (256::nat) ^ n \<Longrightarrow> from_be (be_bytes n w) = w"
  for w :: "'a::len word"
proof -
  assume "2 ^ LENGTH('a) \<le> (256::nat) ^ n"
  then have "unat w mod 256 ^ n = unat w"
    by (intro mod_less less_le_trans [OF unat_less_width])
  then show ?thesis by (simp add: from_be_def be_nat_be_bytes)
qed

lemma digits_be_nat:
  "map (\<lambda>i. of_nat (be_nat bs div 256 ^ i)) (rev [0..<length bs]) = bs"
proof (induction bs rule: rev_induct)
  case Nil
  then show ?case by simp
next
  case (snoc b bs)
  have lt: "unat b < 256" using unat_less_width [of b] by simp
  have "(be_nat bs * 256 + unat b) div 256 = be_nat bs" using lt by simp
  moreover have "(of_nat (be_nat bs * 256 + unat b) :: u8) = b"
  proof -
    have "unat (of_nat (be_nat bs * 256 + unat b) :: u8) = unat b"
      using lt by (simp add: unat_of_nat del: of_nat_add of_nat_mult)
    then show ?thesis by (simp only: word_unat_eq_iff)
  qed
  ultimately show ?case
    using snoc.IH by (simp add: map_shift_digits del: upt_Suc of_nat_add of_nat_mult)
qed

lemma be_bytes_from_be:
  assumes "length bs = n" and "(256::nat) ^ n \<le> 2 ^ LENGTH('a)"
  shows "be_bytes n (from_be bs :: 'a::len word) = bs"
proof -
  have "be_nat bs < 2 ^ LENGTH('a)"
    using be_nat_less [of bs] assms by simp
  then have "unat (from_be bs :: 'a word) = be_nat bs"
    by (simp add: from_be_def unat_of_nat)
  then show ?thesis
    using digits_be_nat [of bs] assms(1) by (simp add: be_bytes_def)
qed

lemma from_be_u16 [simp]: "from_be (be_bytes 2 w) = (w :: u16)"
  by (rule from_be_be_bytes) simp

lemma from_be_u32 [simp]: "from_be (be_bytes 4 w) = (w :: u32)"
  by (rule from_be_be_bytes) simp

lemma from_be_u64 [simp]: "from_be (be_bytes 8 w) = (w :: u64)"
  by (rule from_be_be_bytes) simp

lemma be_bytes_u16 [simp]: "length bs = 2 \<Longrightarrow> be_bytes 2 (from_be bs :: u16) = bs"
  by (rule be_bytes_from_be) auto

lemma be_bytes_u32 [simp]: "length bs = 4 \<Longrightarrow> be_bytes 4 (from_be bs :: u32) = bs"
  by (rule be_bytes_from_be) auto

lemma be_bytes_u64 [simp]: "length bs = 8 \<Longrightarrow> be_bytes 8 (from_be bs :: u64) = bs"
  by (rule be_bytes_from_be) auto

lemma unat_u16_of_nat [simp]: "n < 65536 \<Longrightarrow> unat (of_nat n :: u16) = n"
  by (simp add: unat_of_nat)

lemma unat_u8_of_nat [simp]: "n < 256 \<Longrightarrow> unat (of_nat n :: u8) = n"
  by (simp add: unat_of_nat)

section \<open>Consecutive slices\<close>

lemma take_drop_glue:
  "a \<le> b \<Longrightarrow> b \<le> c \<Longrightarrow> take (b - a) (drop a xs) @ take (c - b) (drop b xs) = take (c - a) (drop a xs)"
proof -
  assume "a \<le> b" "b \<le> c"
  then obtain m n where "b = a + m" "c = a + m + n"
    by (metis le_add_diff_inverse)
  then show ?thesis
    by (simp add: take_add add.commute)
qed

lemma take_drop_rest: "a \<le> b \<Longrightarrow> take (b - a) (drop a xs) @ drop b xs = drop a xs"
  by (metis append_take_drop_id drop_drop le_add_diff_inverse2)

lemma nth_take_drop: "a < length xs \<Longrightarrow> [xs ! a] = take 1 (drop a xs)"
  by (simp add: take_Suc_conv_app_nth)

section \<open>Vectors\<close>

text \<open>\<open>slice::chunks(n)\<close> and \<open>Vec::resize(n, v)\<close>.\<close>

function chunks :: "nat \<Rightarrow> 'a list \<Rightarrow> 'a list list" where
  "chunks n xs = (if n = 0 \<or> xs = [] then [] else take n xs # chunks n (drop n xs))"
  by pat_completeness auto
termination
  by (relation "measure (\<lambda>(n, xs). length xs)") auto

declare chunks.simps [simp del]

definition resize :: "nat \<Rightarrow> 'a \<Rightarrow> 'a list \<Rightarrow> 'a list" where
  "resize n v xs = take n xs @ replicate (n - length xs) v"

lemma length_resize [simp]: "length (resize n v xs) = n"
  by (simp add: resize_def)

lemma chunks_Nil [simp]: "chunks n [] = []"
  by (simp add: chunks.simps)

lemma concat_chunks: "0 < n \<Longrightarrow> concat (chunks n xs) = xs"
proof (induction n xs rule: chunks.induct)
  case (1 n xs)
  then show ?case by (cases "xs = []") (auto simp: chunks.simps [of n xs])
qed

lemma chunks_length_le: "c \<in> set (chunks n xs) \<Longrightarrow> length c \<le> n"
proof (induction n xs rule: chunks.induct)
  case (1 n xs)
  then show ?case
    by (cases "n = 0 \<or> xs = []") (auto simp: chunks.simps [of n xs])
qed

lemma length_chunks: "0 < n \<Longrightarrow> length (chunks n xs) = div_ceil (length xs) n"
proof (induction n xs rule: chunks.induct)
  case (1 n xs)
  show ?case
  proof (cases "xs = []")
    case True
    then show ?thesis by (simp add: div_ceil_def)
  next
    case False
    have IH: "length (chunks n (drop n xs)) = div_ceil (length xs - n) n"
      using 1 False by simp
    show ?thesis
    proof (cases "n \<le> length xs")
      case True
      then obtain k where k: "length xs = n + k" by (metis le_add_diff_inverse)
      then show ?thesis
        using IH False \<open>0 < n\<close> div_add_self1 [of n k] by (simp add: chunks.simps [of n xs] div_ceil_def)
    next
      case less: False
      then have "drop n xs = []" by simp
      then show ?thesis
        using less False \<open>0 < n\<close> by (simp add: chunks.simps [of n xs] div_ceil_def)
    qed
  qed
qed

lemma chunks_single: "xs \<noteq> [] \<Longrightarrow> length xs \<le> n \<Longrightarrow> chunks n xs = [xs]"
  by (subst chunks.simps) (cases n; auto)

section \<open>Association lists as finite maps\<close>

abbreviation keys :: "('k \<times> 'v) list \<Rightarrow> 'k list" where
  "keys m \<equiv> map fst m"

lemma set_alist_update: "set (AList.update k v m) \<subseteq> insert (k, v) (set m)"
  by (induction m) auto

lemma in_alist_updateD: "(k', v') \<in> set (AList.update k v m) \<Longrightarrow> k' = k \<and> v' = v \<or> (k', v') \<in> set m"
  using set_alist_update [of k v m] by auto

lemma length_alist_update:
  "length (AList.update k v m) = (if k \<in> set (keys m) then length m else Suc (length m))"
  by (induction m) auto

lemma update_fresh: "k \<notin> set (keys m) \<Longrightarrow> AList.update k v m = m @ [(k, v)]"
  by (induction m) auto

lemma update_last: "k \<notin> set (keys m) \<Longrightarrow> AList.update k v (m @ [(k, u)]) = m @ [(k, v)]"
  by (induction m) auto

lemma map_of_None_keys: "map_of m k = None \<longleftrightarrow> k \<notin> set (keys m)"
  by (simp add: map_of_eq_None_iff)

lemma map_of_filter_values:
  assumes "distinct (keys m)"
  shows "map_of (filter (\<lambda>(_, v). P v) m) k = (case map_of m k of None \<Rightarrow> None | Some v \<Rightarrow> if P v then Some v else None)"
  using assms
proof (induction m)
  case Nil
  then show ?case by simp
next
  case (Cons x m)
  obtain k' v where x: "x = (k', v)" by fastforce
  show ?case
  proof (cases "k = k'")
    case True
    then have "map_of (filter (\<lambda>(_, v). P v) m) k = None" "map_of m k = None"
      using Cons.prems x by (auto simp: map_of_None_keys)
    with True x show ?thesis by simp
  next
    case False
    then show ?thesis using Cons x by simp
  qed
qed

lemma set_alist_delete: "set (AList.delete k m) = {(k', v) \<in> set m. k' \<noteq> k}"
  by (auto simp: AList.delete_eq)

lemma set_keys_delete: "set (keys (AList.delete k m)) = set (keys m) - {k}"
  by (induction m) auto

lemma length_alist_delete_less:
  "distinct (keys m) \<Longrightarrow> k \<in> set (keys m) \<Longrightarrow> Suc (length (AList.delete k m)) = length m"
proof (induction m)
  case Nil
  then show ?case by simp
next
  case (Cons x m)
  show ?case
  proof (cases "fst x = k")
    case True
    then have "k \<notin> set (keys m)" using Cons.prems(1) by auto
    then have "AList.delete k m = m" by (intro AList.delete_id) auto
    with True show ?thesis by (cases x) simp
  next
    case False
    with Cons show ?thesis by (cases x) auto
  qed
qed

lemma distinct_keys_filter: "distinct (keys m) \<Longrightarrow> distinct (keys (filter P m))"
  by (simp add: distinct_map_filter)

lemma fold_delete_sub:
  "set (fold (\<lambda>(i, _) m. AList.delete i m) ks m) \<subseteq> set m"
proof (induction ks arbitrary: m)
  case Nil
  then show ?case by simp
next
  case (Cons k ks)
  have "set (AList.delete (fst k) m) \<subseteq> set m" by (auto simp: set_alist_delete)
  with Cons [of "AList.delete (fst k) m"] show ?case by (cases k) auto
qed

lemma fold_delete_distinct:
  "distinct (keys m) \<Longrightarrow> distinct (keys (fold (\<lambda>(i, _) m. AList.delete i m) ks m))"
  by (induction ks arbitrary: m) (auto simp: AList.distinct_delete split: prod.splits)

lemma fold_delete_length:
  "distinct (keys m) \<Longrightarrow> distinct (keys ks) \<Longrightarrow> set (keys ks) \<subseteq> set (keys m) \<Longrightarrow>
   length (fold (\<lambda>(i, _) m. AList.delete i m) ks m) = length m - length ks"
proof (induction ks arbitrary: m)
  case Nil
  then show ?case by simp
next
  case (Cons x ks)
  obtain k v where x: "x = (k, v)" by fastforce
  have d: "distinct (keys (AList.delete k m))" using Cons.prems(1) by (rule AList.distinct_delete)
  have sub: "set (keys ks) \<subseteq> set (keys (AList.delete k m))"
  proof -
    have "k \<notin> set (keys ks)" "set (keys ks) \<subseteq> set (keys m)"
      using Cons.prems(2,3) x by simp_all
    then show ?thesis unfolding set_keys_delete by blast
  qed
  have "length (fold (\<lambda>(i, _) m. AList.delete i m) ks (AList.delete k m)) = length (AList.delete k m) - length ks"
    using Cons.IH [OF d _ sub] Cons.prems(2) by simp
  moreover have "Suc (length (AList.delete k m)) = length m"
    using Cons.prems x by (intro length_alist_delete_less) auto
  ultimately show ?case using x by simp
qed

section \<open>Slots of a message\<close>

text \<open>
  A message arrives as numbered parts that are stored in a vector of optional slots until none is
  empty.  The tunnel decoder overwrites a slot, the QUIC carrier keeps the first part; what the two
  share is the interface below, and that a table fed with parts of one message, in any order and
  with any repetition, ends up holding exactly the parts received.
\<close>

locale part_slots =
  fixes put :: "nat \<Rightarrow> 'a \<Rightarrow> 'a option list \<Rightarrow> 'a option list"
  assumes length_put: "length (put i x s) = length s"
    and put_other: "j < length s \<Longrightarrow> i \<noteq> j \<Longrightarrow> put i x s ! j = s ! j"
    and put_empty: "i < length s \<Longrightarrow> s ! i = None \<Longrightarrow> put i x s ! i = Some x"
    and put_same: "i < length s \<Longrightarrow> s ! i = Some x \<Longrightarrow> put i x s ! i = Some x"
begin

lemma put_parts:
  assumes "length s = length parts" and "i < length parts"
    and "\<forall>j < length parts. s ! j = (if j \<in> S then Some (parts ! j) else None)"
  shows "\<forall>j < length parts. put i (parts ! i) s ! j = (if j \<in> insert i S then Some (parts ! j) else None)"
  using assms put_other [of _ s i "parts ! i"] put_empty [of i s "parts ! i"] put_same [of i s "parts ! i"]
  by (metis insert_iff)

lemma fold_put_parts:
  assumes "length s = length parts" and "set is \<subseteq> {..<length parts}"
    and "\<forall>j < length parts. s ! j = (if j \<in> S then Some (parts ! j) else None)"
  shows "length (foldl (\<lambda>s i. put i (parts ! i) s) s is) = length parts \<and>
    (\<forall>j < length parts. foldl (\<lambda>s i. put i (parts ! i) s) s is ! j =
      (if j \<in> S \<union> set is then Some (parts ! j) else None))"
  using assms
proof (induction "is" arbitrary: s S)
  case Nil
  then show ?case by simp
next
  case (Cons i "is")
  have "length (put i (parts ! i) s) = length parts"
    using Cons.prems(1) by (simp add: length_put)
  moreover have "\<forall>j < length parts. put i (parts ! i) s ! j =
      (if j \<in> insert i S then Some (parts ! j) else None)"
    using Cons.prems by (intro put_parts) auto
  ultimately show ?case
    using Cons.IH [of "put i (parts ! i) s" "insert i S"] Cons.prems(2) by simp
qed

lemma fold_put_complete:
  assumes "set is = {..<length parts}"
  shows "foldl (\<lambda>s i. put i (parts ! i) s) (replicate (length parts) None) is = map Some parts"
  using fold_put_parts [of "replicate (length parts) None" parts "is" "{}"] assms
  by (auto simp: list_eq_iff_nth_eq)

lemma fold_put_incomplete:
  assumes "set is \<subset> {..<length parts}"
  shows "None \<in> set (foldl (\<lambda>s i. put i (parts ! i) s) (replicate (length parts) None) is)"
proof -
  obtain j where j: "j < length parts" "j \<notin> set is"
    using assms by auto
  have "foldl (\<lambda>s i. put i (parts ! i) s) (replicate (length parts) None) is ! j = None"
    "j < length (foldl (\<lambda>s i. put i (parts ! i) s) (replicate (length parts) None) is)"
    using fold_put_parts [of "replicate (length parts) None" parts "is" "{}"] assms j by auto
  then show ?thesis by (metis nth_mem)
qed

end

section \<open>Event machines\<close>

text \<open>
  The state machines of the program (the redundancy controller, the decoder, the session table,
  the main loops) are step functions on their state.  A component provides the step and an
  invariant its step keeps; the run over any sequence of events then keeps it.
\<close>

locale invariant_machine =
  fixes step :: "'s \<Rightarrow> 'e \<Rightarrow> 's" and invar :: "'s \<Rightarrow> bool"
  assumes step_invar: "invar s \<Longrightarrow> invar (step s e)"
begin

lemma run_invar: "invar s \<Longrightarrow> invar (foldl step s es)"
  by (induction es arbitrary: s) (auto intro: step_invar)

lemma run_invar_prefix: "invar s \<Longrightarrow> es = es1 @ es2 \<Longrightarrow> invar (foldl step s es1)"
  by (rule run_invar)

end

text \<open>
  A machine that refines a specification.  Every step is seen through an abstraction of the state and a
  view of the event, which may depend on the state; \<open>views\<close> lists the views along a run.  Two contracts:
  the specification is a function of the view, or a step relation that a step of the machine follows
  for any number of steps.
\<close>

fun views :: "('s \<Rightarrow> 'e \<Rightarrow> 's) \<Rightarrow> ('s \<Rightarrow> 'e \<Rightarrow> 'v) \<Rightarrow> 's \<Rightarrow> 'e list \<Rightarrow> 'v list" where
  "views step view s [] = []"
| "views step view s (e # es) = view s e # views step view (step s e) es"

lemma views_length [simp]: "length (views step view s es) = length es"
  by (induction es arbitrary: s) simp_all

lemma views_nth: "i < length es \<Longrightarrow> views step view s es ! i = view (foldl step s (take i es)) (es ! i)"
  by (induction es arbitrary: s i) (auto simp: nth_Cons split: nat.split)

locale functional_refinement = invariant_machine step invar for step :: "'s \<Rightarrow> 'e \<Rightarrow> 's" and invar :: "'s \<Rightarrow> bool" +
  fixes abstraction :: "'s \<Rightarrow> 'a" and view :: "'s \<Rightarrow> 'e \<Rightarrow> 'v" and spec_step :: "'a \<Rightarrow> 'v \<Rightarrow> 'a"
  assumes step_refines: "invar s \<Longrightarrow> abstraction (step s e) = spec_step (abstraction s) (view s e)"
begin

lemma run_refines: "invar s \<Longrightarrow> abstraction (foldl step s es) = foldl spec_step (abstraction s) (views step view s es)"
  by (induction es arbitrary: s) (simp_all add: step_invar step_refines)

end

locale relational_refinement = invariant_machine step invar for step :: "'s \<Rightarrow> 'e \<Rightarrow> 's" and invar :: "'s \<Rightarrow> bool" +
  fixes abstraction :: "'s \<Rightarrow> 'a" and spec :: "'a \<Rightarrow> 'a \<Rightarrow> bool"
  assumes step_follows: "invar s \<Longrightarrow> spec\<^sup>*\<^sup>* (abstraction s) (abstraction (step s e))"
begin

lemma run_follows: "invar s \<Longrightarrow> spec\<^sup>*\<^sup>* (abstraction s) (abstraction (foldl step s es))"
proof (induction es arbitrary: s)
  case Nil
  then show ?case by simp
next
  case (Cons e es)
  from rtranclp_trans [OF step_follows [OF Cons.prems] Cons.IH [OF step_invar [OF Cons.prems]]] show ?case by simp
qed

end

section \<open>Noninterference\<close>

text \<open>
  A system whose events belong to an observer or to others.  The unwinding conditions: from states the
  observer cannot tell apart its own events lead to such states again, with the same outputs, and the
  events of others lead from one such state to another.  Then the observer sees the same whether or not
  the others act at all.
\<close>

fun observed :: "('s \<Rightarrow> 'e \<Rightarrow> 's \<times> 'o list) \<Rightarrow> ('e \<Rightarrow> bool) \<Rightarrow> 's \<Rightarrow> 'e list \<Rightarrow> 'o list" where
  "observed step own s [] = []"
| "observed step own s (e # es) =
     (case step s e of (s', out) \<Rightarrow> (if own e then out else []) @ observed step own s' es)"

locale unwinding =
  fixes step :: "'s \<Rightarrow> 'e \<Rightarrow> 's \<times> 'o list" and own :: "'e \<Rightarrow> bool" and eqv :: "'s \<Rightarrow> 's \<Rightarrow> bool"
  assumes step_consistent: "eqv s t \<Longrightarrow> own e \<Longrightarrow> eqv (fst (step s e)) (fst (step t e)) \<and> snd (step s e) = snd (step t e)"
    and locally_respects: "eqv s t \<Longrightarrow> \<not> own e \<Longrightarrow> eqv (fst (step s e)) t"
begin

lemma observed_purged: "eqv s t \<Longrightarrow> observed step own s es = observed step own t (filter own es)"
proof (induction es arbitrary: s t)
  case Nil
  then show ?case by simp
next
  case (Cons e es)
  show ?case
  proof (cases "own e")
    case True
    with step_consistent [OF Cons.prems True] Cons.IH [of "fst (step s e)" "fst (step t e)"] show ?thesis
      by (simp add: case_prod_beta)
  next
    case False
    with Cons.IH [OF locally_respects [OF Cons.prems False]] show ?thesis by (simp add: case_prod_beta)
  qed
qed

end

section \<open>Acceptance at most once\<close>

text \<open>
  A filter that lets each key through at most once: every step reports the key it accepts, if any.
  A provider names the keys that are spent; they only grow, and an accepted key was not spent
  before and is spent afterwards.
\<close>

fun accepted :: "('s \<Rightarrow> 'e \<Rightarrow> 's \<times> 'k option) \<Rightarrow> 's \<Rightarrow> 'e list \<Rightarrow> 'k list" where
  "accepted step s [] = []"
| "accepted step s (e # es) =
     (case step s e of (s', None) \<Rightarrow> accepted step s' es | (s', Some k) \<Rightarrow> k # accepted step s' es)"

locale once_only =
  fixes step :: "'s \<Rightarrow> 'e \<Rightarrow> 's \<times> 'k option" and invar :: "'s \<Rightarrow> bool" and spent :: "'s \<Rightarrow> 'k set"
  assumes invar_step: "invar s \<Longrightarrow> invar (fst (step s e))"
    and spent_mono: "invar s \<Longrightarrow> spent s \<subseteq> spent (fst (step s e))"
    and accept_fresh: "invar s \<Longrightarrow> snd (step s e) = Some k \<Longrightarrow> k \<notin> spent s \<and> k \<in> spent (fst (step s e))"
begin

lemma accepted_distinct:
  "invar s \<Longrightarrow> distinct (accepted step s es) \<and> set (accepted step s es) \<inter> spent s = {}"
proof (induction es arbitrary: s)
  case Nil
  then show ?case by simp
next
  case (Cons e es)
  obtain s' r where st: "step s e = (s', r)" by fastforce
  have "distinct (accepted step s' es) \<and> set (accepted step s' es) \<inter> spent s' = {}"
    using Cons.IH invar_step [OF Cons.prems, of e] st by simp
  with st spent_mono [OF Cons.prems, of e] accept_fresh [OF Cons.prems, of e] show ?case
    by (cases r) auto
qed

lemma spent_never_accepted: "invar s \<Longrightarrow> k \<in> spent s \<Longrightarrow> k \<notin> set (accepted step s es)"
  using accepted_distinct by blast

end

end
