(* ===== verification/Frame_Wire.thy ===== *)
theory Frame_Wire
  imports Fec_Prelude
begin

text \<open>
  The tunnel's wire format (\<open>src/main.rs\<close>): the \<open>Frame\<close> struct, the plaintext V1/V2
  encoding with its truncated keyed hash, the V3 envelope (selector, nonce, AEAD ciphertext) and
  the two entry points that choose between them, \<open>decode_client_frame\<close> and
  \<open>decode_server_frame\<close>.  BLAKE3 and XChaCha20-Poly1305 are parameters (the record
  \<open>crypto\<close>); what the code relies on of them is \<open>hash_ok\<close> and \<open>aead_ok\<close>.
  Every index and slice is checked, so that a panic is a result like any other.
\<close>

section \<open>Constants and the frame\<close>

definition MAGIC :: u32 where "MAGIC = 0x53464543"
definition VERSION_V1 :: u8 where "VERSION_V1 = 1"
definition VERSION_V2 :: u8 where "VERSION_V2 = 2"
definition VERSION_V3 :: u8 where "VERSION_V3 = 3"
definition KIND_DATA :: u8 where "KIND_DATA = 1"
definition KIND_PARITY :: u8 where "KIND_PARITY = 2"
definition KIND_REPORT :: u8 where "KIND_REPORT = 3"
definition HEADER :: nat where "HEADER = 36"
definition HEADER_V2 :: nat where "HEADER_V2 = 44"
definition V3_SELECTOR :: nat where "V3_SELECTOR = 8"
definition V3_SELECTOR_PREFIX :: nat where "V3_SELECTOR_PREFIX = 4"
definition V3_NONCE :: nat where "V3_NONCE = 24"
definition V3_INNER_HEADER :: nat where "V3_INNER_HEADER = 31"
definition TAG :: nat where "TAG = 16"

lemmas wire_consts = MAGIC_def VERSION_V1_def VERSION_V2_def VERSION_V3_def KIND_DATA_def
  KIND_PARITY_def KIND_REPORT_def HEADER_def HEADER_V2_def V3_SELECTOR_def
  V3_SELECTOR_PREFIX_def V3_NONCE_def V3_INNER_HEADER_def TAG_def

record frame =
  version :: u8
  key_id :: u64
  kind :: u8
  session :: u64
  sequence :: u64
  group :: u64
  index :: u16
  data :: u8
  parity :: u8
  payload :: bytes

section \<open>Cryptographic parameters\<close>

text \<open>
  \<open>keyed_hash k m\<close> is \<open>Hasher::new_keyed(k)\<close> over \<open>m\<close>, \<open>plain_hash\<close> the
  unkeyed hash, \<open>seal k n m\<close> and \<open>unseal k n c\<close> are \<open>encrypt\<close> and \<open>decrypt\<close>
  of XChaCha20-Poly1305 (\<open>None\<close> is their error).
\<close>

record crypto =
  keyed_hash :: "bytes \<Rightarrow> bytes \<Rightarrow> bytes"
  plain_hash :: "bytes \<Rightarrow> bytes"
  seal :: "bytes \<Rightarrow> bytes \<Rightarrow> bytes \<Rightarrow> bytes option"
  unseal :: "bytes \<Rightarrow> bytes \<Rightarrow> bytes \<Rightarrow> bytes option"

text \<open>BLAKE3 digests are 32 bytes long.\<close>

definition hash_ok :: "crypto \<Rightarrow> bool" where
  "hash_ok c \<longleftrightarrow> (\<forall>k m. length (keyed_hash c k m) = 32) \<and> (\<forall>m. length (plain_hash c m) = 32)"

text \<open>
  The AEAD appends a 16-byte tag, encrypts every message a frame can hold, and decryption
  under the same key and nonce inverts encryption.
\<close>

definition aead_ok :: "crypto \<Rightarrow> bool" where
  "aead_ok c \<longleftrightarrow>
     (\<forall>k n m. length m < 2 ^ 32 \<longrightarrow>
       (\<exists>ct. seal c k n m = Some ct \<and> length ct = length m + TAG \<and> unseal c k n ct = Some m))"

section \<open>Operations\<close>

definition encode_body :: "frame \<Rightarrow> bytes" where
  "encode_body f =
     be_bytes 4 MAGIC @ [version f] @ [kind f] @
     (if version f = VERSION_V2 then be_bytes 8 (key_id f) else []) @
     be_bytes 8 (session f) @ be_bytes 8 (sequence f) @ be_bytes 8 (group f) @
     be_bytes 2 (index f) @ [data f] @ [parity f] @
     be_bytes 2 (of_nat (length (payload f)) :: u16) @ payload f"

definition encode :: "crypto \<Rightarrow> frame \<Rightarrow> bytes \<Rightarrow> bytes" where
  "encode c f key = (let out = encode_body f in out @ take TAG (keyed_hash c key out))"

definition decode :: "crypto \<Rightarrow> bytes \<Rightarrow> bytes \<Rightarrow> frame result" where
  "decode c buf key =
     (if length buf < 6 + TAG then Inl (Bail ''short frame'')
      else rbind (index_at buf 4) (\<lambda>ver.
        rbind
          (if ver = VERSION_V1 then Inr (HEADER, 0, 6)
           else if ver = VERSION_V2 then
             (if length buf < HEADER_V2 + TAG then Inl (Bail ''short v2 frame'')
              else rbind (slice 6 14 buf) (\<lambda>s. Inr (HEADER_V2, from_be s, 14)))
           else Inl (Bail ''bad protocol version''))
          (\<lambda>(header, kid, offset).
        if length buf < header + TAG then Inl (Bail ''short frame'')
        else let body_len = length buf - TAG in
          rbind (slice 0 body_len buf) (\<lambda>body.
          rbind (slice body_len (length buf) buf) (\<lambda>tag.
          if take TAG (keyed_hash c key body) \<noteq> tag then Inl (Bail ''bad auth'')
          else rbind (slice 0 4 buf) (\<lambda>m.
            if (from_be m :: u32) \<noteq> MAGIC then Inl (Bail ''bad protocol'')
            else rbind (slice (offset + 28) (offset + 30) buf) (\<lambda>l.
              let payload_len = unat (from_be l :: u16) in
              if header + payload_len + TAG \<noteq> length buf then Inl (Bail ''bad length'')
              else
                rbind (index_at buf 5) (\<lambda>k.
                rbind (slice offset (offset + 8) buf) (\<lambda>s.
                rbind (slice (offset + 8) (offset + 16) buf) (\<lambda>q.
                rbind (slice (offset + 16) (offset + 24) buf) (\<lambda>g.
                rbind (slice (offset + 24) (offset + 26) buf) (\<lambda>i.
                rbind (index_at buf (offset + 26)) (\<lambda>d.
                rbind (index_at buf (offset + 27)) (\<lambda>p.
                rbind (slice header (header + payload_len) buf) (\<lambda>pl.
                Inr \<lparr>version = ver, key_id = kid, kind = k, session = from_be s,
                     sequence = from_be q, group = from_be g, index = from_be i,
                     data = d, parity = p, payload = pl\<rparr>)))))))))))))))"

definition v3_selector_prefix :: "crypto \<Rightarrow> u64 \<Rightarrow> bytes" where
  "v3_selector_prefix c kid =
     take V3_SELECTOR_PREFIX
       (plain_hash c (map of_char ''smart-fec-v3-selector'' @ be_bytes 8 kid))"

definition v3_inner :: "frame \<Rightarrow> bytes" where
  "v3_inner f =
     [kind f] @ be_bytes 8 (session f) @ be_bytes 8 (sequence f) @ be_bytes 8 (group f) @
     be_bytes 2 (index f) @ [data f] @ [parity f] @
     be_bytes 2 (of_nat (length (payload f)) :: u16) @ payload f"

text \<open>
  The two \<open>fill_bytes\<close> draws of the thread RNG are the arguments \<open>nonce\<close>
  (24 bytes) and \<open>suffix\<close> (4 bytes).
\<close>

definition encode_wire :: "crypto \<Rightarrow> frame \<Rightarrow> bytes \<Rightarrow> bytes \<Rightarrow> bytes \<Rightarrow> bytes result" where
  "encode_wire c f key nonce suffix =
     (if version f \<noteq> VERSION_V3 then Inr (encode c f key)
      else case seal c key nonce (v3_inner f) of
        None \<Rightarrow> Inl (Bail ''v3 encryption failed'')
      | Some ct \<Rightarrow> Inr (v3_selector_prefix c (key_id f) @ suffix @ nonce @ ct))"

definition decode_v3 :: "crypto \<Rightarrow> bytes \<Rightarrow> u64 \<Rightarrow> bytes \<Rightarrow> frame result" where
  "decode_v3 c buf kid key =
     (if length buf < V3_SELECTOR + V3_NONCE + V3_INNER_HEADER + TAG
      then Inl (Bail ''invalid v3 envelope'')
      else rbind (slice 0 V3_SELECTOR_PREFIX buf) (\<lambda>pre.
        if pre \<noteq> v3_selector_prefix c kid then Inl (Bail ''invalid v3 envelope'')
        else rbind (slice V3_SELECTOR (V3_SELECTOR + V3_NONCE) buf) (\<lambda>nonce.
        rbind (slice (V3_SELECTOR + V3_NONCE) (length buf) buf) (\<lambda>ct.
        case unseal c key nonce ct of
          None \<Rightarrow> Inl (Bail ''v3 authentication failed'')
        | Some inner \<Rightarrow>
          if length inner < V3_INNER_HEADER then Inl (Bail ''short v3 payload'')
          else rbind (slice 29 31 inner) (\<lambda>l.
            let payload_len = unat (from_be l :: u16) in
            if V3_INNER_HEADER + payload_len \<noteq> length inner then Inl (Bail ''bad v3 length'')
            else
              rbind (index_at inner 0) (\<lambda>k.
              rbind (slice 1 9 inner) (\<lambda>s.
              rbind (slice 9 17 inner) (\<lambda>q.
              rbind (slice 17 25 inner) (\<lambda>g.
              rbind (slice 25 27 inner) (\<lambda>i.
              rbind (index_at inner 27) (\<lambda>d.
              rbind (index_at inner 28) (\<lambda>p.
              rbind (slice V3_INNER_HEADER (length inner) inner) (\<lambda>pl.
              Inr \<lparr>version = VERSION_V3, key_id = kid, kind = k, session = from_be s,
                   sequence = from_be q, group = from_be g, index = from_be i,
                   data = d, parity = p, payload = pl\<rparr>)))))))))))))"

definition starts_with :: "'a list \<Rightarrow> 'a list \<Rightarrow> bool" where
  "starts_with buf pre \<longleftrightarrow> take (length pre) buf = pre"

definition decode_client_frame :: "crypto \<Rightarrow> bytes \<Rightarrow> u64 \<Rightarrow> bytes \<Rightarrow> frame result" where
  "decode_client_frame c buf kid key =
     (if starts_with buf (be_bytes 4 MAGIC) then decode c buf key else decode_v3 c buf kid key)"

text \<open>
  The selector table maps a 4-byte prefix to a key identifier and its key.  The legacy key and
  the keyring are arguments of the Rust function that its body does not use.
\<close>

definition decode_server_frame ::
  "crypto \<Rightarrow> bytes \<Rightarrow> (bytes \<times> (u64 \<times> bytes)) list \<Rightarrow> (frame \<times> bytes) result" where
  "decode_server_frame c buf selectors =
     (if \<not> starts_with buf (be_bytes 4 MAGIC) then
        (if length buf < V3_SELECTOR then Inl (Bail ''short v3 envelope'')
         else rbind (slice 0 V3_SELECTOR_PREFIX buf) (\<lambda>pre.
           case map_of selectors pre of
             None \<Rightarrow> Inl (Bail ''unknown v3 selector'')
           | Some (kid, selected) \<Rightarrow>
               rbind (decode_v3 c buf kid selected) (\<lambda>f. Inr (f, selected))))
      else Inl (Bail ''legacy V1/V2 protocol removed''))"

section \<open>Layout\<close>

lemma length_encode_body [wire_simps]:
  "length (encode_body f) =
     (if version f = VERSION_V2 then HEADER_V2 else HEADER) + length (payload f)"
  by (simp add: encode_body_def wire_consts)

lemma length_v3_inner [wire_simps]: "length (v3_inner f) = V3_INNER_HEADER + length (payload f)"
  by (simp add: v3_inner_def wire_consts)

lemma length_selector_prefix [wire_simps]: "hash_ok c \<Longrightarrow> length (v3_selector_prefix c kid) = 4"
  by (simp add: v3_selector_prefix_def hash_ok_def wire_consts)

lemmas list_layout = take_append drop_append nth_append take_Cons' drop_Cons' nth_Cons'

lemma decode_encode_v1:
  assumes "hash_ok c" and "length (payload f) < 65536" and "version f = VERSION_V1" and "key_id f = 0"
  shows "decode c (encode c f key) key = Inr f"
proof -
  have h: "length (keyed_hash c key m) = 32" for m
    using assms(1) by (simp add: hash_ok_def)
  show ?thesis
    using assms(2-)
    by (simp add: decode_def encode_def encode_body_def wire_consts h Let_def list_layout)
qed

lemma decode_encode_v2:
  assumes "hash_ok c" and "length (payload f) < 65536" and "version f = VERSION_V2"
  shows "decode c (encode c f key) key = Inr f"
proof -
  have h: "length (keyed_hash c key m) = 32" for m
    using assms(1) by (simp add: hash_ok_def)
  show ?thesis
    using assms(2-)
    by (simp add: decode_def encode_def encode_body_def wire_consts h Let_def list_layout)
qed

lemma decode_no_panic: "decode c buf key \<noteq> Inl Panic"
  by (simp add: decode_def wire_consts Let_def split: if_splits)

lemma decode_v3_no_panic: "decode_v3 c buf kid key \<noteq> Inl Panic"
  by (auto simp: decode_v3_def wire_consts Let_def index_at_def split: if_splits option.splits)

lemma decode_server_frame_no_panic: "decode_server_frame c buf sel \<noteq> Inl Panic"
  by (auto simp: decode_server_frame_def wire_consts rbind_eq_Inl_iff decode_v3_no_panic
      split: option.splits)

section \<open>Accepted bytes are canonical encodings\<close>

lemma take_one_drop: "a < length xs \<Longrightarrow> take (Suc 0) (drop a xs) = [xs ! a]"
  by (simp add: take_Suc_conv_app_nth)

text \<open>The header fields at offset \<open>off\<close> followed by the payload, read back as one slice.\<close>

lemma fields_glue:
  assumes "off + 30 + n \<le> length xs"
  shows "take 8 (drop off xs) @ take 8 (drop (off + 8) xs) @ take 8 (drop (off + 16) xs) @
     take 2 (drop (off + 24) xs) @ [xs ! (off + 26)] @ [xs ! (off + 27)] @
     take 2 (drop (off + 28) xs) @ take n (drop (off + 30) xs) = take (30 + n) (drop off xs)"
proof -
  have "take (30 + n) (drop off xs) =
      take (8 + (8 + (8 + (2 + (Suc 0 + (Suc 0 + (2 + n))))))) (drop off xs)"
    by simp
  also have "\<dots> = take 8 (drop off xs) @ take 8 (drop (off + 8) xs) @ take 8 (drop (off + 16) xs) @
     take 2 (drop (off + 24) xs) @ take (Suc 0) (drop (off + 26) xs) @
     take (Suc 0) (drop (off + 27) xs) @ take 2 (drop (off + 28) xs) @ take n (drop (off + 30) xs)"
    by (simp only: take_add drop_drop) (simp add: add.commute)
  finally show ?thesis
    using assms by (simp add: take_one_drop)
qed

lemma head_glue:
  assumes "6 \<le> length xs"
  shows "take 4 xs @ [xs ! 4] @ [xs ! 5] = take 6 xs"
proof -
  have "take 6 xs = take (4 + (Suc 0 + Suc 0)) xs" by simp
  also have "\<dots> = take 4 xs @ take (Suc 0) (drop 4 xs) @ take (Suc 0) (drop 5 xs)"
    by (simp only: take_add drop_drop) (simp add: add.commute)
  finally show ?thesis
    using assms by (simp add: take_one_drop)
qed

text \<open>What a successful decode has read, field by field.\<close>

definition read_fields :: "nat \<Rightarrow> bytes \<Rightarrow> frame \<Rightarrow> bool" where
  "read_fields off buf f \<longleftrightarrow>
     session f = from_be (take 8 (drop off buf)) \<and>
     sequence f = from_be (take 8 (drop (off + 8) buf)) \<and>
     group f = from_be (take 8 (drop (off + 16) buf)) \<and>
     index f = from_be (take 2 (drop (off + 24) buf)) \<and>
     data f = buf ! (off + 26) \<and> parity f = buf ! (off + 27) \<and>
     off + 30 + unat (from_be (take 2 (drop (off + 28) buf)) :: u16) \<le> length buf \<and>
     payload f = take (unat (from_be (take 2 (drop (off + 28) buf)) :: u16)) (drop (off + 30) buf)"

lemma read_fields_glue:
  assumes "read_fields off buf f"
  shows "be_bytes 8 (session f) @ be_bytes 8 (sequence f) @ be_bytes 8 (group f) @
     be_bytes 2 (index f) @ [data f] @ [parity f] @
     be_bytes 2 (of_nat (length (payload f)) :: u16) @ payload f =
     take (30 + length (payload f)) (drop off buf)"
proof -
  define n where "n = unat (from_be (take 2 (drop (off + 28) buf)) :: u16)"
  have n: "off + 30 + n \<le> length buf" and pl: "payload f = take n (drop (off + 30) buf)"
    using assms by (auto simp: read_fields_def n_def)
  then have lp: "length (payload f) = n" by simp
  have "be_bytes 2 (of_nat n :: u16) = take 2 (drop (off + 28) buf)"
    using n by (simp add: n_def)
  then show ?thesis
    unfolding lp using assms n fields_glue [OF n] pl
    by (simp add: read_fields_def)
qed

lemma read_fields_payload: "read_fields off buf f \<Longrightarrow> length (payload f) < 65536"
  using unat_less_width [of "from_be (take 2 (drop (off + 28) buf)) :: u16"]
  by (simp add: read_fields_def)

lemma decode_ok_version: "decode c buf key = Inr f \<Longrightarrow> buf ! 4 = VERSION_V1 \<or> buf ! 4 = VERSION_V2"
  by (auto simp: decode_def TAG_def split: if_splits)

lemma decode_okD_v1:
  assumes "decode c buf key = Inr f" and "buf ! 4 = VERSION_V1"
  shows "version f = VERSION_V1 \<and> key_id f = 0 \<and> 36 + length (payload f) + 16 = length buf \<and>
       read_fields 6 buf f \<and> kind f = buf ! 5 \<and> (from_be (take 4 buf) :: u32) = MAGIC \<and>
     take TAG (keyed_hash c key (take (length buf - TAG) buf)) = drop (length buf - TAG) buf"
  using assms
  by (auto simp: decode_def wire_consts Let_def read_fields_def split: if_splits)

lemma decode_okD_v2:
  assumes "decode c buf key = Inr f" and "buf ! 4 = VERSION_V2"
  shows "version f = VERSION_V2 \<and> key_id f = from_be (take 8 (drop 6 buf)) \<and>
       44 + length (payload f) + 16 = length buf \<and>
       read_fields 14 buf f \<and> kind f = buf ! 5 \<and> (from_be (take 4 buf) :: u32) = MAGIC \<and>
     take TAG (keyed_hash c key (take (length buf - TAG) buf)) = drop (length buf - TAG) buf"
  using assms
  by (auto simp: decode_def wire_consts Let_def read_fields_def split: if_splits)

lemma encode_body_head:
  assumes "6 \<le> length buf" and "(from_be (take 4 buf) :: u32) = MAGIC"
    and "version f = buf ! 4" and "kind f = buf ! 5"
  shows "be_bytes 4 MAGIC @ [version f] @ [kind f] = take 6 buf"
proof -
  have "be_bytes 4 MAGIC = take 4 buf"
    using assms(1,2) be_bytes_u32 [of "take 4 buf"] by simp
  then show ?thesis
    using assms head_glue [of buf] by simp
qed

lemma decode_canonical:
  assumes "decode c buf key = Inr f"
  shows "encode c f key = buf"
proof -
  have "encode_body f = take (length buf - TAG) buf \<and>
     take TAG (keyed_hash c key (take (length buf - TAG) buf)) = drop (length buf - TAG) buf"
    using decode_ok_version [OF assms]
  proof
    assume v: "buf ! 4 = VERSION_V1"
    note D = decode_okD_v1 [OF assms v]
    have "encode_body f = take 6 buf @ take (30 + length (payload f)) (drop 6 buf)"
      using D v encode_body_head [of buf f] read_fields_glue [of 6 buf f]
      by (simp add: encode_body_def VERSION_V1_def VERSION_V2_def)
    also have "\<dots> = take (6 + (30 + length (payload f))) buf"
      by (simp only: take_add)
    also have "6 + (30 + length (payload f)) = length buf - TAG"
      using D by (simp add: TAG_def) linarith
    finally show ?thesis using D by simp
  next
    assume v: "buf ! 4 = VERSION_V2"
    note D = decode_okD_v2 [OF assms v]
    have "length (take 8 (drop 6 buf)) = 8" using D by auto
    then have "be_bytes 8 (key_id f) = take 8 (drop 6 buf)"
      using D be_bytes_u64 [of "take 8 (drop 6 buf)"] by metis
    then have "encode_body f = take 6 buf @ take 8 (drop 6 buf) @ take (30 + length (payload f)) (drop 14 buf)"
      using D v encode_body_head [of buf f] read_fields_glue [of 14 buf f]
      by (simp add: encode_body_def)
    also have "\<dots> = take (6 + (8 + (30 + length (payload f)))) buf"
      by (simp only: take_add drop_drop) simp
    also have "6 + (8 + (30 + length (payload f))) = length buf - TAG"
      using D by (simp add: TAG_def) linarith
    finally show ?thesis using D by simp
  qed
  then show ?thesis
    by (simp add: encode_def Let_def)
qed

section \<open>The V3 envelope\<close>

lemma decode_v3_okD:
  assumes "decode_v3 c buf kid key = Inr f"
  shows "version f = VERSION_V3 \<and> key_id f = kid \<and> 79 \<le> length buf \<and>
     take 4 buf = v3_selector_prefix c kid \<and>
     (\<exists>inner. unseal c key (take 24 (drop 8 buf)) (drop 32 buf) = Some inner \<and>
       31 + length (payload f) = length inner \<and> kind f = inner ! 0 \<and> read_fields 1 inner f)"
  using assms
  by (auto simp: decode_v3_def wire_consts Let_def rbind_eq_Inr_iff slice_def index_at_def
      read_fields_def split: if_splits option.splits)

lemma v3_inner_read:
  assumes "31 + length (payload f) = length inner" and "kind f = inner ! 0" and "read_fields 1 inner f"
  shows "v3_inner f = inner"
proof -
  have "v3_inner f = [inner ! 0] @ take (30 + length (payload f)) (drop 1 inner)"
    using assms read_fields_glue [of 1 inner f] by (simp add: v3_inner_def)
  also have "\<dots> = inner"
    using assms(1) by (cases inner) auto
  finally show ?thesis .
qed

lemma decode_v3_canonical:
  assumes "decode_v3 c buf kid key = Inr f"
  shows "version f = VERSION_V3 \<and> key_id f = kid \<and> length (payload f) < 65536 \<and>
     (\<exists>suffix nonce ct. length suffix = 4 \<and> length nonce = 24 \<and>
       buf = v3_selector_prefix c kid @ suffix @ nonce @ ct \<and>
       unseal c key nonce ct = Some (v3_inner f))"
proof -
  from decode_v3_okD [OF assms] obtain inner where D:
    "version f = VERSION_V3" "key_id f = kid" "79 \<le> length buf"
    "take 4 buf = v3_selector_prefix c kid"
    "unseal c key (take 24 (drop 8 buf)) (drop 32 buf) = Some inner"
    "31 + length (payload f) = length inner" "kind f = inner ! 0" "read_fields 1 inner f"
    by blast
  have "length (payload f) < 65536"
    using D(8) by (rule read_fields_payload)
  moreover have "take 4 buf @ take 4 (drop 4 buf) @ take 24 (drop 8 buf) @ drop 32 buf = buf"
    using take_drop_rest [of 8 32 buf] take_drop_rest [of 4 8 buf] by simp
  moreover have "unseal c key (take 24 (drop 8 buf)) (drop 32 buf) = Some (v3_inner f)"
    using D(5) v3_inner_read [OF D(6-8)] by simp
  ultimately show ?thesis
    using D by (intro conjI exI [of _ "take 4 (drop 4 buf)"] exI [of _ "take 24 (drop 8 buf)"]
        exI [of _ "drop 32 buf"]) auto
qed

lemma decode_v3_envelope:
  assumes "hash_ok c" and "length suffix = 4" and "length nonce = 24"
    and "unseal c key nonce ct = Some (v3_inner f)" and "47 + length (payload f) \<le> length ct"
    and "version f = VERSION_V3" and "length (payload f) < 65536"
  shows "decode_v3 c (v3_selector_prefix c (key_id f) @ suffix @ nonce @ ct) (key_id f) key = Inr f"
  using assms
  by (simp add: decode_v3_def length_selector_prefix wire_consts Let_def v3_inner_def list_layout)

lemma decode_v3_encode_wire:
  assumes "hash_ok c" and "aead_ok c" and "version f = VERSION_V3" and "length (payload f) < 65536"
    and "length nonce = 24" and "length suffix = 4"
  obtains buf where "encode_wire c f key nonce suffix = Inr buf"
    and "length buf = 79 + length (payload f)"
    and "take 4 buf = v3_selector_prefix c (key_id f)"
    and "decode_v3 c buf (key_id f) key = Inr f"
proof -
  have "length (v3_inner f) < 2 ^ 32"
    using assms(4) by (simp add: length_v3_inner V3_INNER_HEADER_def)
  then obtain ct where ct: "seal c key nonce (v3_inner f) = Some ct"
    "length ct = length (v3_inner f) + TAG" "unseal c key nonce ct = Some (v3_inner f)"
    using assms(2) unfolding aead_ok_def by blast
  show ?thesis
  proof (rule that)
    show "encode_wire c f key nonce suffix = Inr (v3_selector_prefix c (key_id f) @ suffix @ nonce @ ct)"
      using ct assms(3) by (simp add: encode_wire_def)
    show "decode_v3 c (v3_selector_prefix c (key_id f) @ suffix @ nonce @ ct) (key_id f) key = Inr f"
      using assms ct by (intro decode_v3_envelope) (auto simp: length_v3_inner wire_consts)
  qed (use assms ct in \<open>auto simp: length_v3_inner length_selector_prefix wire_consts\<close>)
qed

section \<open>Properties of the wire format\<close>

text \<open>
  A concrete instance of the cryptographic parameters, for the witnesses: checksums in place of
  the digests, and a cipher that appends a 16-byte checksum tag.
\<close>

definition sum_crypto :: crypto where
  "sum_crypto = \<lparr>
     keyed_hash = (\<lambda>k m. replicate 32 (sum_list k + sum_list m)),
     plain_hash = (\<lambda>m. replicate 32 (sum_list m)),
     seal = (\<lambda>k n m. Some (m @ replicate 16 (sum_list k + sum_list n + sum_list m))),
     unseal = (\<lambda>k n ct. let m = take (length ct - 16) ct in
       if 16 \<le> length ct \<and> drop (length ct - 16) ct = replicate 16 (sum_list k + sum_list n + sum_list m)
       then Some m else None)\<rparr>"

lemma hash_ok_sum_crypto: "hash_ok sum_crypto"
  by (simp add: hash_ok_def sum_crypto_def)

lemma aead_ok_sum_crypto: "aead_ok sum_crypto"
  by (simp add: aead_ok_def sum_crypto_def TAG_def Let_def)

definition sample_frame :: "u8 \<Rightarrow> u64 \<Rightarrow> frame" where
  "sample_frame ver kid = \<lparr>version = ver, key_id = kid, kind = KIND_DATA, session = 7, sequence = 2,
     group = 3, index = 1, data = 10, parity = 2, payload = [1, 2, 3]\<rparr>"

lemma sample_selector_not_magic: "v3_selector_prefix sum_crypto kid \<noteq> be_bytes 4 MAGIC"
proof -
  have "be_bytes 4 MAGIC = [0x53, 0x46, 0x45, 0x43]"
    by (simp add: be_bytes_4 MAGIC_def)
  moreover have "\<exists>x. v3_selector_prefix sum_crypto kid = [x, x, x, x]"
    by (simp add: v3_selector_prefix_def sum_crypto_def V3_SELECTOR_PREFIX_def eval_nat_numeral)
  ultimately show ?thesis by auto
qed

lemma sample_server_frame:
  "\<exists>buf. decode_server_frame sum_crypto buf [(v3_selector_prefix sum_crypto 7, (7, [9]))] =
     Inr (sample_frame VERSION_V3 7, [9])"
proof -
  obtain buf where "length buf = 79 + length (payload (sample_frame VERSION_V3 7))"
    "take 4 buf = v3_selector_prefix sum_crypto (key_id (sample_frame VERSION_V3 7))"
    "decode_v3 sum_crypto buf (key_id (sample_frame VERSION_V3 7)) [9] = Inr (sample_frame VERSION_V3 7)"
    by (rule decode_v3_encode_wire [OF hash_ok_sum_crypto aead_ok_sum_crypto,
          of "sample_frame VERSION_V3 7" "replicate 24 5" "replicate 4 6" "[9]"])
      (simp_all add: sample_frame_def)
  then have "decode_server_frame sum_crypto buf [(v3_selector_prefix sum_crypto 7, (7, [9]))] =
     Inr (sample_frame VERSION_V3 7, [9])"
    using sample_selector_not_magic
    by (simp add: decode_server_frame_def starts_with_def sample_frame_def V3_SELECTOR_def V3_SELECTOR_PREFIX_def)
  then show ?thesis by blast
qed

text \<open>Decoding the encoding of a V1 or V2 frame with the same key gives the frame back,
  whatever its fields, as long as its payload fits the 16-bit length field.\<close>

theorem frame_decode_encode:
  assumes "hash_ok c" and "length (payload f) < 65536"
    and "version f = VERSION_V2 \<or> version f = VERSION_V1 \<and> key_id f = 0"
  shows "decode c (encode c f key) key = Inr f"
  using assms decode_encode_v1 decode_encode_v2 by blast

theorem frame_decode_encode_witness:
  "decode sum_crypto (encode sum_crypto (sample_frame VERSION_V2 42) [9]) [9] =
   Inr (sample_frame VERSION_V2 42)"
  by (rule frame_decode_encode [OF hash_ok_sum_crypto]) (simp_all add: sample_frame_def)

text \<open>Bytes that \<open>Frame::decode\<close> accepts are, bit for bit, the encoding of the frame it
  returns: the tag is the keyed hash of the whole body, no field is left unauthenticated and no
  second byte string decodes to the same frame under the same key.\<close>

theorem frame_decode_canonical:
  assumes "decode c buf key = Inr f"
  shows "encode c f key = buf \<and> length buf = length (encode_body f) + TAG"
proof
  show "encode c f key = buf" by (rule decode_canonical [OF assms])
  show "length buf = length (encode_body f) + TAG"
    using decode_ok_version [OF assms] decode_okD_v1 [OF assms] decode_okD_v2 [OF assms]
    by (auto simp: length_encode_body wire_consts)
qed

theorem frame_decode_canonical_witness:
  "encode sum_crypto (sample_frame VERSION_V1 0) [9] = encode sum_crypto (sample_frame VERSION_V1 0) [9] \<and>
   length (encode sum_crypto (sample_frame VERSION_V1 0) [9]) =
     length (encode_body (sample_frame VERSION_V1 0)) + TAG"
  by (rule frame_decode_canonical [of sum_crypto _ "[9]"], rule decode_encode_v1 [OF hash_ok_sum_crypto])
    (simp_all add: sample_frame_def)

lemma wire_accepted:
  assumes "hash_ok c" and "aead_ok c" and "version f = VERSION_V3" and "length (payload f) < 65536"
    and "length nonce = V3_NONCE" and "length suffix = V3_SELECTOR_PREFIX"
    and "map_of selectors (v3_selector_prefix c (key_id f)) = Some (key_id f, key)"
    and "v3_selector_prefix c (key_id f) \<noteq> be_bytes 4 MAGIC"
  shows "\<exists>buf. encode_wire c f key nonce suffix = Inr buf \<and> length buf = 79 + length (payload f) \<and>
     decode_server_frame c buf selectors = Inr (f, key) \<and>
     decode_client_frame c buf (key_id f) key = Inr f"
proof -
  obtain buf where buf: "encode_wire c f key nonce suffix = Inr buf"
    "length buf = 79 + length (payload f)" "take 4 buf = v3_selector_prefix c (key_id f)"
    "decode_v3 c buf (key_id f) key = Inr f"
    using decode_v3_encode_wire [OF assms(1-4)] assms(5,6)
    by (metis V3_NONCE_def V3_SELECTOR_PREFIX_def)
  have "\<not> starts_with buf (be_bytes 4 MAGIC)"
    using buf(3) assms(8) by (simp add: starts_with_def)
  then have "decode_server_frame c buf selectors = Inr (f, key)"
    and "decode_client_frame c buf (key_id f) key = Inr f"
    using buf assms(7)
    by (simp_all add: decode_server_frame_def decode_client_frame_def V3_SELECTOR_def V3_SELECTOR_PREFIX_def)
  with buf show ?thesis by blast
qed

text \<open>C11: a V3 frame sent with \<open>encode_wire\<close> is 79 bytes longer than its payload and the
  server recovers the frame and the device key from it, when the device's selector is in the
  selector table and is not the legacy magic number.\<close>

theorem v3_server_roundtrip:
  assumes "hash_ok c" and "aead_ok c" and "version f = VERSION_V3" and "length (payload f) < 65536"
    and "length nonce = V3_NONCE" and "length suffix = V3_SELECTOR_PREFIX"
    and "map_of selectors (v3_selector_prefix c (key_id f)) = Some (key_id f, key)"
    and "v3_selector_prefix c (key_id f) \<noteq> be_bytes 4 MAGIC"
  shows "\<exists>buf. encode_wire c f key nonce suffix = Inr buf \<and> length buf = 79 + length (payload f) \<and>
     decode_server_frame c buf selectors = Inr (f, key) \<and>
     decode_client_frame c buf (key_id f) key = Inr f"
  by (rule wire_accepted [OF assms])

theorem v3_server_roundtrip_witness:
  "\<exists>buf. encode_wire sum_crypto (sample_frame VERSION_V3 7) [9] (replicate 24 5) (replicate 4 6) = Inr buf \<and>
     length buf = 79 + length (payload (sample_frame VERSION_V3 7)) \<and>
     decode_server_frame sum_crypto buf [(v3_selector_prefix sum_crypto 7, (7, [9]))] =
       Inr (sample_frame VERSION_V3 7, [9]) \<and>
     decode_client_frame sum_crypto buf (key_id (sample_frame VERSION_V3 7)) [9] = Inr (sample_frame VERSION_V3 7)"
proof (rule v3_server_roundtrip [OF hash_ok_sum_crypto aead_ok_sum_crypto])
  show "v3_selector_prefix sum_crypto (key_id (sample_frame VERSION_V3 7)) \<noteq> be_bytes 4 MAGIC"
    using sample_selector_not_magic by (simp add: sample_frame_def)
qed (simp_all add: sample_frame_def V3_NONCE_def V3_SELECTOR_PREFIX_def)

text \<open>C10: every frame the server accepts is an authenticated V3 frame: its selector names the
  device whose key opened the ciphertext, the frame's key identifier is that device's, and the
  plaintext is exactly the frame's inner encoding.  Plaintext V1/V2 frames are never accepted.\<close>

theorem server_frame_authenticated:
  assumes "decode_server_frame c buf selectors = Inr (f, key)"
  shows "version f = VERSION_V3 \<and> \<not> starts_with buf (be_bytes 4 MAGIC) \<and>
     map_of selectors (take 4 buf) = Some (key_id f, key) \<and>
     (\<exists>suffix nonce ct. length suffix = 4 \<and> length nonce = 24 \<and>
       buf = v3_selector_prefix c (key_id f) @ suffix @ nonce @ ct \<and>
       unseal c key nonce ct = Some (v3_inner f))"
proof -
  from assms obtain kid where m: "map_of selectors (take 4 buf) = Some (kid, key)"
    and d: "decode_v3 c buf kid key = Inr f" and ns: "\<not> starts_with buf (be_bytes 4 MAGIC)"
    by (auto simp: decode_server_frame_def V3_SELECTOR_def V3_SELECTOR_PREFIX_def rbind_eq_Inr_iff
        split: if_splits option.splits)
  from decode_v3_canonical [OF d] m ns show ?thesis by auto
qed

theorem server_frame_authenticated_witness:
  "\<exists>buf. map_of [(v3_selector_prefix sum_crypto 7, (7 :: u64, [9 :: u8]))] (take 4 buf) = Some (7, [9]) \<and>
     decode_server_frame sum_crypto buf [(v3_selector_prefix sum_crypto 7, (7, [9]))] =
       Inr (sample_frame VERSION_V3 7, [9])"
proof -
  obtain buf where b: "decode_server_frame sum_crypto buf [(v3_selector_prefix sum_crypto 7, (7, [9]))] =
     Inr (sample_frame VERSION_V3 7, [9])"
    using sample_server_frame by blast
  have "map_of [(v3_selector_prefix sum_crypto 7, (7 :: u64, [9 :: u8]))] (take 4 buf) =
      Some (key_id (sample_frame VERSION_V3 7), [9])"
    using server_frame_authenticated [OF b] by blast
  moreover have "key_id (sample_frame VERSION_V3 7) = 7"
    by (simp add: sample_frame_def)
  ultimately show ?thesis using b by metis
qed

text \<open>No byte string received from the network makes a frame decoder index out of range: the
  decoders return a frame or an error, never a panic (which would abort the process).\<close>

theorem wire_decoders_never_panic:
  "decode c buf key \<noteq> Inl Panic \<and> decode_v3 c buf kid key \<noteq> Inl Panic \<and>
   decode_client_frame c buf kid key \<noteq> Inl Panic \<and> decode_server_frame c buf selectors \<noteq> Inl Panic"
  by (simp add: decode_no_panic decode_v3_no_panic decode_server_frame_no_panic decode_client_frame_def)

text \<open>A device whose 4-byte selector happens to be the legacy magic number cannot use the
  tunnel: everything it sends is taken for the removed V1/V2 protocol and rejected.\<close>

theorem selector_magic_collision_locks_out:
  assumes "hash_ok c" and "v3_selector_prefix c (key_id f) = be_bytes 4 MAGIC"
    and "version f = VERSION_V3" and "encode_wire c f key nonce suffix = Inr buf"
  shows "decode_server_frame c buf selectors = Inl (Bail ''legacy V1/V2 protocol removed'')"
proof -
  have "take 4 buf = be_bytes 4 MAGIC"
    using assms by (auto simp: encode_wire_def split: option.splits)
  then show ?thesis
    by (simp add: decode_server_frame_def starts_with_def)
qed

definition magic_crypto :: crypto where
  "magic_crypto = sum_crypto\<lparr>plain_hash := (\<lambda>m. be_bytes 4 MAGIC @ replicate 28 0)\<rparr>"

theorem selector_magic_collision_locks_out_witness:
  "\<exists>buf. encode_wire magic_crypto (sample_frame VERSION_V3 7) [9] (replicate 24 5) (replicate 4 6) = Inr buf \<and>
     decode_server_frame magic_crypto buf [(be_bytes 4 MAGIC, (7, [9]))] =
       Inl (Bail ''legacy V1/V2 protocol removed'')"
proof -
  obtain buf where b: "encode_wire magic_crypto (sample_frame VERSION_V3 7) [9] (replicate 24 5) (replicate 4 6) = Inr buf"
    by (simp add: encode_wire_def magic_crypto_def sum_crypto_def sample_frame_def)
  have "decode_server_frame magic_crypto buf [(be_bytes 4 MAGIC, (7, [9]))] =
      Inl (Bail ''legacy V1/V2 protocol removed'')"
    by (rule selector_magic_collision_locks_out [OF _ _ _ b])
      (simp_all add: hash_ok_def magic_crypto_def sum_crypto_def v3_selector_prefix_def
        V3_SELECTOR_PREFIX_def sample_frame_def)
  with b show ?thesis by blast
qed

end
