(* ===== verification/Adaptive_Fec.thy ===== *)
theory Adaptive_Fec
  imports Fec_Prelude
begin

text \<open>
  The adaptive redundancy controller \<open>Adaptive\<close> of \<open>src/main.rs\<close>: it turns the
  peer's loss reports (parts per million, or the reserved value for "no sample") into the number of
  parity shards per group.  The theory shows its invariant, what one report can change, the bypass
  under sustained loss and the return to zero redundancy on a clean path.
\<close>

section \<open>State and operations\<close>

definition MAX_PARITY :: nat where "MAX_PARITY = 4"
definition FEC_BYPASS_LOSS_PPM :: u32 where "FEC_BYPASS_LOSS_PPM = 300000"
definition LOSS_SAMPLE_UNAVAILABLE :: u32 where "LOSS_SAMPLE_UNAVAILABLE = 0xFFFFFFFF"

lemmas adaptive_consts = MAX_PARITY_def FEC_BYPASS_LOSS_PPM_def LOSS_SAMPLE_UNAVAILABLE_def

record adaptive =
  ad_parity :: nat
  bad :: u8
  good :: u16
  last_loss_ppm :: u32
  smoothed_loss_ppm :: u32
  unavailable_reports :: u8
  bypass_streak :: u8
  bypassed :: bool

definition adaptive_default :: adaptive where
  "adaptive_default = \<lparr>ad_parity = 0, bad = 0, good = 0, last_loss_ppm = 0, smoothed_loss_ppm = 0,
     unavailable_reports = 0, bypass_streak = 0, bypassed = False\<rparr>"

definition target :: "u32 \<Rightarrow> nat" where
  "target loss =
     (if loss \<le> 9999 then 0
      else if loss \<le> 49999 then 1
      else if loss \<le> 99999 then 2
      else if loss \<le> 199999 then 3
      else 4)"

definition report_unavailable :: "adaptive \<Rightarrow> adaptive" where
  "report_unavailable a =
     (let a = a\<lparr>unavailable_reports := sat_add (unavailable_reports a) 1\<rparr> in
      if 15 \<le> unavailable_reports a then
        (let a = a\<lparr>ad_parity := ad_parity a - 1, unavailable_reports := 0\<rparr> in
         if ad_parity a = 0 then a\<lparr>smoothed_loss_ppm := 0, last_loss_ppm := 0\<rparr> else a)
      else a)"

definition report_bypass :: "adaptive \<Rightarrow> adaptive" where
  "report_bypass a =
     (let a = a\<lparr>bypass_streak := sat_add (bypass_streak a) 1, good := 0\<rparr> in
      if 3 \<le> bypass_streak a then
        a\<lparr>ad_parity := 0, bad := 0, good := 0, unavailable_reports := 0, bypassed := True\<rparr>
      else a)"

definition report_adjust :: "adaptive \<Rightarrow> nat \<Rightarrow> adaptive" where
  "report_adjust a t =
     (if t > ad_parity a then
        (let a = a\<lparr>bad := bad a + 1, good := 0\<rparr> in
         if 2 \<le> bad a then a\<lparr>ad_parity := min (ad_parity a + 1) MAX_PARITY, bad := 0\<rparr> else a)
      else if t < ad_parity a then
        (let a = a\<lparr>good := good a + 1, bad := sat_sub (bad a) 1\<rparr> in
         if 15 \<le> good a then a\<lparr>ad_parity := ad_parity a - 1, good := 0\<rparr> else a)
      else a\<lparr>bad := sat_sub (bad a) 1, good := 0\<rparr>)"

definition smooth :: "u32 \<Rightarrow> u32 \<Rightarrow> u32" where
  "smooth s loss = of_nat ((unat s * 3 + unat loss) div 4)"

definition report :: "adaptive \<Rightarrow> u32 \<Rightarrow> adaptive" where
  "report a loss =
     (if loss = LOSS_SAMPLE_UNAVAILABLE then report_unavailable a
      else
        (let a = a\<lparr>unavailable_reports := 0, last_loss_ppm := loss,
                   smoothed_loss_ppm := smooth (smoothed_loss_ppm a) loss\<rparr> in
         if FEC_BYPASS_LOSS_PPM \<le> loss then report_bypass a
         else
           (let a = a\<lparr>bypass_streak := 0\<rparr>; t = target (smoothed_loss_ppm a) in
            if bypassed a then a\<lparr>ad_parity := min t MAX_PARITY, bad := 0, good := 0, bypassed := False\<rparr>
            else report_adjust a t)))"

lemmas report_defs = report_def report_unavailable_def report_bypass_def report_adjust_def Let_def

section \<open>Invariant\<close>

definition adaptive_inv :: "adaptive \<Rightarrow> bool" where
  "adaptive_inv a \<longleftrightarrow> ad_parity a \<le> MAX_PARITY \<and> bad a \<le> 1 \<and> good a \<le> 14 \<and>
     unavailable_reports a \<le> 14 \<and> (bypassed a \<longrightarrow> ad_parity a = 0)"

lemma target_le: "target l \<le> MAX_PARITY"
  by (simp add: target_def MAX_PARITY_def)

lemma counter_bounds:
  "\<not> (15::u8) \<le> x \<Longrightarrow> x \<le> 14" "\<not> (2::u8) \<le> x \<Longrightarrow> x \<le> 1" "\<not> (15::u16) \<le> y \<Longrightarrow> y \<le> 14"
  by (simp_all add: word_le_nat_alt)

lemma sat_sub_le: "x \<le> n \<Longrightarrow> sat_sub x b \<le> n"
  by (simp add: word_le_nat_alt unat_sat_sub)

lemma adaptive_inv_default: "adaptive_inv adaptive_default"
  by (simp add: adaptive_inv_def adaptive_default_def)

lemma report_unavailable_inv: "adaptive_inv a \<Longrightarrow> adaptive_inv (report_unavailable a)"
  by (auto simp: adaptive_inv_def report_unavailable_def Let_def counter_bounds)

lemma report_bypass_inv:
  "adaptive_inv a \<Longrightarrow> adaptive_inv (report_bypass (a\<lparr>unavailable_reports := 0, last_loss_ppm := l,
     smoothed_loss_ppm := s\<rparr>))"
  by (auto simp: adaptive_inv_def report_bypass_def Let_def)

lemma report_adjust_inv:
  "adaptive_inv a \<Longrightarrow> \<not> bypassed a \<Longrightarrow> adaptive_inv (report_adjust a t)"
  by (auto simp: adaptive_inv_def report_adjust_def Let_def counter_bounds sat_sub_le)

lemma report_inv: "adaptive_inv a \<Longrightarrow> adaptive_inv (report a loss)"
proof -
  assume inv: "adaptive_inv a"
  have upd: "adaptive_inv (a\<lparr>unavailable_reports := 0, last_loss_ppm := loss, smoothed_loss_ppm := s,
      bypass_streak := 0\<rparr>)" for s
    using inv by (simp add: adaptive_inv_def)
  show ?thesis
    using inv report_unavailable_inv report_bypass_inv report_adjust_inv [OF upd]
    by (auto simp: report_def Let_def adaptive_inv_def target_le)
qed

interpretation adaptive: invariant_machine report adaptive_inv
  by unfold_locales (rule report_inv)

section \<open>Smoothing\<close>

lemma unat_smooth: "unat (smooth s loss) = (unat s * 3 + unat loss) div 4"
proof -
  have "(unat s * 3 + unat loss) div 4 < 2 ^ 32"
    using unat_less_width [of s] unat_less_width [of loss] by simp
  then show ?thesis by (simp add: smooth_def unat_of_nat)
qed

lemma smooth_between: "min s loss \<le> smooth s loss \<and> smooth s loss \<le> max s loss"
  by (auto simp: word_le_nat_alt unat_smooth min_def max_def)

section \<open>What one report changes\<close>

lemma report_low:
  "loss < FEC_BYPASS_LOSS_PPM \<Longrightarrow> report a loss =
     (let b = a\<lparr>unavailable_reports := 0, last_loss_ppm := loss,
         smoothed_loss_ppm := smooth (smoothed_loss_ppm a) loss, bypass_streak := 0\<rparr>;
       t = target (smooth (smoothed_loss_ppm a) loss) in
      if bypassed a then b\<lparr>ad_parity := min t MAX_PARITY, bad := 0, good := 0, bypassed := False\<rparr>
      else report_adjust b t)"
  by (auto simp: report_def Let_def adaptive_consts)

lemma streak_two: "3 \<le> sat_add s (1::u8) \<Longrightarrow> 2 \<le> s"
  by (simp add: word_le_nat_alt unat_sat_add)

lemma counter_at_limit:
  "x \<le> 14 \<Longrightarrow> 15 \<le> sat_add x (1::u8) \<Longrightarrow> x = 14" "y \<le> 14 \<Longrightarrow> 15 \<le> y + (1::u16) \<Longrightarrow> y = 14"
  "z \<le> 1 \<Longrightarrow> 2 \<le> z + (1::u8) \<Longrightarrow> z = 1"
  by (simp_all add: word_le_nat_alt unat_sat_add unat_word_ariths word_unat_eq_iff)

lemma report_unavailable_parity_cases:
  "adaptive_inv a \<Longrightarrow> ad_parity (report_unavailable a) = ad_parity a \<or>
     ad_parity (report_unavailable a) + 1 = ad_parity a \<and> unavailable_reports a = 14"
  by (auto simp: report_unavailable_def Let_def adaptive_inv_def counter_at_limit)

lemma report_adjust_parity_cases:
  "adaptive_inv a \<Longrightarrow> t \<le> MAX_PARITY \<Longrightarrow> ad_parity (report_adjust a t) = ad_parity a \<or>
     ad_parity (report_adjust a t) = ad_parity a + 1 \<and> bad a = 1 \<and> ad_parity a < t \<or>
     ad_parity (report_adjust a t) + 1 = ad_parity a \<and> good a = 14 \<and> t < ad_parity a"
  by (auto simp: report_adjust_def Let_def adaptive_inv_def counter_at_limit)

section \<open>Sustained loss above the bypass threshold\<close>

text \<open>Reports at or above the threshold, possibly interleaved with reports without a sample.\<close>

lemma report_high:
  "FEC_BYPASS_LOSS_PPM \<le> loss \<Longrightarrow> loss \<noteq> LOSS_SAMPLE_UNAVAILABLE \<Longrightarrow>
   bypass_streak (report a loss) = sat_add (bypass_streak a) 1 \<and>
   (3 \<le> sat_add (bypass_streak a) 1 \<longrightarrow> ad_parity (report a loss) = 0 \<and> bypassed (report a loss))"
  by (simp add: report_def report_bypass_def Let_def)

lemma report_unavail:
  "bypass_streak (report a LOSS_SAMPLE_UNAVAILABLE) = bypass_streak a \<and>
   bypassed (report a LOSS_SAMPLE_UNAVAILABLE) = bypassed a"
  by (simp add: report_def report_unavailable_def Let_def)

lemma report_unavail_parity: "ad_parity (report a LOSS_SAMPLE_UNAVAILABLE) \<le> ad_parity a"
  by (simp add: report_def report_unavailable_def Let_def)

definition is_high :: "u32 \<Rightarrow> bool" where
  "is_high l \<longleftrightarrow> FEC_BYPASS_LOSS_PPM \<le> l \<and> l \<noteq> LOSS_SAMPLE_UNAVAILABLE"

lemma unat_streak:
  "set ls \<subseteq> {l. is_high l \<or> l = LOSS_SAMPLE_UNAVAILABLE} \<Longrightarrow>
   unat (bypass_streak (foldl report a ls)) = min 255 (unat (bypass_streak a) + length (filter is_high ls))"
proof (induction ls arbitrary: a)
  case Nil
  then show ?case using unat_less_width [of "bypass_streak a"] by simp
next
  case (Cons l ls)
  have "unat (bypass_streak (report a l)) = min 255 (unat (bypass_streak a) + (if is_high l then 1 else 0))"
    using Cons.prems report_high [of l a] report_unavail [of a] unat_less_width [of "bypass_streak a"]
    by (auto simp: is_high_def unat_sat_add)
  with Cons show ?case by auto
qed

lemma bypass_zero:
  assumes "set ls \<subseteq> {l. is_high l \<or> l = LOSS_SAMPLE_UNAVAILABLE}" and "3 \<le> length (filter is_high ls)"
  shows "ad_parity (foldl report a ls) = 0"
  using assms
proof (induction ls rule: rev_induct)
  case Nil
  then show ?case by simp
next
  case (snoc l ls)
  let ?b = "foldl report a ls"
  show ?case
  proof (cases "is_high l")
    case True
    have "2 \<le> unat (bypass_streak ?b)"
      using snoc.prems True unat_streak [of ls a] by auto
    then have "3 \<le> sat_add (bypass_streak ?b) 1"
      by (simp add: word_le_nat_alt unat_sat_add)
    with True show ?thesis
      using report_high [of l ?b] by (simp add: is_high_def)
  next
    case False
    with snoc have "ad_parity ?b = 0" and "l = LOSS_SAMPLE_UNAVAILABLE" by auto
    then show ?thesis
      using report_unavail_parity [of ?b] by simp
  qed
qed

section \<open>A clean path drains the redundancy\<close>

lemma smoothed_zero_run:
  "unat (smoothed_loss_ppm (foldl report a (replicate n 0))) * 4 ^ n \<le> unat (smoothed_loss_ppm a) * 3 ^ n"
proof (induction n arbitrary: a)
  case 0
  then show ?case by simp
next
  case (Suc n)
  have step: "smoothed_loss_ppm (report a 0) = smooth (smoothed_loss_ppm a) 0"
    by (simp add: report_def report_adjust_def Let_def adaptive_consts)
  have "unat (smoothed_loss_ppm (foldl report (report a 0) (replicate n 0))) * 4 ^ n
      \<le> (unat (smoothed_loss_ppm a) * 3) div 4 * 3 ^ n"
    using Suc.IH [of "report a 0"] by (simp add: step unat_smooth)
  then have "unat (smoothed_loss_ppm (foldl report (report a 0) (replicate n 0))) * 4 ^ n * 4
      \<le> (unat (smoothed_loss_ppm a) * 3) div 4 * 3 ^ n * 4"
    by simp
  also have "\<dots> \<le> (unat (smoothed_loss_ppm a) * 3) * 3 ^ n"
    by (simp add: mult.commute mult.left_commute)
  finally show ?case by (simp add: algebra_simps)
qed

definition drain_measure :: "adaptive \<Rightarrow> nat" where
  "drain_measure a = 15 * ad_parity a - unat (good a)"

lemma drain_step:
  assumes "adaptive_inv a" and "smoothed_loss_ppm a \<le> 9999"
  shows "smoothed_loss_ppm (report a 0) \<le> 9999 \<and> drain_measure (report a 0) \<le> drain_measure a - 1"
proof -
  have s: "smooth (smoothed_loss_ppm a) 0 \<le> 9999"
    using assms(2) by (simp add: word_le_nat_alt unat_smooth)
  then have t: "target (smooth (smoothed_loss_ppm a) 0) = 0"
    by (simp add: target_def)
  have g: "unat (good a) \<le> 14" "unat (good a + 1) = unat (good a) + 1"
    using assms(1) by (simp_all add: adaptive_inv_def word_le_nat_alt unat_word_ariths)
  have rep: "report a 0 =
      (let a = a\<lparr>unavailable_reports := 0, last_loss_ppm := 0,
                 smoothed_loss_ppm := smooth (smoothed_loss_ppm a) 0, bypass_streak := 0\<rparr> in
       if bypassed a then a\<lparr>ad_parity := 0, bad := 0, good := 0, bypassed := False\<rparr> else report_adjust a 0)"
    by (simp add: report_def Let_def adaptive_consts t)
  have "smoothed_loss_ppm (report a 0) = smooth (smoothed_loss_ppm a) 0"
    by (simp add: rep Let_def report_adjust_def)
  moreover have "drain_measure (report a 0) \<le> drain_measure a - 1"
    using g by (auto simp: rep Let_def report_adjust_def drain_measure_def word_le_nat_alt diff_mult_distrib2)
  ultimately show ?thesis using s by simp
qed

lemma drain_run:
  "adaptive_inv a \<Longrightarrow> smoothed_loss_ppm a \<le> 9999 \<Longrightarrow>
   drain_measure (foldl report a (replicate n 0)) \<le> drain_measure a - n"
proof (induction n arbitrary: a)
  case 0
  then show ?case by simp
next
  case (Suc n)
  note step = drain_step [OF Suc.prems]
  have "drain_measure (foldl report (report a 0) (replicate n 0)) \<le> drain_measure (report a 0) - n"
    by (rule Suc.IH) (use step report_inv [OF Suc.prems(1)] in simp_all)
  then show ?case using step by auto
qed

lemma drain_measure_zero: "adaptive_inv a \<Longrightarrow> drain_measure a = 0 \<Longrightarrow> ad_parity a = 0"
  by (auto simp: drain_measure_def adaptive_inv_def word_le_nat_alt)

lemma zero_run_smooth:
  "smoothed_loss_ppm (foldl report a (replicate 46 0)) \<le> 9999"
proof -
  have "unat (smoothed_loss_ppm a) \<le> 2 ^ 32 - 1"
    using unat_less_width [of "smoothed_loss_ppm a"] by simp
  then have "unat (smoothed_loss_ppm a) * 3 ^ 46 \<le> (2 ^ 32 - 1) * 3 ^ 46"
    by (rule mult_le_mono1)
  with smoothed_zero_run [of a 46]
  have "unat (smoothed_loss_ppm (foldl report a (replicate 46 0))) * 4 ^ 46 \<le> (2 ^ 32 - 1) * 3 ^ 46"
    by (rule order_trans)
  then show ?thesis by (simp add: word_le_nat_alt)
qed

lemma zero_run_drains:
  assumes "adaptive_inv a" and "106 \<le> n"
  shows "ad_parity (foldl report a (replicate n 0)) = 0"
proof -
  define b where "b = foldl report a (replicate 46 0)"
  have b: "adaptive_inv b" "smoothed_loss_ppm b \<le> 9999"
    using adaptive.run_invar [OF assms(1)] zero_run_smooth by (auto simp: b_def)
  have eq: "foldl report a (replicate n 0) = foldl report b (replicate (n - 46) 0)"
    using assms(2) by (simp add: b_def flip: foldl_append replicate_add)
  have "drain_measure b \<le> 60"
    using b(1) by (auto simp: drain_measure_def adaptive_inv_def MAX_PARITY_def)
  then have "drain_measure (foldl report b (replicate (n - 46) 0)) = 0"
    using drain_run [OF b, of "n - 46"] assms(2) by linarith
  then show ?thesis
    unfolding eq by (intro drain_measure_zero adaptive.run_invar b(1))
qed

section \<open>Properties of the controller\<close>

text \<open>Whatever loss reports arrive, in whatever order, the controller never asks for more than
  four parity shards, its counters stay far from overflow, and it asks for none while bypassed.\<close>

theorem adaptive_always_bounded:
  fixes losses :: "u32 list"
  defines "a \<equiv> foldl report adaptive_default losses"
  shows "ad_parity a \<le> MAX_PARITY \<and> bad a \<le> 1 \<and> good a \<le> 14 \<and> unavailable_reports a \<le> 14 \<and>
     (\<not> bypassed a \<or> ad_parity a = 0)"
  using adaptive.run_invar [OF adaptive_inv_default, of losses]
  by (auto simp: a_def adaptive_inv_def)

theorem adaptive_always_bounded_witness:
  "ad_parity (foldl report adaptive_default [90000, 90000, 90000]) \<le> MAX_PARITY"
  using adaptive_always_bounded [of "[90000, 90000, 90000]"] by simp



text \<open>Bypass.  Once three reports in a row (not counting reports without a sample) are at or
  above the bypass threshold, redundancy is switched off, from whatever state, and stays off while
  such reports continue.\<close>

theorem adaptive_bypass_under_sustained_loss:
  assumes "set losses \<subseteq> {l. is_high l \<or> l = LOSS_SAMPLE_UNAVAILABLE}"
    and "3 \<le> length (filter is_high losses)"
  shows "ad_parity (foldl report a losses) = 0"
  using assms by (rule bypass_zero)

theorem adaptive_bypass_under_sustained_loss_witness:
  "ad_parity (foldl report (adaptive_default\<lparr>ad_parity := 4\<rparr>)
     [300000, LOSS_SAMPLE_UNAVAILABLE, 900000, 300000]) = 0"
  by (rule adaptive_bypass_under_sustained_loss) (simp_all add: is_high_def adaptive_consts)

text \<open>C33: recovery to zero overhead.  From every reachable state, 106 consecutive loss-free
  reports remove all redundancy, and it stays removed while the path stays clean.\<close>

theorem adaptive_clean_path_drains:
  assumes "106 \<le> n"
  shows "ad_parity (foldl report adaptive_default (losses @ replicate n 0)) = 0"
  using zero_run_drains [OF adaptive.run_invar [OF adaptive_inv_default, of losses] assms] by simp

theorem adaptive_clean_path_drains_witness:
  "ad_parity (foldl report adaptive_default ([250000, 250000, 250000] @ replicate 120 0)) = 0"
  by (rule adaptive_clean_path_drains) simp

end
