(* ===== verification/Fec_Encoder.thy ===== *)
theory Fec_Encoder
  imports Frame_Wire Adaptive_Fec
begin

text \<open>
  The sending half of the tunnel (\<open>Encoder\<close> of \<open>src/main.rs\<close>): datagrams are cut into
  fragments, fragments are collected into groups of at most ten shards, and a group is flushed as
  data frames followed by Reed-Solomon parity frames.  The \<open>reed-solomon-erasure\<close> crate is the
  parameter \<open>rs_code\<close>; \<open>rs_ok\<close> states what its documentation promises for one shape.
\<close>

section \<open>The erasure code\<close>

text \<open>
  \<open>rs_new d p\<close> is whether \<open>ReedSolomon::new(d, p)\<close> succeeds, \<open>rs_encode\<close> is
  \<open>encode\<close> on all \<open>d + p\<close> shards, \<open>rs_reconstruct\<close> is \<open>reconstruct\<close> on the
  optional shards: whether it succeeded, and the shards it leaves behind.
\<close>

record rs_code =
  rs_new :: "nat \<Rightarrow> nat \<Rightarrow> bool"
  rs_encode :: "nat \<Rightarrow> nat \<Rightarrow> bytes list \<Rightarrow> bytes list option"
  rs_reconstruct :: "nat \<Rightarrow> nat \<Rightarrow> bytes option list \<Rightarrow> bool \<times> bytes option list"

text \<open>\<open>reconstruct\<close> works on a mutable slice, so it cannot change the number of shards.\<close>

definition rs_shape :: "rs_code \<Rightarrow> bool" where
  "rs_shape rs \<longleftrightarrow> (\<forall>d p sh. length (snd (rs_reconstruct rs d p sh)) = length sh)"

definition rs_codeword :: "rs_code \<Rightarrow> nat \<Rightarrow> nat \<Rightarrow> bytes list \<Rightarrow> bytes list \<Rightarrow> bool" where
  "rs_codeword rs d p ds ps \<longleftrightarrow> length ps = p \<and>
     (\<forall>sh. length sh = d + p \<and> (\<forall>i < d + p. sh ! i = None \<or> sh ! i = Some ((ds @ ps) ! i)) \<and>
        d \<le> length (filter (\<lambda>x. x \<noteq> None) sh) \<longrightarrow>
        rs_reconstruct rs d p sh = (True, map Some (ds @ ps)))"

text \<open>
  Encoding \<open>d\<close> non-empty shards of one length fills in \<open>p\<close> parity shards of that length,
  and from any \<open>d\<close> of the \<open>d + p\<close> shards the others are reconstructed.
\<close>

definition rs_ok :: "rs_code \<Rightarrow> nat \<Rightarrow> nat \<Rightarrow> bool" where
  "rs_ok rs d p \<longleftrightarrow> rs_new rs d p \<and>
     (\<forall>ds L. length ds = d \<and> 0 < L \<and> (\<forall>s \<in> set ds. length s = L) \<longrightarrow>
       (\<exists>ps. rs_encode rs d p (ds @ replicate p (replicate L 0)) = Some (ds @ ps) \<and>
          (\<forall>s \<in> set ps. length s = L) \<and> rs_codeword rs d p ds ps))"

section \<open>State and operations\<close>

definition SHARD :: nat where "SHARD = 1340"
definition FRAGMENT_HEADER :: nat where "FRAGMENT_HEADER = 14"
definition CHUNK :: nat where "CHUNK = SHARD - FRAGMENT_HEADER"
definition DATA_SHARDS :: nat where "DATA_SHARDS = 10"

lemmas shard_consts = SHARD_def FRAGMENT_HEADER_def CHUNK_def DATA_SHARDS_def

record encoder =
  en_version :: u8
  en_key_id :: u64
  en_session :: u64
  en_sequence :: u64
  en_packet :: u64
  en_group :: u64
  en_shards :: "bytes list"
  en_adaptive :: adaptive
  force_parity :: "nat option"

text \<open>
  \<open>forced\<close> is the value of \<open>SMART_FEC_FORCE_PARITY\<close> that a debug build reads; a
  release build passes \<open>None\<close>.
\<close>

definition with_identity :: "u64 \<Rightarrow> u8 \<Rightarrow> u64 \<Rightarrow> nat option \<Rightarrow> encoder" where
  "with_identity ses ver kid forced =
     \<lparr>en_version = ver, en_key_id = kid, en_session = ses, en_sequence = 1, en_packet = 1,
      en_group = 1, en_shards = [], en_adaptive = adaptive_default,
      force_parity = map_option (\<lambda>p. min p MAX_PARITY) forced\<rparr>"

definition report_frame :: "encoder \<Rightarrow> u32 \<Rightarrow> encoder \<times> frame" where
  "report_frame e loss_ppm =
     (e\<lparr>en_sequence := en_sequence e + 1\<rparr>,
      \<lparr>version = en_version e, key_id = en_key_id e, kind = KIND_REPORT, session = en_session e,
       sequence = en_sequence e, group = 0, index = 0, data = 0, parity = 0,
       payload = be_bytes 4 loss_ppm\<rparr>)"

definition make_shard :: "u64 \<Rightarrow> nat \<Rightarrow> nat \<Rightarrow> bytes \<Rightarrow> bytes" where
  "make_shard packet_id idx cnt chunk =
     be_bytes 8 packet_id @ be_bytes 2 (of_nat idx :: u16) @ be_bytes 2 (of_nat cnt :: u16) @
     be_bytes 2 (of_nat (length chunk) :: u16) @ chunk"

definition flush_parity :: "encoder \<Rightarrow> nat \<Rightarrow> nat" where
  "flush_parity e n =
     min (case force_parity e of
            Some p \<Rightarrow> min p n
          | None \<Rightarrow>
              if ad_parity (en_adaptive e) = 0 then 0
              else if n < DATA_SHARDS then min (ad_parity (en_adaptive e)) n
              else div_ceil (n * ad_parity (en_adaptive e)) DATA_SHARDS)
         MAX_PARITY"

definition shard_frame :: "encoder \<Rightarrow> u8 \<Rightarrow> nat \<Rightarrow> nat \<Rightarrow> nat \<Rightarrow> bytes \<Rightarrow> frame" where
  "shard_frame e k n p i shard =
     \<lparr>version = en_version e, key_id = en_key_id e, kind = k, session = en_session e,
      sequence = en_sequence e + of_nat i, group = en_group e, index = of_nat i,
      data = of_nat n, parity = of_nat p, payload = shard\<rparr>"

definition flush :: "rs_code \<Rightarrow> encoder \<Rightarrow> encoder \<times> frame list result" where
  "flush rs e =
     (if en_shards e = [] then (e, Inr [])
      else let n = length (en_shards e);
               p = flush_parity e n;
               shard_len = fold max (map length (en_shards e)) 0;
               shards = (if p > 0 then map (resize shard_len 0) (en_shards e) else en_shards e);
               data_frames = map (\<lambda>i. shard_frame e KIND_DATA n p i (shards ! i)) [0..<n];
               e1 = e\<lparr>en_shards := shards, en_sequence := en_sequence e + of_nat n\<rparr> in
        if p > 0 then
          (if \<not> rs_new rs n p then (e1, Inl (Bail ''reed-solomon dimensions''))
           else case rs_encode rs n p (shards @ replicate p (replicate shard_len 0)) of
             None \<Rightarrow> (e1, Inl (Bail ''reed-solomon encode''))
           | Some all_shards \<Rightarrow>
               (e1\<lparr>en_sequence := en_sequence e1 + of_nat p, en_shards := [], en_group := en_group e1 + 1\<rparr>,
                Inr (data_frames @
                  map (\<lambda>q. shard_frame e KIND_PARITY n p (n + q) (all_shards ! (n + q))) [0..<p])))
        else (e1\<lparr>en_shards := [], en_group := en_group e1 + 1\<rparr>, Inr data_frames))"

fun encode_chunks ::
  "rs_code \<Rightarrow> u64 \<Rightarrow> nat \<Rightarrow> nat \<Rightarrow> bytes list \<Rightarrow> encoder \<Rightarrow> frame list \<Rightarrow> encoder \<times> frame list result" where
  "encode_chunks rs pid cnt idx [] e frames = (e, Inr frames)"
| "encode_chunks rs pid cnt idx (c # cs) e frames =
     (let e1 = e\<lparr>en_shards := en_shards e @ [make_shard pid idx cnt c]\<rparr> in
      if length (en_shards e1) = DATA_SHARDS then
        (case flush rs e1 of
           (e2, Inl err) \<Rightarrow> (e2, Inl err)
         | (e2, Inr fs) \<Rightarrow> encode_chunks rs pid cnt (Suc idx) cs e2 (frames @ fs))
      else encode_chunks rs pid cnt (Suc idx) cs e1 frames)"

definition encode_datagram :: "rs_code \<Rightarrow> encoder \<Rightarrow> bytes \<Rightarrow> encoder \<times> frame list result" where
  "encode_datagram rs e pl =
     (let packet_id = en_packet e;
          e1 = e\<lparr>en_packet := en_packet e + 1\<rparr>;
          cnt = div_ceil (max (length pl) 1) CHUNK in
      if cnt > 65535 then (e1, Inl (Bail ''datagram too large''))
      else encode_chunks rs packet_id cnt 0 (if pl = [] then [[]] else chunks CHUNK pl) e1 [])"

section \<open>Invariant\<close>

definition proper_shard :: "bytes \<Rightarrow> bool" where
  "proper_shard s \<longleftrightarrow> (\<exists>pid idx cnt c. s = make_shard pid idx cnt c \<and> length c \<le> CHUNK)"

definition parity_level :: "encoder \<Rightarrow> nat" where
  "parity_level e = (case force_parity e of Some p \<Rightarrow> p | None \<Rightarrow> ad_parity (en_adaptive e))"

definition encoder_params_ok :: "encoder \<Rightarrow> bool" where
  "encoder_params_ok e \<longleftrightarrow> adaptive_inv (en_adaptive e) \<and> parity_level e \<le> MAX_PARITY"

lemma parity_level_upd [simp]:
  "parity_level (e\<lparr>en_shards := x\<rparr>) = parity_level e"
  "parity_level (e\<lparr>en_sequence := q\<rparr>) = parity_level e"
  "parity_level (e\<lparr>en_packet := q\<rparr>) = parity_level e"
  "parity_level (e\<lparr>en_group := q\<rparr>) = parity_level e"
  by (simp_all add: parity_level_def split: option.split)

definition encoder_inv :: "encoder \<Rightarrow> bool" where
  "encoder_inv e \<longleftrightarrow> length (en_shards e) < DATA_SHARDS \<and> (\<forall>s \<in> set (en_shards e). proper_shard s) \<and>
     encoder_params_ok e"

lemma length_make_shard [simp]: "length (make_shard pid idx cnt c) = FRAGMENT_HEADER + length c"
  by (simp add: make_shard_def FRAGMENT_HEADER_def)

lemma proper_shard_length: "proper_shard s \<Longrightarrow> FRAGMENT_HEADER \<le> length s \<and> length s \<le> SHARD"
  by (auto simp: proper_shard_def shard_consts)

lemma encoder_inv_with_identity: "encoder_inv (with_identity ses ver kid forced)"
  by (cases forced) (auto simp: encoder_inv_def with_identity_def encoder_params_ok_def parity_level_def
      adaptive_inv_default DATA_SHARDS_def adaptive_default_def [THEN arg_cong, of ad_parity])

lemma flush_parity_eq:
  assumes "encoder_params_ok e" and "n \<le> DATA_SHARDS"
  shows "flush_parity e n = min (parity_level e) n"
proof -
  have "div_ceil (DATA_SHARDS * k) DATA_SHARDS = k" for k
    by (simp add: div_ceil_def DATA_SHARDS_def)
  moreover have "MAX_PARITY \<le> DATA_SHARDS" by (simp add: MAX_PARITY_def DATA_SHARDS_def)
  ultimately show ?thesis
    using assms by (auto simp: flush_parity_def encoder_params_ok_def parity_level_def adaptive_inv_def
        split: option.splits)
qed

section \<open>Flushing a group\<close>

definition group_len :: "encoder \<Rightarrow> nat" where
  "group_len e = fold max (map length (en_shards e)) 0"

definition padded_shards :: "encoder \<Rightarrow> bytes list" where
  "padded_shards e =
     (if flush_parity e (length (en_shards e)) > 0 then map (resize (group_len e) 0) (en_shards e)
      else en_shards e)"

text \<open>
  \<open>group_code rs e cw\<close>: \<open>cw\<close> are the shards of the group that \<open>flush\<close> would send now,
  data shards first.
\<close>

definition group_code :: "rs_code \<Rightarrow> encoder \<Rightarrow> bytes list \<Rightarrow> bool" where
  "group_code rs e cw \<longleftrightarrow>
     (\<exists>ps. cw = padded_shards e @ ps \<and>
       (let n = length (en_shards e); p = flush_parity e n in length ps = p \<and>
         (\<forall>s \<in> set cw. FRAGMENT_HEADER \<le> length s \<and> length s \<le> SHARD) \<and>
         (p > 0 \<longrightarrow> rs_new rs n p \<and> rs_codeword rs n p (padded_shards e) ps)))"

definition group_frames :: "encoder \<Rightarrow> bytes list \<Rightarrow> frame list" where
  "group_frames e cw =
     (let n = length (en_shards e); p = flush_parity e n in
      map (\<lambda>i. shard_frame e (if i < n then KIND_DATA else KIND_PARITY) n p i (cw ! i)) [0..<n + p])"

definition next_group :: "encoder \<Rightarrow> encoder" where
  "next_group e = e\<lparr>en_shards := [], en_group := en_group e + 1,
     en_sequence := en_sequence e + of_nat (length (en_shards e) + flush_parity e (length (en_shards e)))\<rparr>"

lemma fold_max_ge: "x \<in> set xs \<Longrightarrow> x \<le> fold max xs (a :: nat)"
  by (simp add: Max.set_eq_fold [symmetric])

lemma fold_max_le: "a \<le> b \<Longrightarrow> (\<forall>x \<in> set xs. x \<le> b) \<Longrightarrow> fold max xs (a :: nat) \<le> b"
  by (simp add: Max.set_eq_fold [symmetric])

lemma group_len_bounds:
  assumes "\<forall>s \<in> set (en_shards e). proper_shard s" and "en_shards e \<noteq> []"
  shows "FRAGMENT_HEADER \<le> group_len e \<and> group_len e \<le> SHARD"
proof
  obtain s where s: "s \<in> set (en_shards e)" using assms(2) by (cases "en_shards e") auto
  have "length s \<le> group_len e"
    unfolding group_len_def using s by (intro fold_max_ge) auto
  then show "FRAGMENT_HEADER \<le> group_len e"
    using s assms(1) proper_shard_length by fastforce
  show "group_len e \<le> SHARD"
    unfolding group_len_def using assms(1) proper_shard_length by (intro fold_max_le) auto
qed

lemma padded_shards_length:
  assumes "\<forall>s \<in> set (en_shards e). proper_shard s" and "s \<in> set (padded_shards e)"
  shows "FRAGMENT_HEADER \<le> length s \<and> length s \<le> SHARD"
proof -
  have "en_shards e \<noteq> []" using assms(2) by (auto simp: padded_shards_def split: if_splits)
  with assms show ?thesis
    using group_len_bounds [of e] proper_shard_length by (auto simp: padded_shards_def split: if_splits)
qed

lemma length_padded_shards [simp]: "length (padded_shards e) = length (en_shards e)"
  by (simp add: padded_shards_def)

lemma flush_empty: "en_shards e = [] \<Longrightarrow> flush rs e = (e, Inr [])"
  by (simp add: flush_def)

lemma flush_spec:
  assumes "\<forall>s \<in> set (en_shards e). proper_shard s" and "en_shards e \<noteq> []"
    and rs: "0 < flush_parity e (length (en_shards e)) \<Longrightarrow>
      rs_ok rs (length (en_shards e)) (flush_parity e (length (en_shards e)))"
  obtains cw where "group_code rs e cw" and "flush rs e = (next_group e, Inr (group_frames e cw))"
proof (cases "0 < flush_parity e (length (en_shards e))")
  case True
  let ?n = "length (en_shards e)" and ?p = "flush_parity e (length (en_shards e))"
  let ?L = "group_len e" and ?ds = "padded_shards e"
  have ds: "?ds = map (resize ?L 0) (en_shards e)" using True by (simp add: padded_shards_def)
  have "length ?ds = ?n \<and> 0 < ?L \<and> (\<forall>s \<in> set ?ds. length s = ?L)"
    using group_len_bounds [OF assms(1,2)] by (auto simp: ds FRAGMENT_HEADER_def)
  then obtain ps where ps: "rs_encode rs ?n ?p (?ds @ replicate ?p (replicate ?L 0)) = Some (?ds @ ps)"
    "\<forall>s \<in> set ps. length s = ?L" "rs_codeword rs ?n ?p ?ds ps" and new: "rs_new rs ?n ?p"
    using rs [OF True] unfolding rs_ok_def by blast
  have len: "length ps = ?p" using ps(3) by (simp add: rs_codeword_def)
  have code: "group_code rs e (?ds @ ps)"
    unfolding group_code_def using ps new len padded_shards_length [OF assms(1)] group_len_bounds [OF assms(1,2)]
    by (auto simp: Let_def)
  have "flush rs e = (next_group e, Inr (group_frames e (?ds @ ps)))"
  proof -
    have frames: "group_frames e (?ds @ ps) =
        map (\<lambda>i. shard_frame e KIND_DATA ?n ?p i (?ds ! i)) [0..<?n] @
        map (\<lambda>q. shard_frame e KIND_PARITY ?n ?p (?n + q) ((?ds @ ps) ! (?n + q))) [0..<?p]"
      by (rule nth_equalityI) (auto simp: group_frames_def Let_def nth_append)
    show ?thesis
      unfolding frames using True assms(2) ps(1) new
      by (simp add: flush_def Let_def next_group_def group_len_def [symmetric] ds [symmetric] add.assoc)
  qed
  with code show ?thesis by (rule that)
next
  case False
  then have code: "group_code rs e (en_shards e)"
    using assms(1) proper_shard_length by (auto simp: group_code_def padded_shards_def Let_def)
  have "flush rs e = (next_group e, Inr (group_frames e (en_shards e)))"
    using False assms(2) by (simp add: flush_def Let_def next_group_def group_frames_def)
  with code show ?thesis by (rule that)
qed

section \<open>What the encoder emits\<close>

definition rs_supports :: "rs_code \<Rightarrow> nat \<Rightarrow> bool" where
  "rs_supports rs level \<longleftrightarrow> (\<forall>n. 0 < n \<and> n \<le> DATA_SHARDS \<and> 0 < level \<longrightarrow> rs_ok rs n (min level n))"

text \<open>The shape the receiving side checks, the identity of the sender, and the size on the wire.\<close>

definition sent_by :: "encoder \<Rightarrow> frame \<Rightarrow> bool" where
  "sent_by e f \<longleftrightarrow> version f = en_version e \<and> key_id f = en_key_id e \<and> session f = en_session e \<and>
     0 < unat (data f) \<and> unat (data f) \<le> DATA_SHARDS \<and> unat (parity f) \<le> MAX_PARITY \<and>
     unat (parity f) \<le> unat (data f) \<and> unat (index f) < unat (data f) + unat (parity f) \<and>
     FRAGMENT_HEADER \<le> length (payload f) \<and> length (payload f) \<le> SHARD \<and>
     kind f = (if unat (index f) < unat (data f) then KIND_DATA else KIND_PARITY)"

text \<open>The fragment inside a data shard, without the zero padding of its group.\<close>

definition unpad :: "bytes \<Rightarrow> bytes" where
  "unpad s = take (FRAGMENT_HEADER + unat (from_be (take 2 (drop 12 s)) :: u16)) s"

definition data_fragments :: "frame list \<Rightarrow> bytes list" where
  "data_fragments fs = map (\<lambda>f. unpad (payload f)) (filter (\<lambda>f. kind f = KIND_DATA) fs)"

text \<open>
  \<open>logged\<close> describes the \<open>k\<close>-th group flushed from \<open>e\<close> on: the encoder at that moment and
  the shards of the group; \<open>group_log\<close> is the sequence of groups behind the frames \<open>fs\<close>.
\<close>

fun logged :: "rs_code \<Rightarrow> encoder \<Rightarrow> nat \<Rightarrow> encoder \<times> bytes list \<Rightarrow> bool" where
  "logged rs e k (s, cw) \<longleftrightarrow> en_group s = en_group e + of_nat k \<and> en_session s = en_session e \<and>
     encoder_params_ok s \<and> en_shards s \<noteq> [] \<and> length (en_shards s) \<le> DATA_SHARDS \<and>
     (\<forall>x \<in> set (en_shards s). proper_shard x) \<and> group_code rs s cw"

definition group_log ::
  "rs_code \<Rightarrow> encoder \<Rightarrow> bytes list \<Rightarrow> (encoder \<times> bytes list) list \<Rightarrow> frame list \<Rightarrow> encoder \<Rightarrow> bool" where
  "group_log rs e new L fs e' \<longleftrightarrow> (\<forall>k < length L. logged rs e k (L ! k)) \<and>
     fs = concat (map (\<lambda>(s, cw). group_frames s cw) L) \<and> en_group e' = en_group e + of_nat (length L) \<and>
     concat (map (en_shards \<circ> fst) L) @ en_shards e' = en_shards e @ new"

text \<open>
  \<open>emits rs e new fs e'\<close>: going from \<open>e\<close> to \<open>e'\<close> the encoder took in the fragments
  \<open>new\<close> and sent the frames \<open>fs\<close>: consecutively numbered, well formed, and together with
  the pending shards carrying each fragment once, in order.
\<close>

definition emits :: "rs_code \<Rightarrow> encoder \<Rightarrow> bytes list \<Rightarrow> frame list \<Rightarrow> encoder \<Rightarrow> bool" where
  "emits rs e new fs e' \<longleftrightarrow> (\<exists>L. group_log rs e new L fs e') \<and> encoder_inv e' \<and> en_version e' = en_version e \<and> en_key_id e' = en_key_id e \<and>
     en_session e' = en_session e \<and> en_packet e' = en_packet e \<and> en_adaptive e' = en_adaptive e \<and>
     force_parity e' = force_parity e \<and>
     en_sequence e' = en_sequence e + of_nat (length fs) \<and>
     (\<forall>i < length fs. sequence (fs ! i) = en_sequence e + of_nat i) \<and>
     (\<forall>f \<in> set fs. sent_by e f) \<and>
     data_fragments fs @ en_shards e' = en_shards e @ new"

lemma unat_take_len:
  "length c \<le> CHUNK \<Longrightarrow> unpad (make_shard pid idx cnt c @ zs) = make_shard pid idx cnt c"
  by (simp add: unpad_def make_shard_def shard_consts list_layout)

lemma unpad_resize: "proper_shard s \<Longrightarrow> length s \<le> n \<Longrightarrow> unpad (resize n v s) = s"
  by (auto simp: proper_shard_def resize_def unat_take_len)

lemma unpad_proper: "proper_shard s \<Longrightarrow> unpad s = s"
  using unat_take_len [where zs = "[]"] by (auto simp: proper_shard_def)

lemma unpad_padded:
  assumes "\<forall>s \<in> set (en_shards e). proper_shard s"
  shows "map unpad (padded_shards e) = en_shards e"
proof -
  have "length s \<le> group_len e" if "s \<in> set (en_shards e)" for s
    unfolding group_len_def using that by (intro fold_max_ge) auto
  with assms show ?thesis
    by (auto simp: padded_shards_def unpad_resize unpad_proper intro!: map_idI)
qed

lemma group_frames_nth:
  "i < length (group_frames e cw) \<Longrightarrow> group_frames e cw ! i =
     shard_frame e (if i < length (en_shards e) then KIND_DATA else KIND_PARITY)
       (length (en_shards e)) (flush_parity e (length (en_shards e))) i (cw ! i)"
  by (simp add: group_frames_def Let_def)

lemma length_group_frames:
  "length (group_frames e cw) = length (en_shards e) + flush_parity e (length (en_shards e))"
  by (simp add: group_frames_def Let_def)

lemma group_frames_fragments:
  assumes "\<forall>s \<in> set (en_shards e). proper_shard s" and "group_code rs e cw"
  shows "data_fragments (group_frames e cw) = en_shards e"
proof -
  let ?n = "length (en_shards e)" and ?p = "flush_parity e (length (en_shards e))"
  obtain ps where cw: "cw = padded_shards e @ ps" using assms(2) by (auto simp: group_code_def)
  have split: "group_frames e cw =
      map (\<lambda>i. shard_frame e KIND_DATA ?n ?p i (padded_shards e ! i)) [0..<?n] @
      map (\<lambda>q. shard_frame e KIND_PARITY ?n ?p (?n + q) (cw ! (?n + q))) [0..<?p]"
    by (rule nth_equalityI) (auto simp: group_frames_def Let_def nth_append cw)
  have "data_fragments (group_frames e cw) = map (\<lambda>i. unpad (padded_shards e ! i)) [0..<?n]"
    unfolding split data_fragments_def
    by (simp add: filter_map comp_def shard_frame_def KIND_DATA_def KIND_PARITY_def)
  also have "\<dots> = map unpad (padded_shards e)"
    by (rule nth_equalityI) auto
  finally show ?thesis by (simp add: unpad_padded [OF assms(1)])
qed

lemma group_frames_sent_by:
  assumes "encoder_params_ok e" and "en_shards e \<noteq> []" and "length (en_shards e) \<le> DATA_SHARDS"
    and "group_code rs e cw" and "f \<in> set (group_frames e cw)"
  shows "sent_by e f"
proof -
  let ?n = "length (en_shards e)"
  have p: "flush_parity e ?n \<le> ?n" "flush_parity e ?n \<le> MAX_PARITY"
    using assms(1,3) flush_parity_eq [OF assms(1,3)] by (auto simp: encoder_params_ok_def)
  obtain i where i: "i < ?n + flush_parity e ?n" and
    f: "f = shard_frame e (if i < ?n then KIND_DATA else KIND_PARITY) ?n (flush_parity e ?n) i (cw ! i)"
    using assms(5) by (auto simp: group_frames_def Let_def)
  have "length cw = ?n + flush_parity e ?n" "\<forall>s \<in> set cw. FRAGMENT_HEADER \<le> length s \<and> length s \<le> SHARD"
    using assms(4) by (auto simp: group_code_def Let_def)
  with i have "FRAGMENT_HEADER \<le> length (cw ! i) \<and> length (cw ! i) \<le> SHARD"
    by (metis nth_mem)
  then show ?thesis
    using assms(2,3) p i by (auto simp: f sent_by_def shard_frame_def DATA_SHARDS_def MAX_PARITY_def)
qed

lemma group_log_Nil: "group_log rs e [] [] [] e"
  by (simp add: group_log_def)

lemma group_log_trans:
  assumes "group_log rs e new L fs e'" and "group_log rs e' new' L' fs' e''" and "en_session e' = en_session e"
  shows "group_log rs e (new @ new') (L @ L') (fs @ fs') e''"
proof -
  have "logged rs e k ((L @ L') ! k)" if k: "k < length (L @ L')" for k
  proof (cases "k < length L")
    case True
    then show ?thesis using assms(1) by (simp add: group_log_def nth_append)
  next
    case False
    then obtain j where j: "k = length L + j" "j < length L'"
      using k by (metis add_less_cancel_left le_Suc_ex length_append not_less)
    have "logged rs e' j (L' ! j)" using assms(2) j(2) by (simp add: group_log_def)
    with assms(1,3) j(1) show ?thesis by (cases "L' ! j") (simp add: group_log_def nth_append add.assoc)
  qed
  with assms(1,2) show ?thesis by (simp add: group_log_def)
qed

lemma emits_flush:
  assumes "encoder_params_ok e" and "length (en_shards e) \<le> DATA_SHARDS"
    and "\<forall>s \<in> set (en_shards e). proper_shard s" and "rs_supports rs (parity_level e)"
  obtains e' fs where "flush rs e = (e', Inr fs)" and "emits rs e [] fs e'" and "en_shards e' = []"
proof (cases "en_shards e = []")
  case True
  then have "emits rs e [] [] e"
    using assms group_log_Nil by (auto simp: emits_def encoder_inv_def data_fragments_def DATA_SHARDS_def)
  with True show ?thesis using that flush_empty by blast
next
  case False
  let ?n = "length (en_shards e)"
  have "0 < flush_parity e ?n \<Longrightarrow> rs_ok rs ?n (flush_parity e ?n)"
    using assms(4) False assms(2) flush_parity_eq [OF assms(1,2)] by (auto simp: rs_supports_def)
  from flush_spec [OF assms(3) False this]
  obtain cw where cw: "group_code rs e cw" "flush rs e = (next_group e, Inr (group_frames e cw))"
    by blast
  have "encoder_params_ok (next_group e)"
    using assms(1) by (simp add: encoder_params_ok_def next_group_def)
  moreover have "sequence (group_frames e cw ! i) = en_sequence e + of_nat i"
    if "i < length (group_frames e cw)" for i
    using that by (simp add: group_frames_nth shard_frame_def)
  moreover have "group_log rs e [] [(e, cw)] (group_frames e cw) (next_group e)"
    using assms(1-3) False cw(1) by (simp add: group_log_def next_group_def)
  ultimately have "emits rs e [] (group_frames e cw) (next_group e)"
    using group_frames_sent_by [OF assms(1) False assms(2) cw(1)] group_frames_fragments [OF assms(3) cw(1)]
    by (auto simp: emits_def encoder_inv_def next_group_def DATA_SHARDS_def length_group_frames)
  with cw(2) show ?thesis by (intro that) (auto simp: next_group_def)
qed

lemma emits_level: "emits rs e new fs e' \<Longrightarrow> parity_level e' = parity_level e"
  by (auto simp: emits_def parity_level_def split: option.split)

lemma emits_trans:
  assumes "emits rs e new fs e'" and "emits rs e' new' fs' e''"
  shows "emits rs e (new @ new') (fs @ fs') e''"
proof -
  have "sequence ((fs @ fs') ! i) = en_sequence e + of_nat i" if "i < length (fs @ fs')" for i
    using that assms by (cases "i < length fs") (auto simp: emits_def nth_append)
  moreover have "sent_by e f" if "f \<in> set (fs @ fs')" for f
    using that assms by (auto simp: emits_def sent_by_def)
  moreover have "\<exists>L. group_log rs e (new @ new') L (fs @ fs') e''"
    using assms group_log_trans unfolding emits_def by blast
  ultimately show ?thesis
    using assms by (auto simp: emits_def data_fragments_def)
qed

definition fragments :: "u64 \<Rightarrow> nat \<Rightarrow> nat \<Rightarrow> bytes list \<Rightarrow> bytes list" where
  "fragments pid cnt idx cs = map (\<lambda>(i, c). make_shard pid i cnt c) (enumerate idx cs)"

lemma fragments_Cons: "fragments pid cnt idx (c # cs) = make_shard pid idx cnt c # fragments pid cnt (Suc idx) cs"
  by (simp add: fragments_def)

lemma group_log_push:
  "group_log rs (e\<lparr>en_shards := en_shards e @ [m]\<rparr>) [] L fs e' \<Longrightarrow> group_log rs e [m] L fs e'"
proof -
  have "logged rs (e\<lparr>en_shards := en_shards e @ [m]\<rparr>) k x = logged rs e k x" for k x by (cases x) simp
  then show "group_log rs (e\<lparr>en_shards := en_shards e @ [m]\<rparr>) [] L fs e' \<Longrightarrow> group_log rs e [m] L fs e'"
    by (simp add: group_log_def)
qed

lemma emits_push:
  assumes "encoder_inv e" and "length c \<le> CHUNK" and "Suc (length (en_shards e)) < DATA_SHARDS"
  shows "emits rs e [make_shard pid idx cnt c] [] (e\<lparr>en_shards := en_shards e @ [make_shard pid idx cnt c]\<rparr>)"
  using assms by (auto simp: emits_def encoder_inv_def encoder_params_ok_def data_fragments_def proper_shard_def
      group_log_def intro: exI [of _ "[]"])

lemma emits_push_flush:
  assumes "encoder_inv e" and "length c \<le> CHUNK" and "Suc (length (en_shards e)) = DATA_SHARDS"
    and "rs_supports rs (parity_level e)"
  obtains e' fs where "flush rs (e\<lparr>en_shards := en_shards e @ [make_shard pid idx cnt c]\<rparr>) = (e', Inr fs)"
    and "emits rs e [make_shard pid idx cnt c] fs e'"
proof -
  let ?e1 = "e\<lparr>en_shards := en_shards e @ [make_shard pid idx cnt c]\<rparr>"
  have "encoder_params_ok ?e1" "parity_level ?e1 = parity_level e"
    "length (en_shards ?e1) \<le> DATA_SHARDS" "\<forall>s \<in> set (en_shards ?e1). proper_shard s"
    using assms(1-3) by (auto simp: encoder_inv_def encoder_params_ok_def proper_shard_def)
  then obtain e' fs where fl: "flush rs ?e1 = (e', Inr fs)" "emits rs ?e1 [] fs e'"
    using emits_flush assms(4) by metis
  have "emits rs e [make_shard pid idx cnt c] fs e'"
    using fl(2) by (auto simp: emits_def sent_by_def intro: group_log_push)
  with fl(1) show ?thesis by (rule that)
qed

lemma emits_encode_chunks:
  "encoder_inv e \<Longrightarrow> rs_supports rs (parity_level e) \<Longrightarrow> \<forall>c \<in> set cs. length c \<le> CHUNK \<Longrightarrow>
   \<exists>e' fs. encode_chunks rs pid cnt idx cs e frames = (e', Inr (frames @ fs)) \<and>
     emits rs e (fragments pid cnt idx cs) fs e'"
proof (induction cs arbitrary: e idx frames)
  case Nil
  then have "emits rs e [] [] e" using group_log_Nil by (auto simp: emits_def data_fragments_def)
  then show ?case by (auto simp: fragments_def)
next
  case (Cons c cs)
  let ?m = "make_shard pid idx cnt c"
  have c: "length c \<le> CHUNK" using Cons.prems by simp
  obtain e1 fs1 where step: "emits rs e [?m] fs1 e1"
    "encode_chunks rs pid cnt idx (c # cs) e frames = encode_chunks rs pid cnt (Suc idx) cs e1 (frames @ fs1)"
  proof (cases "Suc (length (en_shards e)) = DATA_SHARDS")
    case True
    obtain e' fs where "flush rs (e\<lparr>en_shards := en_shards e @ [?m]\<rparr>) = (e', Inr fs)" "emits rs e [?m] fs e'"
      by (rule emits_push_flush [OF Cons.prems(1) c True Cons.prems(2)])
    with True show ?thesis by (intro that [of fs e']) auto
  next
    case False
    then have "Suc (length (en_shards e)) < DATA_SHARDS"
      using Cons.prems(1) by (simp add: encoder_inv_def)
    from emits_push [OF Cons.prems(1) c this] False show ?thesis by (intro that) auto
  qed
  have "encoder_inv e1" "parity_level e1 = parity_level e"
    using emits_level [OF step(1)] step(1) by (simp_all add: emits_def)
  with Cons.IH [of e1 "Suc idx" "frames @ fs1"] Cons.prems obtain e' fs where
    "encode_chunks rs pid cnt (Suc idx) cs e1 (frames @ fs1) = (e', Inr ((frames @ fs1) @ fs))"
    "emits rs e1 (fragments pid cnt (Suc idx) cs) fs e'"
    by auto
  with step emits_trans [OF step(1)] show ?case
    by (fastforce simp: fragments_Cons)
qed

definition datagram_chunks :: "bytes \<Rightarrow> bytes list" where
  "datagram_chunks pl = (if pl = [] then [[]] else chunks CHUNK pl)"

lemma datagram_chunks_props:
  "concat (datagram_chunks pl) = pl" "c \<in> set (datagram_chunks pl) \<Longrightarrow> length c \<le> CHUNK"
  "length (datagram_chunks pl) = div_ceil (max (length pl) 1) CHUNK"
proof -
  have pos: "0 < CHUNK" by (simp add: shard_consts)
  show "concat (datagram_chunks pl) = pl" "c \<in> set (datagram_chunks pl) \<Longrightarrow> length c \<le> CHUNK"
    using concat_chunks [OF pos] chunks_length_le by (auto simp: datagram_chunks_def split: if_splits)
  show "length (datagram_chunks pl) = div_ceil (max (length pl) 1) CHUNK"
  proof (cases "pl = []")
    case True
    then show ?thesis by (simp add: datagram_chunks_def div_ceil_def shard_consts)
  next
    case False
    then have "max (length pl) 1 = length pl" by (cases pl) auto
    with False show ?thesis by (simp add: datagram_chunks_def length_chunks [OF pos])
  qed
qed

lemma datagram_chunks_count: "length pl \<le> 65535 \<Longrightarrow> length (datagram_chunks pl) \<le> 50"
  unfolding datagram_chunks_props(3) by (subst div_ceil_le_iff) (auto simp: shard_consts)

lemma emits_encode_datagram:
  assumes "encoder_inv e" and "rs_supports rs (parity_level e)" and "length pl \<le> 65535"
  obtains e' fs where "encode_datagram rs e pl = (e', Inr fs)"
    and "emits rs (e\<lparr>en_packet := en_packet e + 1\<rparr>)
      (fragments (en_packet e) (length (datagram_chunks pl)) 0 (datagram_chunks pl)) fs e'"
proof -
  let ?e1 = "e\<lparr>en_packet := en_packet e + 1\<rparr>" and ?n = "length (datagram_chunks pl)"
  have "encoder_inv ?e1" "parity_level ?e1 = parity_level e"
    using assms(1) by (auto simp: encoder_inv_def encoder_params_ok_def)
  then obtain e' fs where r: "encode_chunks rs (en_packet e) ?n 0 (datagram_chunks pl) ?e1 [] = (e', Inr fs)"
    "emits rs ?e1 (fragments (en_packet e) ?n 0 (datagram_chunks pl)) fs e'"
    using emits_encode_chunks [of ?e1 rs "datagram_chunks pl" "en_packet e" ?n 0 "[]"] assms(2)
      datagram_chunks_props(2) by auto
  have "\<not> ?n > 65535" using datagram_chunks_count [OF assms(3)] by simp
  with r(1) have "encode_datagram rs e pl = (e', Inr fs)"
    by (simp add: encode_datagram_def Let_def datagram_chunks_props(3) datagram_chunks_def [symmetric])
  with r(2) show ?thesis by (intro that)
qed

lemma emits_repacket:
  "emits rs (e\<lparr>en_packet := k\<rparr>) new fs e' \<Longrightarrow> emits rs (e\<lparr>en_packet := q\<rparr>) new fs (e'\<lparr>en_packet := q\<rparr>)"
proof -
  assume em: "emits rs (e\<lparr>en_packet := k\<rparr>) new fs e'"
  have lg: "logged rs (e\<lparr>en_packet := q\<rparr>) i x = logged rs (e\<lparr>en_packet := k\<rparr>) i x" for i x by (cases x) simp
  have "group_log rs (e\<lparr>en_packet := q\<rparr>) new L fs (e'\<lparr>en_packet := q\<rparr>) = group_log rs (e\<lparr>en_packet := k\<rparr>) new L fs e'" for L
    by (simp add: group_log_def lg)
  with em show ?thesis
    by (auto simp: emits_def encoder_inv_def encoder_params_ok_def sent_by_def)
qed

section \<open>A burst of datagrams\<close>

text \<open>
  The sending side hands one datagram after the other to \<open>encode_datagram\<close> and calls
  \<open>flush\<close> when its ticker fires: \<open>encode_run\<close> is the frames of such a burst.
\<close>

fun encode_run :: "rs_code \<Rightarrow> encoder \<Rightarrow> bytes list \<Rightarrow> encoder \<times> frame list result" where
  "encode_run rs e [] = flush rs e"
| "encode_run rs e (pl # pls) =
     (case encode_datagram rs e pl of
        (e1, Inl err) \<Rightarrow> (e1, Inl err)
      | (e1, Inr fs) \<Rightarrow>
          (case encode_run rs e1 pls of
             (e2, Inl err) \<Rightarrow> (e2, Inl err)
           | (e2, Inr fs') \<Rightarrow> (e2, Inr (fs @ fs'))))"

text \<open>The fragments of the datagrams of a burst whose first packet number is \<open>pid\<close>.\<close>

fun burst_fragments :: "u64 \<Rightarrow> bytes list \<Rightarrow> bytes list" where
  "burst_fragments pid [] = []"
| "burst_fragments pid (pl # pls) =
     fragments pid (length (datagram_chunks pl)) 0 (datagram_chunks pl) @ burst_fragments (pid + 1) pls"

lemma encode_run_emits:
  assumes "encoder_inv e" and "rs_supports rs (parity_level e)" and "\<forall>pl \<in> set pls. length pl \<le> 65535"
  shows "\<exists>e' fs. encode_run rs e pls = (e', Inr fs) \<and> en_shards e' = [] \<and>
     emits rs (e\<lparr>en_packet := en_packet e + of_nat (length pls)\<rparr>) (burst_fragments (en_packet e) pls) fs e'"
  using assms
proof (induction pls arbitrary: e)
  case Nil
  have "encoder_params_ok e" "length (en_shards e) \<le> DATA_SHARDS" "\<forall>s \<in> set (en_shards e). proper_shard s"
    using Nil.prems(1) by (simp_all add: encoder_inv_def)
  from emits_flush [OF this Nil.prems(2)] obtain e' fs where
    "flush rs e = (e', Inr fs)" "emits rs e [] fs e'" "en_shards e' = []"
    by blast
  then show ?case by (intro exI [of _ e'] exI [of _ fs]) simp
next
  case (Cons pl pls)
  have "length pl \<le> 65535" using Cons.prems(3) by simp
  from emits_encode_datagram [OF Cons.prems(1,2) this] obtain e1 fs where
    enc: "encode_datagram rs e pl = (e1, Inr fs)" and
    em: "emits rs (e\<lparr>en_packet := en_packet e + 1\<rparr>)
      (fragments (en_packet e) (length (datagram_chunks pl)) 0 (datagram_chunks pl)) fs e1"
    by blast
  have e1: "encoder_inv e1" "rs_supports rs (parity_level e1)" "en_packet e1 = en_packet e + 1"
    using em emits_level [OF em] Cons.prems(2) by (simp_all add: emits_def)
  obtain e' fs' where run: "encode_run rs e1 pls = (e', Inr fs')" "en_shards e' = []"
    "emits rs (e1\<lparr>en_packet := en_packet e1 + of_nat (length pls)\<rparr>) (burst_fragments (en_packet e1) pls) fs' e'"
    using Cons.IH [OF e1(1,2)] Cons.prems(3) by auto
  have "emits rs (e\<lparr>en_packet := en_packet e + of_nat (length (pl # pls))\<rparr>)
      (fragments (en_packet e) (length (datagram_chunks pl)) 0 (datagram_chunks pl)) fs
      (e1\<lparr>en_packet := en_packet e1 + of_nat (length pls)\<rparr>)"
    using emits_repacket [OF em, of "en_packet e + of_nat (length (pl # pls))"] e1(3) by (simp add: add_ac)
  from emits_trans [OF this run(3)] show ?case
    using enc run(1,2) e1(3) by (simp add: add_ac)
qed

end
