(* ===== verification/Sequence_Window.thy ===== *)
theory Sequence_Window
  imports Fec_Prelude
begin

text \<open>
  The sequence accounting of \<open>Decoder\<close> (\<open>src/main.rs\<close>): \<open>observe_seq\<close> filters late
  and duplicate sequence numbers, \<open>sequence_report\<close> closes the part of the window that lies
  more than the reorder distance behind the highest number seen and measures its loss.  The record
  holds the fields of \<open>Decoder\<close> these two use; the decoder extends it.
\<close>

section \<open>State and operations\<close>

definition REORDER_WINDOW :: u64 where "REORDER_WINDOW = 64"

record seq_window =
  d_session :: u64
  highest_sequence :: u64
  finalized_sequence :: u64
  seen_sequences :: "u64 set"
  late_sequences :: u64
  duplicate_sequences :: u64

record seq_report =
  expected :: u64
  received :: u64
  missing :: u64
  sequence_gap_ppm :: u32
  late :: u64
  duplicates :: u64

definition observe_seq :: "'a seq_window_scheme \<Rightarrow> u64 \<Rightarrow> 'a seq_window_scheme \<times> bool" where
  "observe_seq w seq =
     (let w = (if highest_sequence w = 0 \<and> finalized_sequence w = 0 \<and> seen_sequences w = {}
               then w\<lparr>finalized_sequence := sat_sub seq 1\<rparr> else w) in
      if seq \<le> finalized_sequence w then
        (w\<lparr>late_sequences := sat_add (late_sequences w) 1\<rparr>, False)
      else
        (let w = w\<lparr>highest_sequence := max (highest_sequence w) seq\<rparr> in
         if seq \<in> seen_sequences w then
           (w\<lparr>duplicate_sequences := sat_add (duplicate_sequences w) 1\<rparr>, False)
         else (w\<lparr>seen_sequences := insert seq (seen_sequences w)\<rparr>, True)))"

definition sequence_report ::
  "'a seq_window_scheme \<Rightarrow> 'a seq_window_scheme \<times> seq_report option" where
  "sequence_report w =
     (let cutoff = sat_sub (highest_sequence w) REORDER_WINDOW in
      if cutoff \<le> finalized_sequence w then (w, None)
      else
        (let expect = cutoff - finalized_sequence w in
         if expect < 32 then (w, None)
         else
           (let recv = of_nat (card (Set.filter (\<lambda>s. finalized_sequence w + 1 \<le> s \<and> s \<le> cutoff) (seen_sequences w)));
                miss = sat_sub expect recv;
                gap_ppm = of_nat (unat miss * 1000000 div unat expect) :: u32 in
            (w\<lparr>seen_sequences := Set.filter (\<lambda>s. cutoff + 1 \<le> s) (seen_sequences w),
               finalized_sequence := cutoff, late_sequences := 0, duplicate_sequences := 0\<rparr>,
             Some \<lparr>expected = expect, received = recv, missing = miss,
                   sequence_gap_ppm = min gap_ppm 1000000,
                   late = late_sequences w, duplicates = duplicate_sequences w\<rparr>))))"

section \<open>Invariant\<close>

definition window_inv :: "'a seq_window_scheme \<Rightarrow> bool" where
  "window_inv w \<longleftrightarrow> finite (seen_sequences w) \<and> finalized_sequence w \<le> highest_sequence w \<and>
     (\<forall>s \<in> seen_sequences w. finalized_sequence w < s \<and> s \<le> highest_sequence w)"

definition spent_sequences :: "'a seq_window_scheme \<Rightarrow> u64 set" where
  "spent_sequences w = {s. s \<le> finalized_sequence w} \<union> seen_sequences w"

definition fresh_window :: "'a seq_window_scheme \<Rightarrow> bool" where
  "fresh_window w \<longleftrightarrow> highest_sequence w = 0 \<and> finalized_sequence w = 0 \<and> seen_sequences w = {}"

lemma le_pred_iff: "q \<le> sat_sub q 1 \<longleftrightarrow> q = (0 :: u64)"
proof -
  have "q \<le> sat_sub q 1 \<longleftrightarrow> unat q \<le> unat q - 1"
    by (simp add: word_le_nat_alt unat_sat_sub)
  also have "\<dots> \<longleftrightarrow> unat q = 0" by auto
  finally show ?thesis by (simp add: unat_eq_0)
qed

lemma pred_less: "q \<noteq> 0 \<Longrightarrow> sat_sub q 1 < (q :: u64)"
  using le_pred_iff [of q] by (simp add: not_le)

lemma observe_fresh:
  "fresh_window w \<Longrightarrow> observe_seq w q =
     (if q = 0 then (w\<lparr>finalized_sequence := 0, late_sequences := sat_add (late_sequences w) 1\<rparr>, False)
      else (w\<lparr>finalized_sequence := sat_sub q 1, highest_sequence := q, seen_sequences := {q}\<rparr>, True))"
  by (auto simp: observe_seq_def fresh_window_def Let_def le_pred_iff max_def) (simp add: sat_sub_def)

lemma observe_started:
  "\<not> fresh_window w \<Longrightarrow> observe_seq w q =
     (if q \<le> finalized_sequence w then (w\<lparr>late_sequences := sat_add (late_sequences w) 1\<rparr>, False)
      else if q \<in> seen_sequences w then
        (w\<lparr>highest_sequence := max (highest_sequence w) q,
           duplicate_sequences := sat_add (duplicate_sequences w) 1\<rparr>, False)
      else (w\<lparr>highest_sequence := max (highest_sequence w) q,
              seen_sequences := insert q (seen_sequences w)\<rparr>, True))"
  by (auto simp: observe_seq_def fresh_window_def Let_def)

lemma observe_seq_inv: "window_inv w \<Longrightarrow> window_inv (fst (observe_seq w q))"
proof (cases "fresh_window w")
  case True
  then show "window_inv w \<Longrightarrow> ?thesis"
    using pred_less [of q] by (auto simp: observe_fresh window_inv_def fresh_window_def)
next
  case False
  then show "window_inv w \<Longrightarrow> ?thesis"
    by (auto simp: observe_started window_inv_def max_def)
qed

lemma observe_seq_spent:
  assumes "window_inv w"
  shows "spent_sequences w \<subseteq> spent_sequences (fst (observe_seq w q))"
    and "snd (observe_seq w q) \<Longrightarrow> q \<notin> spent_sequences w \<and> q \<in> spent_sequences (fst (observe_seq w q))"
proof -
  have "spent_sequences w \<subseteq> spent_sequences (fst (observe_seq w q)) \<and>
     (snd (observe_seq w q) \<longrightarrow> q \<notin> spent_sequences w \<and> q \<in> spent_sequences (fst (observe_seq w q)))"
  proof (cases "fresh_window w")
    case True
    then have "spent_sequences w = {0}"
      by (auto simp: spent_sequences_def fresh_window_def)
    with True show ?thesis
      by (simp add: observe_fresh) (auto simp: spent_sequences_def)
  next
    case False
    then show ?thesis
      by (simp add: observe_started) (auto simp: spent_sequences_def)
  qed
  then show "spent_sequences w \<subseteq> spent_sequences (fst (observe_seq w q))"
    and "snd (observe_seq w q) \<Longrightarrow> q \<notin> spent_sequences w \<and> q \<in> spent_sequences (fst (observe_seq w q))"
    by auto
qed

lemma observe_accepts_iff:
  assumes "\<not> fresh_window w"
  shows "snd (observe_seq w q) \<longleftrightarrow> q \<notin> spent_sequences w"
  using assms by (auto simp: observe_started spent_sequences_def)

section \<open>Reports\<close>

lemma card_word_interval: "card {s :: 'a::len word. a < s \<and> s \<le> b} = unat b - unat a"
proof -
  have "bij_betw unat {s. a < s \<and> s \<le> b} {unat a<..unat b}"
  proof (rule bij_betwI')
    fix y
    assume y: "y \<in> {unat a<..unat b}"
    then have "y < 2 ^ LENGTH('a)"
      by (metis greaterThanAtMost_iff le_less_trans unat_less_width)
    then have u: "unat (of_nat y :: 'a word) = y" by (simp add: unat_of_nat)
    show "\<exists>x \<in> {s. a < s \<and> s \<le> b}. y = unat x"
      using y u by (intro bexI [of _ "of_nat y"]) (auto simp: word_less_nat_alt word_le_nat_alt)
  qed (auto simp: word_less_nat_alt word_le_nat_alt word_unat_eq_iff)
  then show ?thesis by (simp add: bij_betw_same_card)
qed

lemma unat_succ: "a < b \<Longrightarrow> unat (a + 1) = unat a + 1" for a b :: "'a::len word"
proof -
  assume "a < b"
  then have "unat a + 1 < 2 ^ LENGTH('a)"
    using unat_less_width [of b] unfolding word_less_nat_alt by linarith
  then show ?thesis by (simp add: unat_word_ariths)
qed

lemma succ_le_iff_less: "a < b \<Longrightarrow> a + 1 \<le> s \<longleftrightarrow> a < (s :: 'a::len word)"
  using unat_succ [of a b] by (auto simp: word_le_nat_alt word_less_nat_alt)

lemma sequence_report_None: "sequence_report w = (w', None) \<Longrightarrow> w' = w"
  by (auto simp: sequence_report_def Let_def split: if_splits)

text \<open>The cutoff of a report that closes a window, and the values it returns.\<close>

definition window_cutoff :: "'a seq_window_scheme \<Rightarrow> u64" where
  "window_cutoff w = highest_sequence w - REORDER_WINDOW"

definition window_received :: "'a seq_window_scheme \<Rightarrow> nat" where
  "window_received w = card {s \<in> seen_sequences w. finalized_sequence w < s \<and> s \<le> window_cutoff w}"

definition window_missing :: "'a seq_window_scheme \<Rightarrow> nat" where
  "window_missing w =
     card {s. finalized_sequence w < s \<and> s \<le> window_cutoff w \<and> s \<notin> seen_sequences w}"

lemma report_cutoff:
  assumes "sequence_report w = (w', Some r)"
  shows "sat_sub (highest_sequence w) REORDER_WINDOW = window_cutoff w"
    and "finalized_sequence w < window_cutoff w"
    and "unat (highest_sequence w) = unat (window_cutoff w) + 64"
    and "unat (finalized_sequence w) + 32 \<le> unat (window_cutoff w)"
proof -
  have gt: "finalized_sequence w < sat_sub (highest_sequence w) REORDER_WINDOW"
    using assms by (auto simp: sequence_report_def Let_def split: if_splits)
  then show cof: "sat_sub (highest_sequence w) REORDER_WINDOW = window_cutoff w"
    and ge: "finalized_sequence w < window_cutoff w"
    by (auto simp: window_cutoff_def sat_sub_def split: if_splits)
  have "\<not> highest_sequence w < REORDER_WINDOW"
    using gt by (auto simp: sat_sub_def split: if_splits)
  then show "unat (highest_sequence w) = unat (window_cutoff w) + 64"
    by (simp add: window_cutoff_def unat_sub not_less REORDER_WINDOW_def word_le_nat_alt)
  have "\<not> window_cutoff w - finalized_sequence w < 32"
    using assms ge unfolding sequence_report_def Let_def cof by (auto split: if_splits)
  then show "unat (finalized_sequence w) + 32 \<le> unat (window_cutoff w)"
    using ge by (simp add: word_less_nat_alt unat_sub not_less less_imp_le)
qed

lemma window_counts:
  assumes "finalized_sequence w < window_cutoff w"
  shows "unat (window_cutoff w - finalized_sequence w) = window_received w + window_missing w"
proof -
  let ?I = "{s. finalized_sequence w < s \<and> s \<le> window_cutoff w}"
  have "?I = {s \<in> seen_sequences w. finalized_sequence w < s \<and> s \<le> window_cutoff w} \<union>
      {s. finalized_sequence w < s \<and> s \<le> window_cutoff w \<and> s \<notin> seen_sequences w}"
    by auto
  then have "card ?I = window_received w + window_missing w"
    unfolding window_received_def window_missing_def
    by (simp only:) (intro card_Un_disjoint; auto)
  then show ?thesis
    using assms by (simp add: card_word_interval unat_sub less_imp_le)
qed

lemma sequence_report_Some:
  assumes "sequence_report w = (w', Some r)"
  shows "w' = w\<lparr>seen_sequences := {s \<in> seen_sequences w. window_cutoff w < s},
        finalized_sequence := window_cutoff w, late_sequences := 0, duplicate_sequences := 0\<rparr>"
    and "unat (expected r) = window_received w + window_missing w"
    and "unat (received r) = window_received w" and "unat (missing r) = window_missing w"
    and "unat (sequence_gap_ppm r) = window_missing w * 1000000 div unat (expected r)"
    and "late r = late_sequences w" and "duplicates r = duplicate_sequences w"
proof -
  note cof = report_cutoff [OF assms]
  let ?e = "window_cutoff w - finalized_sequence w" and ?m = "window_missing w"
  note counts = window_counts [OF cof(2)]
  have sets: "Set.filter (\<lambda>s. finalized_sequence w + 1 \<le> s \<and> s \<le> window_cutoff w) (seen_sequences w) =
       {s \<in> seen_sequences w. finalized_sequence w < s \<and> s \<le> window_cutoff w}"
    "Set.filter (\<lambda>s. window_cutoff w + 1 \<le> s) (seen_sequences w) = {s \<in> seen_sequences w. window_cutoff w < s}"
    using succ_le_iff_less [OF cof(2)] succ_le_iff_less [of "window_cutoff w" "highest_sequence w"] cof(3)
    by (auto simp: word_less_nat_alt)
  have recv: "unat (of_nat (window_received w) :: u64) = window_received w"
    using unat_less_width [of ?e] counts by (intro unat_of_nat_small) linarith
  have miss: "unat (sat_sub ?e (of_nat (window_received w))) = ?m"
    using counts recv by (simp add: unat_sat_sub)
  have "\<not> ?e < 32"
    using cof(4) by (simp add: word_less_nat_alt unat_sub less_imp_le cof(2))
  then have r: "w' = w\<lparr>seen_sequences := {s \<in> seen_sequences w. window_cutoff w < s},
        finalized_sequence := window_cutoff w, late_sequences := 0, duplicate_sequences := 0\<rparr>"
    "r = \<lparr>expected = ?e, received = of_nat (window_received w), missing = sat_sub ?e (of_nat (window_received w)),
       sequence_gap_ppm = min (of_nat (?m * 1000000 div unat ?e)) 1000000,
       late = late_sequences w, duplicates = duplicate_sequences w\<rparr>"
    using assms cof(2)
    unfolding sequence_report_def Let_def cof(1) sets window_received_def [symmetric] miss
    by (auto split: if_splits)
  have "?m * 1000000 div unat ?e \<le> 1000000"
    using counts by (metis div_le_mono le_add2 mult_le_mono1 div_mult_self1_is_m
        nonzero_mult_div_cancel_left bot_nat_0.not_eq_extremum div_by_0 le0 mult.commute)
  moreover from this have "unat (of_nat (?m * 1000000 div unat ?e) :: u32) = ?m * 1000000 div unat ?e"
    by (intro unat_of_nat_small) simp
  ultimately show "unat (sequence_gap_ppm r) = ?m * 1000000 div unat (expected r)"
    by (simp add: r min_def word_le_nat_alt)
  show "w' = w\<lparr>seen_sequences := {s \<in> seen_sequences w. window_cutoff w < s},
        finalized_sequence := window_cutoff w, late_sequences := 0, duplicate_sequences := 0\<rparr>"
    by (rule r(1))
  show "unat (expected r) = window_received w + window_missing w"
    and "unat (received r) = window_received w" and "unat (missing r) = window_missing w"
    and "late r = late_sequences w" and "duplicates r = duplicate_sequences w"
    using counts recv miss by (simp_all add: r)
qed

lemma sequence_report_inv:
  assumes "window_inv w"
  shows "window_inv (fst (sequence_report w)) \<and>
    spent_sequences w \<subseteq> spent_sequences (fst (sequence_report w))"
proof -
  obtain w' res where rep: "sequence_report w = (w', res)" by fastforce
  show ?thesis
  proof (cases res)
    case None
    then show ?thesis using rep sequence_report_None [of w w'] assms by simp
  next
    case (Some r)
    note rep = rep [unfolded Some]
    have "window_cutoff w \<le> highest_sequence w"
      using report_cutoff(3) [OF rep] by (simp add: word_le_nat_alt)
    then show ?thesis
      using assms report_cutoff(2) [OF rep] sequence_report_Some(1) [OF rep] rep
      by (auto simp: window_inv_def spent_sequences_def)
  qed
qed

section \<open>The window as an acceptance filter\<close>

datatype seq_event = Observe u64 | CloseWindow

fun seq_step :: "'a seq_window_scheme \<Rightarrow> seq_event \<Rightarrow> 'a seq_window_scheme \<times> u64 option" where
  "seq_step w (Observe q) = (fst (observe_seq w q), if snd (observe_seq w q) then Some q else None)"
| "seq_step w CloseWindow = (fst (sequence_report w), None)"

interpretation window: once_only seq_step window_inv spent_sequences
proof
  fix w :: "'a seq_window_scheme" and e :: seq_event and k :: u64
  assume inv: "window_inv w"
  show "window_inv (fst (seq_step w e))"
    using inv observe_seq_inv sequence_report_inv by (cases e) auto
  show "spent_sequences w \<subseteq> spent_sequences (fst (seq_step w e))"
    using observe_seq_spent(1) [OF inv] sequence_report_inv [OF inv]
    by (cases e) auto
  show "snd (seq_step w e) = Some k \<Longrightarrow> k \<notin> spent_sequences w \<and> k \<in> spent_sequences (fst (seq_step w e))"
    using observe_seq_spent(2) [OF inv] by (cases e) (auto split: if_splits)
qed

section \<open>Properties of the window\<close>

definition new_window :: "u64 \<Rightarrow> seq_window" where
  "new_window ses = \<lparr>d_session = ses, highest_sequence = 0, finalized_sequence = 0,
     seen_sequences = {}, late_sequences = 0, duplicate_sequences = 0\<rparr>"

lemma window_inv_new: "window_inv (new_window ses)"
  by (simp add: window_inv_def new_window_def)

text \<open>Replay filter.  In every history of received sequence numbers and closed loss windows,
  no sequence number is accepted twice, however late or often it is repeated.\<close>

theorem sequence_accepted_once: "distinct (accepted seq_step (new_window ses) events)"
  using window.accepted_distinct [OF window_inv_new] by blast

text \<open>A loss report is exact: the expected numbers are the consecutive ones between the two
  cutoffs, each counted once as received or as missing, the rate is the floor of their quotient in
  parts per million and never exceeds one million, at least 32 numbers are covered, and numbers less
  than 64 behind the highest are left for a later report.\<close>

theorem sequence_report_exact:
  assumes "sequence_report w = (w', Some r)"
  shows "unat (expected r) = unat (finalized_sequence w') - unat (finalized_sequence w) \<and>
     32 \<le> unat (expected r) \<and>
     unat (highest_sequence w) = unat (finalized_sequence w') + 64 \<and>
     unat (missing r) = card {s. finalized_sequence w < s \<and> s \<le> finalized_sequence w' \<and> s \<notin> seen_sequences w} \<and>
     unat (received r) + unat (missing r) = unat (expected r) \<and>
     unat (sequence_gap_ppm r) = unat (missing r) * 1000000 div unat (expected r) \<and>
     unat (sequence_gap_ppm r) \<le> 1000000"
proof -
  note S = sequence_report_Some [OF assms] and cof = report_cutoff [OF assms]
  have f: "finalized_sequence w' = window_cutoff w" by (simp add: S(1))
  have e: "unat (expected r) = unat (window_cutoff w) - unat (finalized_sequence w)"
    using window_counts [OF cof(2)] S(2) cof(2) by (simp add: unat_sub less_imp_le)
  have "window_missing w * 1000000 div unat (expected r) \<le> 1000000"
    using S(2) by (metis div_le_mono le_add2 mult_le_mono1 nonzero_mult_div_cancel_left
        bot_nat_0.not_eq_extremum div_by_0 le0)
  then show ?thesis
    using S cof e f by (simp add: window_missing_def)
qed

definition lossy_window :: seq_window where
  "lossy_window = \<lparr>d_session = 1, highest_sequence = 98, finalized_sequence = 0,
     seen_sequences = {1, 2, 3, 98}, late_sequences = 0, duplicate_sequences = 0\<rparr>"

theorem sequence_report_exact_witness:
  "\<exists>w' r. sequence_report lossy_window = (w', Some r) \<and> unat (sequence_gap_ppm r) \<le> 1000000"
proof -
  have "snd (sequence_report lossy_window) \<noteq> None"
    by (simp add: sequence_report_def lossy_window_def REORDER_WINDOW_def sat_sub_def Let_def)
  then obtain w' r where "sequence_report lossy_window = (w', Some r)"
    by (metis option.exhaust prod.collapse)
  with sequence_report_exact [OF this] show ?thesis by blast
qed

end
