(* ===== verification/Fec_Decoder.thy ===== *)
theory Fec_Decoder
  imports Fec_Encoder Sequence_Window
begin

text \<open>
  The receiving half of the tunnel (\<open>Decoder\<close> of \<open>src/main.rs\<close>): \<open>frame\<close> files a
  shard into its group, reconstructs the group when enough shards are present and passes every new
  data shard to \<open>fragment\<close>, which reassembles datagrams; \<open>prune\<close> ages both tables.  Maps
  are association lists with distinct keys; their order stands for an iteration order.  An
  \<open>Instant\<close> is a number of nanoseconds and the successive \<open>Instant::now()\<close> readings of one
  call are a function of their number.
\<close>

section \<open>State and operations\<close>

definition GROUP_TTL :: nat where "GROUP_TTL = 2000000000"
definition REASSEMBLY_TTL :: nat where "REASSEMBLY_TTL = 3000000000"
definition MAX_GROUPS :: nat where "MAX_GROUPS = 2048"
definition MAX_REASSEMBLIES :: nat where "MAX_REASSEMBLIES = 4096"

record shard_group =
  g_created :: instant
  g_data :: nat
  g_parity :: nat
  g_shards :: "bytes option list"
  g_delivered :: "bool list"

record reassembly =
  r_created :: instant
  r_parts :: "bytes option list"

record decoder = seq_window +
  groups :: "(u64 \<times> shard_group) list"
  packets :: "(u64 \<times> reassembly) list"

definition decoder_new :: "u64 \<Rightarrow> decoder" where
  "decoder_new ses = \<lparr>d_session = ses, highest_sequence = 0, finalized_sequence = 0,
     seen_sequences = {}, late_sequences = 0, duplicate_sequences = 0, groups = [], packets = []\<rparr>"

text \<open>\<open>entry.parts[idx] = Some(part)\<close>: a later copy of a part replaces an earlier one.\<close>

definition set_part :: "nat \<Rightarrow> bytes \<Rightarrow> bytes option list \<Rightarrow> bytes option list" where
  "set_part idx part parts = parts[idx := Some part]"

definition fragment :: "instant \<Rightarrow> decoder \<Rightarrow> bytes \<Rightarrow> (decoder \<times> bytes list) result" where
  "fragment now d shard =
     (if length shard < FRAGMENT_HEADER \<or> length shard > SHARD then Inr (d, [])
      else
        rbind (slice 0 8 shard) (\<lambda>b0. rbind (slice 8 10 shard) (\<lambda>b1.
        rbind (slice 10 12 shard) (\<lambda>b2. rbind (slice 12 14 shard) (\<lambda>b3.
        let packet = (from_be b0 :: u64); idx = unat (from_be b1 :: u16);
            cnt = unat (from_be b2 :: u16); len = unat (from_be b3 :: u16) in
        if cnt = 0 \<or> cnt > 64 \<or> idx \<ge> cnt \<or> len > CHUNK \<or> FRAGMENT_HEADER + len > length shard
        then Inr (d, [])
        else
          let entry = (case map_of (packets d) packet of
                         None \<Rightarrow> \<lparr>r_created = now, r_parts = replicate cnt None\<rparr>
                       | Some r \<Rightarrow> r);
              d1 = d\<lparr>packets := AList.update packet entry (packets d)\<rparr> in
          if length (r_parts entry) \<noteq> cnt then Inr (d1, [])
          else if \<not> idx < length (r_parts entry) then Inl Panic
          else rbind (slice 14 (14 + len) shard) (\<lambda>part.
            let parts = set_part idx part (r_parts entry) in
            if list_all (\<lambda>p. p \<noteq> None) parts then
              Inr (d1\<lparr>packets := AList.delete packet (packets d1)\<rparr>, [concat (map the parts)])
            else
              Inr (d1\<lparr>packets := AList.update packet (entry\<lparr>r_parts := parts\<rparr>) (packets d1)\<rparr>, [])))))))"

definition prune :: "instant \<Rightarrow> decoder \<Rightarrow> decoder" where
  "prune now d =
     (let gs = filter (\<lambda>(_, g). now - g_created g < GROUP_TTL) (groups d);
          ps = filter (\<lambda>(_, p). now - r_created p < REASSEMBLY_TTL) (packets d);
          ps' = (if length ps > MAX_REASSEMBLIES then
                   (let oldest = sort_key snd (map (\<lambda>(i, p). (i, r_created p)) ps) in
                    fold (\<lambda>(i, _) m. AList.delete i m) (take (length ps - MAX_REASSEMBLIES) oldest) ps)
                 else ps) in
      d\<lparr>groups := gs, packets := ps'\<rparr>)"

definition new_group :: "instant \<Rightarrow> nat \<Rightarrow> nat \<Rightarrow> shard_group" where
  "new_group now n p = \<lparr>g_created = now, g_data = n, g_parity = p,
     g_shards = replicate (n + p) None, g_delivered = replicate n False\<rparr>"

text \<open>
  The body of the group block of \<open>frame\<close>: store the shard, mark a data shard for immediate
  delivery, and reconstruct once as many shards as data shards are present.  The result is the
  group as left behind and the shards to deliver.
\<close>

definition group_accept ::
  "rs_code \<Rightarrow> shard_group \<Rightarrow> nat \<Rightarrow> bytes \<Rightarrow> shard_group \<times> bytes list result" where
  "group_accept rs g pos shard =
     (let n = g_data g; p = g_parity g in
      if \<not> pos < length (g_shards g) then (g, Inl Panic)
      else
        let g1 = (if g_shards g ! pos = None then g\<lparr>g_shards := (g_shards g)[pos := Some shard]\<rparr> else g) in
        if pos < n \<and> \<not> pos < length (g_delivered g1) then (g1, Inl Panic)
        else
          let immediate = (if pos < n \<and> \<not> g_delivered g1 ! pos then [shard] else []);
              g2 = (if pos < n \<and> \<not> g_delivered g1 ! pos
                    then g1\<lparr>g_delivered := (g_delivered g1)[pos := True]\<rparr> else g1);
              present = length (filter (\<lambda>x. x \<noteq> None) (g_shards g2)) in
          if p > 0 \<and> present \<ge> n \<and> list_ex (\<lambda>x. \<not> x) (g_delivered g2) then
            (if \<not> rs_new rs n p then (g2, Inl (Bail ''reed-solomon dimensions''))
             else case rs_reconstruct rs n p (g_shards g2) of
               (False, sh) \<Rightarrow> (g2\<lparr>g_shards := sh\<rparr>, Inl (Bail ''reed-solomon reconstruct''))
             | (True, sh) \<Rightarrow>
                 if length (g_delivered g2) < n \<or> length sh < n then (g2\<lparr>g_shards := sh\<rparr>, Inl Panic)
                 else
                   (g2\<lparr>g_shards := sh, g_delivered := replicate n True @ drop n (g_delivered g2)\<rparr>,
                    Inr (immediate @
                      List.map_filter (\<lambda>i. if g_delivered g2 ! i then None else sh ! i) [0..<n])))
          else (g2, Inr immediate))"

fun deliver ::
  "(nat \<Rightarrow> instant) \<Rightarrow> nat \<Rightarrow> decoder \<Rightarrow> bytes list \<Rightarrow> (nat \<times> decoder \<times> bytes list) result" where
  "deliver now k d [] = Inr (k, d, [])"
| "deliver now k d (s # ss) =
     rbind (fragment (now k) d s) (\<lambda>(d1, out).
     rbind (deliver now (Suc k) d1 ss) (\<lambda>(k', d2, outs). Inr (k', d2, out @ outs)))"

text \<open>The part of \<open>frame\<close> after its checks, on the pruned decoder.\<close>

definition file_shard ::
  "rs_code \<Rightarrow> (nat \<Rightarrow> instant) \<Rightarrow> decoder \<Rightarrow> frame \<Rightarrow> decoder \<times> bytes list result" where
  "file_shard rs now d f =
     (let g = (case map_of (groups d) (group f) of
                 None \<Rightarrow> new_group (now 1) (unat (data f)) (unat (parity f)) | Some g \<Rightarrow> g);
          d1 = d\<lparr>groups := AList.update (group f) g (groups d)\<rparr> in
      if g_data g \<noteq> unat (data f) \<or> g_parity g \<noteq> unat (parity f) then (d1, Inl (Bail ''group mismatch''))
      else case group_accept rs g (unat (index f)) (payload f) of
        (g', Inl e) \<Rightarrow> (d1\<lparr>groups := AList.update (group f) g' (groups d1)\<rparr>, Inl e)
      | (g', Inr shards) \<Rightarrow>
        (let d2 = d1\<lparr>groups := AList.update (group f) g' (groups d1)\<rparr> in
         case deliver now 2 d2 shards of
           Inl e \<Rightarrow> (d2, Inl e)
         | Inr (k, d3, out) \<Rightarrow> (prune (now k) d3, Inr out)))"

definition decoder_frame ::
  "rs_code \<Rightarrow> (nat \<Rightarrow> instant) \<Rightarrow> decoder \<Rightarrow> frame \<Rightarrow> decoder \<times> bytes list result" where
  "decoder_frame rs now d f =
     (if d_session d \<noteq> session f then (d, Inl (Bail ''session mismatch''))
      else case observe_seq d (sequence f) of
        (d1, False) \<Rightarrow> (d1, Inr [])
      | (d1, True) \<Rightarrow>
        if kind f = KIND_REPORT then (d1, Inr [])
        else if kind f \<noteq> KIND_DATA \<and> kind f \<noteq> KIND_PARITY then (d1, Inr [])
        else
          let n = unat (data f); p = unat (parity f) in
          if n = 0 \<or> n > 32 \<or> p > 16 \<or> unat (index f) \<ge> n + p \<or>
             length (payload f) < FRAGMENT_HEADER \<or> length (payload f) > SHARD
          then (d1, Inl (Bail ''invalid fec frame''))
          else
            let d2 = prune (now 0) d1 in
            if map_of (groups d2) (group f) = None \<and> length (groups d2) \<ge> MAX_GROUPS
            then (d2, Inl (Bail ''too many fec groups''))
            else file_shard rs now d2 f)"

section \<open>Reassembly of datagrams\<close>

interpretation overwrite: part_slots set_part
  by unfold_locales (auto simp: set_part_def)

definition packets_wf :: "(u64 \<times> reassembly) list \<Rightarrow> bool" where
  "packets_wf ps \<longleftrightarrow> distinct (keys ps) \<and>
     (\<forall>(k, r) \<in> set ps. 0 < length (r_parts r) \<and> length (r_parts r) \<le> 64 \<and> None \<in> set (r_parts r))"

lemma packets_wfD:
  "packets_wf ps \<Longrightarrow> map_of ps k = Some r \<Longrightarrow>
   0 < length (r_parts r) \<and> length (r_parts r) \<le> 64 \<and> None \<in> set (r_parts r)"
  by (auto simp: packets_wf_def dest: map_of_SomeD)

lemma packets_wf_update:
  "packets_wf ps \<Longrightarrow> 0 < length (r_parts r) \<and> length (r_parts r) \<le> 64 \<and> None \<in> set (r_parts r) \<Longrightarrow>
   packets_wf (AList.update k r ps)"
  by (auto simp: packets_wf_def AList.distinct_update dest!: in_alist_updateD)

lemma packets_wf_subset:
  "packets_wf ps \<Longrightarrow> distinct (keys ps') \<Longrightarrow> set ps' \<subseteq> set ps \<Longrightarrow> packets_wf ps'"
  by (auto simp: packets_wf_def)

lemma packets_wf_delete: "packets_wf ps \<Longrightarrow> packets_wf (AList.delete k ps)"
  by (rule packets_wf_subset) (auto simp: packets_wf_def AList.distinct_delete set_alist_delete)

text \<open>\<open>fragment\<close> as a case distinction on what the shard's header says.\<close>

definition frag_packet :: "bytes \<Rightarrow> u64" where "frag_packet s = from_be (take 8 s)"
definition frag_idx :: "bytes \<Rightarrow> nat" where "frag_idx s = unat (from_be (take 2 (drop 8 s)) :: u16)"
definition frag_count :: "bytes \<Rightarrow> nat" where "frag_count s = unat (from_be (take 2 (drop 10 s)) :: u16)"
definition frag_len :: "bytes \<Rightarrow> nat" where "frag_len s = unat (from_be (take 2 (drop 12 s)) :: u16)"
definition frag_part :: "bytes \<Rightarrow> bytes" where "frag_part s = take (frag_len s) (drop 14 s)"

definition frag_ok :: "bytes \<Rightarrow> bool" where
  "frag_ok s \<longleftrightarrow> FRAGMENT_HEADER \<le> length s \<and> length s \<le> SHARD \<and> 0 < frag_count s \<and>
     frag_count s \<le> 64 \<and> frag_idx s < frag_count s \<and> frag_len s \<le> CHUNK \<and>
     FRAGMENT_HEADER + frag_len s \<le> length s"

definition frag_entry :: "instant \<Rightarrow> decoder \<Rightarrow> bytes \<Rightarrow> reassembly" where
  "frag_entry now d s = (case map_of (packets d) (frag_packet s) of
      None \<Rightarrow> \<lparr>r_created = now, r_parts = replicate (frag_count s) None\<rparr> | Some r \<Rightarrow> r)"

lemma fragment_cases:
  "fragment now d s =
     (if \<not> frag_ok s then Inr (d, [])
      else let entry = frag_entry now d s;
               d1 = d\<lparr>packets := AList.update (frag_packet s) entry (packets d)\<rparr>;
               parts = set_part (frag_idx s) (frag_part s) (r_parts entry) in
        if length (r_parts entry) \<noteq> frag_count s then Inr (d1, [])
        else if list_all (\<lambda>p. p \<noteq> None) parts then
          Inr (d1\<lparr>packets := AList.delete (frag_packet s) (packets d1)\<rparr>, [concat (map the parts)])
        else Inr (d1\<lparr>packets := AList.update (frag_packet s) (entry\<lparr>r_parts := parts\<rparr>) (packets d1)\<rparr>, []))"
proof (cases "length s < FRAGMENT_HEADER \<or> length s > SHARD")
  case True
  then show ?thesis by (auto simp: fragment_def frag_ok_def)
next
  case False
  then have len: "14 \<le> length s" by (auto simp: FRAGMENT_HEADER_def)
  have body: "slice 14 (14 + frag_len s) s = Inr (frag_part s)" if "14 + frag_len s \<le> length s"
    using that by (simp add: frag_part_def)
  have hdr: "slice 0 8 s = Inr (take 8 s)" "slice 8 10 s = Inr (take 2 (drop 8 s))"
    "slice 10 12 s = Inr (take 2 (drop 10 s))" "slice 12 14 s = Inr (take 2 (drop 12 s))"
    using len by auto
  show ?thesis
    unfolding fragment_def hdr rbind_Inr Let_def
      frag_packet_def [symmetric] frag_idx_def [symmetric] frag_count_def [symmetric] frag_len_def [symmetric]
      frag_entry_def [symmetric]
    using False body by (auto simp: frag_ok_def FRAGMENT_HEADER_def not_less not_le)
qed

lemma fragment_no_panic: "\<exists>d' out. fragment now d s = Inr (d', out)"
  by (simp add: fragment_cases Let_def)

lemma fragment_wf:
  assumes "packets_wf (packets d)" and "fragment now d s = Inr (d', out)"
  shows "packets_wf (packets d') \<and> d' = d\<lparr>packets := packets d'\<rparr> \<and>
     length (packets d') \<le> Suc (length (packets d)) \<and> length out \<le> 1"
proof (cases "frag_ok s")
  case False
  then show ?thesis using assms by (simp add: fragment_cases)
next
  case True
  let ?e = "frag_entry now d s" and ?k = "frag_packet s"
  have e: "0 < length (r_parts ?e) \<and> length (r_parts ?e) \<le> 64 \<and> None \<in> set (r_parts ?e)"
    using True packets_wfD [OF assms(1)] by (auto simp: frag_entry_def frag_ok_def split: option.splits)
  have wf1: "packets_wf (AList.update ?k ?e (packets d))"
    by (rule packets_wf_update [OF assms(1) e])
  have key: "?k \<in> set (keys (AList.update ?k ?e (packets d)))"
    by (simp add: AList.update_keys)
  have len: "length (AList.update ?k ?e (packets d)) \<le> Suc (length (packets d))"
    by (simp add: length_alist_update)
  have wf2: "packets_wf (AList.update ?k (?e\<lparr>r_parts := ps\<rparr>) (AList.update ?k ?e (packets d)))"
    if "\<not> list_all (\<lambda>p. p \<noteq> None) ps" "length ps = length (r_parts ?e)" for ps
    using that e by (intro packets_wf_update wf1) (auto simp: list_all_iff)
  have dl: "length (AList.delete ?k (AList.update ?k ?e (packets d))) \<le> Suc (length (packets d))"
    using AList.length_delete_le [of ?k "AList.update ?k ?e (packets d)"] len by linarith
  show ?thesis
    using assms(2) True wf1 wf2 packets_wf_delete [OF wf1] len dl key
    by (auto simp: fragment_cases Let_def length_alist_update overwrite.length_put split: if_splits)
qed

section \<open>Groups\<close>

definition group_wf :: "shard_group \<Rightarrow> bool" where
  "group_wf g \<longleftrightarrow> 0 < g_data g \<and> g_data g \<le> 32 \<and> g_parity g \<le> 16 \<and>
     length (g_shards g) = g_data g + g_parity g \<and> length (g_delivered g) = g_data g"

lemma group_wf_new: "0 < n \<Longrightarrow> n \<le> 32 \<Longrightarrow> p \<le> 16 \<Longrightarrow> group_wf (new_group now n p)"
  by (simp add: group_wf_def new_group_def)

text \<open>The group after storing the shard and marking it delivered, before any reconstruction.\<close>

definition group_store :: "shard_group \<Rightarrow> nat \<Rightarrow> bytes \<Rightarrow> shard_group" where
  "group_store g pos shard =
     g\<lparr>g_shards := (if g_shards g ! pos = None then (g_shards g)[pos := Some shard] else g_shards g),
       g_delivered := (if pos < g_data g then (g_delivered g)[pos := True] else g_delivered g)\<rparr>"

definition group_immediate :: "shard_group \<Rightarrow> nat \<Rightarrow> bytes \<Rightarrow> bytes list" where
  "group_immediate g pos shard = (if pos < g_data g \<and> \<not> g_delivered g ! pos then [shard] else [])"

definition needs_recovery :: "shard_group \<Rightarrow> bool" where
  "needs_recovery g \<longleftrightarrow> 0 < g_parity g \<and> g_data g \<le> length (filter (\<lambda>x. x \<noteq> None) (g_shards g)) \<and>
     (\<exists>x \<in> set (g_delivered g). \<not> x)"

lemma list_update_same_True: "i < length xs \<Longrightarrow> xs ! i \<Longrightarrow> xs[i := True] = xs"
  by (metis list_update_id)

lemma group_accept_cases:
  assumes "group_wf g" and "pos < g_data g + g_parity g" and "rs_shape rs"
  shows "group_accept rs g pos shard =
     (let g2 = group_store g pos shard in
      if needs_recovery g2 then
        (if \<not> rs_new rs (g_data g) (g_parity g) then (g2, Inl (Bail ''reed-solomon dimensions''))
         else case rs_reconstruct rs (g_data g) (g_parity g) (g_shards g2) of
           (False, sh) \<Rightarrow> (g2\<lparr>g_shards := sh\<rparr>, Inl (Bail ''reed-solomon reconstruct''))
         | (True, sh) \<Rightarrow>
             (g2\<lparr>g_shards := sh, g_delivered := replicate (g_data g) True\<rparr>,
              Inr (group_immediate g pos shard @
                List.map_filter (\<lambda>i. if g_delivered g2 ! i then None else sh ! i) [0..<g_data g])))
      else (g2, Inr (group_immediate g pos shard)))"
proof -
  let ?g1 = "if g_shards g ! pos = None then g\<lparr>g_shards := (g_shards g)[pos := Some shard]\<rparr> else g"
  let ?g2 = "if pos < g_data g \<and> \<not> g_delivered ?g1 ! pos
             then ?g1\<lparr>g_delivered := (g_delivered ?g1)[pos := True]\<rparr> else ?g1"
  have g2: "?g2 = group_store g pos shard"
    using assms(1) by (auto simp: group_store_def group_wf_def list_update_same_True)
  have imm: "(if pos < g_data g \<and> \<not> g_delivered ?g1 ! pos then [shard] else []) = group_immediate g pos shard"
    by (auto simp: group_immediate_def)
  have lens: "pos < length (g_shards g)" "pos < g_data g \<Longrightarrow> pos < length (g_delivered ?g1)"
    "length (g_delivered (group_store g pos shard)) = g_data g"
    "length (g_shards (group_store g pos shard)) = g_data g + g_parity g"
    using assms(1,2) by (auto simp: group_wf_def group_store_def)
  have sh: "length (snd (rs_reconstruct rs (g_data g) (g_parity g) (g_shards (group_store g pos shard)))) = g_data g + g_parity g"
    using assms(3) lens(4) by (simp add: rs_shape_def)
  have nr: "(0 < g_parity g \<and> length (filter (\<lambda>x. x \<noteq> None) (g_shards (group_store g pos shard))) \<ge> g_data g \<and>
      list_ex (\<lambda>x. \<not> x) (g_delivered (group_store g pos shard))) = needs_recovery (group_store g pos shard)"
    by (auto simp: needs_recovery_def group_store_def list_ex_iff)
  obtain ok sh' where rec: "rs_reconstruct rs (g_data g) (g_parity g) (g_shards (group_store g pos shard)) = (ok, sh')"
    by fastforce
  show ?thesis
    unfolding group_accept_def Let_def g2 imm nr rec
    using lens sh rec by (cases ok) auto
qed

lemma group_store_wf: "group_wf g \<Longrightarrow> group_wf (group_store g pos shard)"
  by (simp add: group_wf_def group_store_def)

lemma group_accept_wf:
  assumes "group_wf g" and "pos < g_data g + g_parity g" and "rs_shape rs"
    and "group_accept rs g pos shard = (g', r)"
  shows "group_wf g' \<and> g_created g' = g_created g \<and> g_data g' = g_data g \<and> g_parity g' = g_parity g \<and> r \<noteq> Inl Panic"
proof -
  note st = group_store_wf [OF assms(1), of pos shard]
  have keep: "g_created (group_store g pos shard) = g_created g" "g_data (group_store g pos shard) = g_data g"
    "g_parity (group_store g pos shard) = g_parity g"
    by (simp_all add: group_store_def)
  have sh: "length (snd (rs_reconstruct rs (g_data g) (g_parity g) (g_shards (group_store g pos shard)))) =
      g_data g + g_parity g"
    using assms(3) st keep by (simp add: rs_shape_def group_wf_def)
  obtain ok sh' where rec: "rs_reconstruct rs (g_data g) (g_parity g) (g_shards (group_store g pos shard)) = (ok, sh')"
    by fastforce
  show ?thesis
    using assms(4) st keep sh unfolding group_accept_cases [OF assms(1-3)] Let_def rec
    by (cases ok) (auto simp: group_wf_def split: if_splits)
qed

section \<open>Ageing\<close>

lemma prune_groups: "groups (prune now d) = filter (\<lambda>(_, g). now - g_created g < GROUP_TTL) (groups d)"
  by (simp add: prune_def Let_def)

lemma oldest_keys:
  assumes "distinct (keys ps)"
  shows "distinct (keys (take n (sort_key snd (map (\<lambda>(i, p). (i, age p)) ps)))) \<and>
     set (keys (take n (sort_key snd (map (\<lambda>(i, p). (i, age p)) ps)))) \<subseteq> set (keys ps)"
proof -
  let ?srt = "sort_key snd (map (\<lambda>(i, p). (i, age p)) ps)"
  have "keys (map (\<lambda>(i, p). (i, age p)) ps) = keys ps"
    by (simp add: comp_def case_prod_beta)
  moreover have "mset (keys ?srt) = mset (keys (map (\<lambda>(i, p). (i, age p)) ps))"
    by (simp only: mset_map mset_sort)
  ultimately have m: "mset (keys ?srt) = mset (keys ps)" by (simp only:)
  have "keys (take n ?srt) = take n (keys ?srt)" by (simp only: take_map)
  moreover have "distinct (keys ?srt)" and "set (keys ?srt) = set (keys ps)"
    using mset_eq_imp_distinct_iff [OF m] mset_eq_setD [OF m] assms by (simp_all only:)
  ultimately show ?thesis
    using distinct_take [of "keys ?srt" n] set_take_subset [of n "keys ?srt"] by (simp only:)
qed

lemma prune_packets:
  assumes "distinct (keys (packets d))"
  shows "set (packets (prune now d)) \<subseteq> set (packets d)" and "distinct (keys (packets (prune now d)))"
    and "length (packets (prune now d)) \<le> MAX_REASSEMBLIES"
proof -
  let ?ps = "filter (\<lambda>(_, p). now - r_created p < REASSEMBLY_TTL) (packets d)"
  let ?old = "take (length ?ps - MAX_REASSEMBLIES) (sort_key snd (map (\<lambda>(i, p). (i, r_created p)) ?ps))"
  have d: "distinct (keys ?ps)" using assms by (rule distinct_keys_filter)
  have "distinct (keys ?old)" "set (keys ?old) \<subseteq> set (keys ?ps)"
    using oldest_keys [OF d, of "length ?ps - MAX_REASSEMBLIES" r_created] by simp_all
  then have len: "length (fold (\<lambda>(i, _) m. AList.delete i m) ?old ?ps) = length ?ps - length ?old"
    by (intro fold_delete_length d)
  have pk: "packets (prune now d) = (if length ?ps > MAX_REASSEMBLIES then
      fold (\<lambda>(i, _) m. AList.delete i m) ?old ?ps else ?ps)"
    by (simp add: prune_def Let_def)
  show "set (packets (prune now d)) \<subseteq> set (packets d)"
    using fold_delete_sub [of ?old ?ps] by (auto simp: pk)
  show "distinct (keys (packets (prune now d)))"
    using fold_delete_distinct [OF d] d by (auto simp: pk)
  show "length (packets (prune now d)) \<le> MAX_REASSEMBLIES"
    using len by (auto simp: pk)
qed

section \<open>Invariant of the decoder\<close>

definition groups_wf :: "(u64 \<times> shard_group) list \<Rightarrow> bool" where
  "groups_wf gs \<longleftrightarrow> distinct (keys gs) \<and> length gs \<le> MAX_GROUPS \<and> (\<forall>(k, g) \<in> set gs. group_wf g)"

definition decoder_inv :: "decoder \<Rightarrow> bool" where
  "decoder_inv d \<longleftrightarrow> window_inv d \<and> groups_wf (groups d) \<and> packets_wf (packets d) \<and>
     length (packets d) \<le> MAX_REASSEMBLIES"

lemma decoder_inv_new: "decoder_inv (decoder_new ses)"
  by (simp add: decoder_inv_def decoder_new_def window_inv_def groups_wf_def packets_wf_def)

lemma observe_seq_tables [simp]:
  "groups (fst (observe_seq d q)) = groups d" "packets (fst (observe_seq d q)) = packets d"
  "d_session (fst (observe_seq d q)) = d_session d"
  by (simp_all add: observe_seq_def Let_def)

lemma sequence_report_tables [simp]:
  "groups (fst (sequence_report d)) = groups d" "packets (fst (sequence_report d)) = packets d"
  "d_session (fst (sequence_report d)) = d_session d"
  by (simp_all add: sequence_report_def Let_def)

lemma window_inv_upd [simp]:
  "window_inv (d\<lparr>groups := gs\<rparr>) = window_inv d" "window_inv (d\<lparr>packets := ps\<rparr>) = window_inv d"
  by (simp_all add: window_inv_def)

lemma observe_decoder_inv: "decoder_inv d \<Longrightarrow> decoder_inv (fst (observe_seq d q))"
  by (simp add: decoder_inv_def observe_seq_inv)

lemma report_decoder_inv: "decoder_inv d \<Longrightarrow> decoder_inv (fst (sequence_report d))"
  by (simp add: decoder_inv_def sequence_report_inv)

lemma prune_inv:
  assumes "window_inv d" and "groups_wf (groups d)" and "packets_wf (packets d)"
  shows "decoder_inv (prune now d)"
proof -
  have "window_inv (prune now d)" using assms(1) by (simp add: prune_def Let_def window_inv_def)
  moreover have "groups_wf (groups (prune now d))"
    using assms(2) by (auto simp: groups_wf_def prune_groups distinct_keys_filter intro: le_trans [OF length_filter_le])
  moreover have "packets_wf (packets (prune now d))" "length (packets (prune now d)) \<le> MAX_REASSEMBLIES"
    using prune_packets [of d now] assms(3) by (auto intro: packets_wf_subset simp: packets_wf_def)
  ultimately show ?thesis by (simp add: decoder_inv_def)
qed

lemma groups_wf_update:
  assumes "groups_wf gs" and "group_wf g" and "map_of gs k \<noteq> None \<or> length gs < MAX_GROUPS"
  shows "groups_wf (AList.update k g gs)"
  using assms by (auto simp: groups_wf_def AList.distinct_update length_alist_update map_of_None_keys
      dest!: in_alist_updateD)

lemma deliver_ok:
  "packets_wf (packets d) \<Longrightarrow>
   \<exists>k' d' out. deliver now k d ss = Inr (k', d', out) \<and> packets_wf (packets d') \<and>
     d' = d\<lparr>packets := packets d'\<rparr> \<and> length out \<le> length ss"
proof (induction ss arbitrary: k d)
  case Nil
  then show ?case by simp
next
  case (Cons s ss)
  obtain d1 out where f: "fragment (now k) d s = Inr (d1, out)"
    using fragment_no_panic by blast
  note wf = fragment_wf [OF Cons.prems f]
  then obtain k' d' outs where "deliver now (Suc k) d1 ss = Inr (k', d', outs)" "packets_wf (packets d')"
    "d' = d1\<lparr>packets := packets d'\<rparr>" "length outs \<le> length ss"
    using Cons.IH by blast
  with f wf show ?case
    by (intro exI [of _ k'] exI [of _ d'] exI [of _ "out @ outs"]) (simp, metis (lifting) decoder.update_convs(2)
      decoder.surjective)
qed

definition frame_dims_ok :: "frame \<Rightarrow> bool" where
  "frame_dims_ok f \<longleftrightarrow> \<not> (unat (data f) = 0 \<or> unat (data f) > 32 \<or> unat (parity f) > 16 \<or>
     unat (index f) \<ge> unat (data f) + unat (parity f) \<or>
     length (payload f) < FRAGMENT_HEADER \<or> length (payload f) > SHARD)"

lemma decoder_frame_cases:
  "decoder_frame rs now d f =
     (if d_session d \<noteq> session f then (d, Inl (Bail ''session mismatch''))
      else let d1 = fst (observe_seq d (sequence f)); d2 = prune (now 0) d1 in
       if \<not> snd (observe_seq d (sequence f)) \<or> kind f = KIND_REPORT \<or>
          kind f \<noteq> KIND_DATA \<and> kind f \<noteq> KIND_PARITY then (d1, Inr [])
       else if \<not> frame_dims_ok f then (d1, Inl (Bail ''invalid fec frame''))
       else if map_of (groups d2) (group f) = None \<and> length (groups d2) \<ge> MAX_GROUPS
       then (d2, Inl (Bail ''too many fec groups''))
       else file_shard rs now d2 f)"
  unfolding decoder_frame_def frame_dims_ok_def Let_def
  by (cases "observe_seq d (sequence f)"; cases "snd (observe_seq d (sequence f))")
    (auto simp: KIND_DATA_def KIND_PARITY_def KIND_REPORT_def)

lemma deliver_prune_inv:
  assumes "decoder_inv d" and "groups_wf gs"
  obtains k d3 out where "deliver now n (d\<lparr>groups := gs\<rparr>) shards = Inr (k, d3, out)" and "decoder_inv (prune t d3)"
proof -
  have "packets_wf (packets (d\<lparr>groups := gs\<rparr>))" using assms(1) by (simp add: decoder_inv_def)
  from deliver_ok [OF this, of now n shards] obtain k d3 out where
    del: "deliver now n (d\<lparr>groups := gs\<rparr>) shards = Inr (k, d3, out)" "packets_wf (packets d3)" "d3 = d\<lparr>groups := gs, packets := packets d3\<rparr>"
    by auto
  have "window_inv d3 \<and> groups_wf (groups d3)"
    using assms by (subst (1 2) del(3)) (simp add: decoder_inv_def)
  then show thesis using that [OF del(1)] del(2) prune_inv [of d3] by simp
qed

lemma file_shard_inv:
  assumes "decoder_inv d" and "rs_shape rs" and "frame_dims_ok f"
    and "map_of (groups d) (group f) \<noteq> None \<or> length (groups d) < MAX_GROUPS"
  shows "decoder_inv (fst (file_shard rs now d f)) \<and> snd (file_shard rs now d f) \<noteq> Inl Panic"
proof -
  define g where "g = (case map_of (groups d) (group f) of
      None \<Rightarrow> new_group (now 1) (unat (data f)) (unat (parity f)) | Some g \<Rightarrow> g)"
  define gs where "gs = AList.update (group f) g (groups d)"
  have gwf: "group_wf g"
    using assms(1,3) by (auto simp: g_def decoder_inv_def groups_wf_def frame_dims_ok_def group_wf_new
        dest!: map_of_SomeD split: option.splits)
  have gs: "groups_wf gs" unfolding gs_def
    using assms(1,4) gwf by (intro groups_wf_update) (auto simp: decoder_inv_def)
  have key: "map_of gs (group f) \<noteq> None" by (simp add: gs_def AList.update_conv')
  have inv1: "decoder_inv (d\<lparr>groups := gs\<rparr>)" using assms(1) gs by (simp add: decoder_inv_def)
  show ?thesis
  proof (cases "g_data g \<noteq> unat (data f) \<or> g_parity g \<noteq> unat (parity f)")
    case True
    then show ?thesis using inv1 by (simp add: file_shard_def g_def [symmetric] gs_def [symmetric] Let_def)
  next
    case False
    obtain g' r where ga: "group_accept rs g (unat (index f)) (payload f) = (g', r)" by fastforce
    have wf': "group_wf g' \<and> r \<noteq> Inl Panic"
      using group_accept_wf [OF gwf _ assms(2) ga] False assms(3) by (auto simp: frame_dims_ok_def)
    have gs': "groups_wf (AList.update (group f) g' gs)"
      using gs wf' key by (intro groups_wf_update) auto
    have fs: "file_shard rs now d f = (case r of
        Inl e \<Rightarrow> (d\<lparr>groups := AList.update (group f) g' gs\<rparr>, Inl e)
      | Inr shards \<Rightarrow> (case deliver now 2 (d\<lparr>groups := AList.update (group f) g' gs\<rparr>) shards of
          Inl e \<Rightarrow> (d\<lparr>groups := AList.update (group f) g' gs\<rparr>, Inl e)
        | Inr (k, d3, out) \<Rightarrow> (prune (now k) d3, Inr out)))"
      using False ga by (simp add: file_shard_def g_def [symmetric] gs_def [symmetric] Let_def split: sum.splits)
    show ?thesis
    proof (cases r)
      case (Inl e)
      then show ?thesis using assms(1) gs' wf' by (auto simp: fs decoder_inv_def)
    next
      case (Inr shards)
      obtain k d3 out where "deliver now 2 (d\<lparr>groups := AList.update (group f) g' gs\<rparr>) shards = Inr (k, d3, out)"
        and "\<And>t. decoder_inv (prune t d3)"
        using deliver_prune_inv [OF assms(1) gs', of now 2 shards] by (metis Inr_inject prod.inject)
      then show ?thesis by (simp add: fs Inr)
    qed
  qed
qed

lemma decoder_frame_inv:
  assumes "decoder_inv d" and "rs_shape rs"
  shows "decoder_inv (fst (decoder_frame rs now d f)) \<and> snd (decoder_frame rs now d f) \<noteq> Inl Panic"
proof -
  have obs: "decoder_inv (fst (observe_seq d (sequence f)))"
    using assms(1) by (rule observe_decoder_inv)
  then have "decoder_inv (prune (now 0) (fst (observe_seq d (sequence f))))"
    by (intro prune_inv) (simp_all add: decoder_inv_def)
  with obs assms show ?thesis
    using file_shard_inv [of "prune (now 0) (fst (observe_seq d (sequence f)))" rs f now]
    by (auto simp: decoder_frame_cases Let_def)
qed

end
