(* ===== verification/Xor_Code.thy ===== *)
theory Xor_Code
  imports Fec_Encoder
begin

text \<open>
  A concrete erasure code for the witnesses: one parity shard, the bytewise exclusive or of the
  data shards.  It satisfies the contract \<open>rs_ok\<close> for every number of data shards and one parity
  shard, so the contract that the tunnel theorems assume of the Reed-Solomon crate can be met.
\<close>

unbundle bit_operations_syntax

definition xorl :: "nat \<Rightarrow> bytes list \<Rightarrow> bytes" where
  "xorl L xs = map (\<lambda>k. foldr (\<lambda>s acc. (s ! k) XOR acc) xs 0) [0..<L]"

definition xor_code :: rs_code where
  "xor_code = \<lparr>
     rs_new = (\<lambda>d p. 0 < d \<and> p = 1),
     rs_encode = (\<lambda>d p xs. if p = 1 then Some (take d xs @ [xorl (length (hd xs)) (take d xs)]) else None),
     rs_reconstruct = (\<lambda>d p sh.
       if p = 1 then
         (let present = map the (filter (\<lambda>x. x \<noteq> None) sh) in
          (True, map (\<lambda>x. case x of Some s \<Rightarrow> Some s | None \<Rightarrow> Some (xorl (length (hd present)) present)) sh))
       else (False, sh))\<rparr>"

lemma length_xorl [simp]: "length (xorl L xs) = L"
  by (simp add: xorl_def)

lemma foldr_xor_remove:
  "foldr (\<lambda>s acc. (s ! k :: u8) XOR acc) (xs @ x # ys) a = (x ! k) XOR foldr (\<lambda>s acc. (s ! k) XOR acc) (xs @ ys) a"
  by (induction xs) (simp_all add: xor.left_commute)

lemma foldr_xor_snoc:
  "foldr (\<lambda>s acc. (s ! k :: u8) XOR acc) (xs @ [x]) 0 = (x ! k) XOR foldr (\<lambda>s acc. (s ! k) XOR acc) xs 0"
  using foldr_xor_remove [of k xs x "[]" 0] by simp

lemma codeword_xor_zero:
  "k < L \<Longrightarrow> foldr (\<lambda>s acc. (s ! k :: u8) XOR acc) (ds @ [xorl L ds]) 0 = 0"
  by (simp only: foldr_xor_snoc) (simp add: xorl_def)

lemma xorl_missing:
  assumes "i < length cw" and "cw = ds @ [xorl L ds]" and "\<forall>s \<in> set cw. length s = L"
  shows "xorl L (take i cw @ drop (Suc i) cw) = cw ! i"
proof (rule nth_equalityI)
  show "length (xorl L (take i cw @ drop (Suc i) cw)) = length (cw ! i)"
    using assms(1,3) nth_mem by (metis length_xorl)
  fix k
  assume "k < length (xorl L (take i cw @ drop (Suc i) cw))"
  then have k: "k < L" by simp
  let ?rest = "foldr (\<lambda>s acc. (s ! k :: u8) XOR acc) (take i cw @ drop (Suc i) cw) 0"
  have "foldr (\<lambda>s acc. (s ! k :: u8) XOR acc) (take i cw @ cw ! i # drop (Suc i) cw) 0 = (cw ! i ! k) XOR ?rest"
    by (rule foldr_xor_remove)
  then have eq: "foldr (\<lambda>s acc. (s ! k :: u8) XOR acc) cw 0 = (cw ! i ! k) XOR ?rest"
    by (simp only: id_take_nth_drop [OF assms(1), symmetric])
  have "foldr (\<lambda>s acc. (s ! k :: u8) XOR acc) cw 0 = 0"
    unfolding assms(2) by (rule codeword_xor_zero [OF k])
  with eq have z: "(cw ! i ! k) XOR ?rest = 0" by (simp only:)
  have "?rest = (cw ! i ! k) XOR ((cw ! i ! k) XOR ?rest)"
    by (simp only: xor.assoc [symmetric] xor_self_eq xor.left_neutral)
  then have "?rest = cw ! i ! k"
    unfolding z by (simp only: xor.right_neutral)
  then show "xorl L (take i cw @ drop (Suc i) cw) ! k = cw ! i ! k"
    using k by (simp add: xorl_def)
qed

lemma filter_one_missing:
  assumes "i < length sh" and "sh ! i = None" and "length sh - 1 \<le> length (filter (\<lambda>x. x \<noteq> None) sh)"
  shows "filter (\<lambda>x. x \<noteq> None) sh = take i sh @ drop (Suc i) sh"
proof -
  have sh: "sh = take i sh @ None # drop (Suc i) sh"
    using id_take_nth_drop [OF assms(1)] assms(2) by simp
  then have f: "filter (\<lambda>x. x \<noteq> None) sh = filter (\<lambda>x. x \<noteq> None) (take i sh @ drop (Suc i) sh)"
    by (metis (mono_tags, lifting) filter.simps(2) filter_append)
  have "length (take i sh @ drop (Suc i) sh) = length sh - 1"
    using assms(1) by simp
  with f assms(3) have "length (filter (\<lambda>x. x \<noteq> None) (take i sh @ drop (Suc i) sh)) \<ge>
      length (take i sh @ drop (Suc i) sh)"
    by simp
  then have "filter (\<lambda>x. x \<noteq> None) (take i sh @ drop (Suc i) sh) = take i sh @ drop (Suc i) sh"
    by (metis length_filter_less filter_id_conv linorder_not_less)
  with f show ?thesis by simp
qed

text \<open>The shards that are present, when exactly the one at \<open>i\<close> is missing.\<close>

lemma present_others:
  assumes "length sh = length cw" and "\<forall>j < length cw. sh ! j = None \<or> sh ! j = Some (cw ! j)"
    and "length cw \<le> Suc (length (filter (\<lambda>x. x \<noteq> None) sh))" and i: "i < length cw" "sh ! i = None"
  shows "map the (filter (\<lambda>x. x \<noteq> None) sh) = take i cw @ drop (Suc i) cw"
proof -
  have f: "filter (\<lambda>x. x \<noteq> None) sh = take i sh @ drop (Suc i) sh"
    using assms by (intro filter_one_missing) auto
  have "x \<noteq> None" if "x \<in> set (take i sh @ drop (Suc i) sh)" for x
    using that unfolding f [symmetric] by simp
  then have nn: "x \<in> set (take i sh) \<Longrightarrow> x \<noteq> None" "x \<in> set (drop (Suc i) sh) \<Longrightarrow> x \<noteq> None" for x by simp_all
  have "map the (take i sh) = take i cw"
  proof (rule nth_equalityI)
    fix j
    assume j: "j < length (map the (take i sh))"
    then have "take i sh ! j \<in> set (take i sh)" by (intro nth_mem) simp
    then have "sh ! j \<noteq> None" using nn(1) j by simp
    then have "sh ! j = Some (cw ! j)" using j assms(1,2) by auto
    then show "map the (take i sh) ! j = take i cw ! j" using j by simp
  qed (use assms(1) in simp)
  moreover have "map the (drop (Suc i) sh) = drop (Suc i) cw"
  proof (rule nth_equalityI)
    fix j
    assume j: "j < length (map the (drop (Suc i) sh))"
    then have "drop (Suc i) sh ! j \<in> set (drop (Suc i) sh)" by (intro nth_mem) simp
    then have "sh ! (Suc i + j) \<noteq> None" using nn(2) j by simp
    moreover have "Suc i + j < length cw" using j assms(1) by simp
    ultimately have "sh ! (Suc i + j) = Some (cw ! (Suc i + j))" using assms(2) [rule_format, of "Suc i + j"] by (auto simp del: add_Suc)
    then show "map the (drop (Suc i) sh) ! j = drop (Suc i) cw ! j" using j assms(1) by simp
  qed (use assms(1) in simp)
  ultimately show ?thesis unfolding f by simp
qed

lemma xor_codeword:
  assumes "length ds = d" and "0 < d" and "\<forall>s \<in> set ds. length s = L"
  shows "rs_codeword xor_code d 1 ds [xorl L ds]"
proof -
  define cw where "cw = ds @ [xorl L ds]"
  have cw: "length cw = d + 1" "\<forall>s \<in> set cw. length s = L"
    using assms by (auto simp: cw_def)
  have "rs_reconstruct xor_code d 1 sh = (True, map Some cw)"
    if sh: "length sh = d + 1" "\<forall>i < d + 1. sh ! i = None \<or> sh ! i = Some (cw ! i)"
      "d \<le> length (filter (\<lambda>x. x \<noteq> None) sh)" for sh
  proof -
    let ?present = "map the (filter (\<lambda>x. x \<noteq> None) sh)"
    let ?fill = "\<lambda>x. case x of Some s \<Rightarrow> Some s | None \<Rightarrow> Some (xorl (length (hd ?present)) ?present)"
    have fill: "xorl (length (hd ?present)) ?present = cw ! i" if i: "i < d + 1" "sh ! i = None" for i
    proof -
      have p: "?present = take i cw @ drop (Suc i) cw" using sh i cw(1) by (intro present_others) simp_all
      have "?present \<noteq> []" using sh(3) assms(2) by auto
      then have "hd ?present \<in> set (take i cw @ drop (Suc i) cw)" unfolding p by (rule hd_in_set)
      then have "length (hd ?present) = L" using cw(2) by (auto dest: in_set_takeD in_set_dropD)
      then show ?thesis using p xorl_missing [of i cw ds L] i cw by (simp add: cw_def)
    qed
    have "map ?fill sh = map Some cw"
    proof (rule nth_equalityI)
      fix j
      assume "j < length (map ?fill sh)"
      then have "j < d + 1" "j < length sh" "j < length cw" using sh(1) cw(1) by simp_all
      then show "map ?fill sh ! j = map Some cw ! j"
        using sh(2) fill [of j] by (cases "sh ! j") auto
    qed (use sh(1) cw(1) in simp)
    then show ?thesis by (simp add: xor_code_def Let_def del: not_None_eq)
  qed
  then show ?thesis by (auto simp: rs_codeword_def cw_def)
qed

lemma rs_ok_xor: "0 < d \<Longrightarrow> rs_ok xor_code d 1"
proof -
  assume d: "0 < d"
  have "\<exists>ps. rs_encode xor_code d 1 (ds @ replicate 1 (replicate L 0)) = Some (ds @ ps) \<and>
      (\<forall>s \<in> set ps. length s = L) \<and> rs_codeword xor_code d 1 ds ps"
    if "length ds = d" "0 < L" "\<forall>s \<in> set ds. length s = L" for ds L
  proof (intro exI conjI)
    show "rs_codeword xor_code d 1 ds [xorl L ds]"
      using that d by (intro xor_codeword)
    have "length (hd ds) = L" using that d by (cases ds) auto
    then show "rs_encode xor_code d 1 (ds @ replicate 1 (replicate L 0)) = Some (ds @ [xorl L ds])"
      using that d by (cases ds) (auto simp: xor_code_def)
  qed simp
  moreover have "rs_new xor_code d 1"
    using d by (simp add: xor_code_def)
  ultimately show ?thesis unfolding rs_ok_def by blast
qed

lemma rs_supports_xor: "rs_supports xor_code 1"
proof -
  have "min 1 n = 1" if "0 < n" for n :: nat using that by simp
  then show ?thesis using rs_ok_xor by (auto simp: rs_supports_def)
qed

lemma rs_shape_xor: "rs_shape xor_code"
  by (auto simp: rs_shape_def xor_code_def Let_def)

end
