(* ===== verification/Fec_Recovery.thy ===== *)
theory Fec_Recovery
  imports Fec_Decoder Xor_Code
begin

text \<open>
  Correctness of the forward error correction across encoder and decoder: a decoder that receives
  enough frames of a group, in any order, delivers every data shard of the group exactly once, and
  with it the datagrams that were sent.
\<close>

section \<open>One group\<close>

text \<open>
  \<open>cw\<close> are the shards of the group as sent, \<open>n\<close> data shards and then \<open>p\<close> parity shards.
\<close>

definition codeword :: "rs_code \<Rightarrow> nat \<Rightarrow> nat \<Rightarrow> bytes list \<Rightarrow> bool" where
  "codeword rs n p cw \<longleftrightarrow> 0 < n \<and> length cw = n + p \<and>
     (0 < p \<longrightarrow> rs_new rs n p \<and> rs_codeword rs n p (take n cw) (drop n cw))"

definition enough :: "nat \<Rightarrow> nat \<Rightarrow> nat set \<Rightarrow> bool" where
  "enough n p S \<longleftrightarrow> 0 < p \<and> n \<le> card S"

text \<open>The state of a group after the shards at positions \<open>S\<close> have arrived.\<close>

definition group_rel :: "shard_group \<Rightarrow> nat \<Rightarrow> nat \<Rightarrow> bytes list \<Rightarrow> nat set \<Rightarrow> bool" where
  "group_rel g n p cw S \<longleftrightarrow> g_data g = n \<and> g_parity g = p \<and> S \<subseteq> {..<n + p} \<and>
     length (g_shards g) = n + p \<and> length (g_delivered g) = n \<and>
     (\<forall>i < n + p. g_shards g ! i = None \<or> g_shards g ! i = Some (cw ! i)) \<and>
     (\<forall>i \<in> S. g_shards g ! i = Some (cw ! i)) \<and>
     (\<forall>i < n + p. i \<notin> S \<longrightarrow> \<not> enough n p S \<longrightarrow> g_shards g ! i = None) \<and>
     (\<forall>i < n. g_delivered g ! i \<longleftrightarrow> i \<in> S \<or> enough n p S)"

lemma group_rel_new: "0 < n \<Longrightarrow> group_rel (new_group now n p) n p cw {}"
  by (simp add: group_rel_def new_group_def enough_def)

lemma group_rel_store_shards:
  assumes "group_rel g n p cw S" and "pos < n + p"
  shows "\<forall>i < n + p. g_shards (group_store g pos (cw ! pos)) ! i =
     (if i = pos then Some (cw ! pos) else g_shards g ! i)"
  using assms by (auto simp: group_rel_def group_store_def nth_list_update)

lemma group_rel_store_delivered:
  assumes "group_rel g n p cw S"
  shows "\<forall>i < n. g_delivered (group_store g pos s) ! i \<longleftrightarrow> i = pos \<or> i \<in> S \<or> enough n p S"
  using assms by (auto simp: group_rel_def group_store_def nth_list_update)

lemma group_rel_store_lengths:
  assumes "group_rel g n p cw S"
  shows "length (g_shards (group_store g pos s)) = n + p" and "length (g_delivered (group_store g pos s)) = n"
    and "g_data (group_store g pos s) = n" and "g_parity (group_store g pos s) = p"
    and "g_created (group_store g pos s) = g_created g"
  using assms by (simp_all add: group_rel_def group_store_def)

lemma group_rel_store_partial:
  assumes "group_rel g n p cw S" and "pos < n + p"
  shows "\<forall>i < n + p. g_shards (group_store g pos (cw ! pos)) ! i = None \<or>
     g_shards (group_store g pos (cw ! pos)) ! i = Some (cw ! i)"
  using assms(1) group_rel_store_shards [OF assms] by (auto simp: group_rel_def)

lemma present_count:
  assumes "group_rel g n p cw S" and "pos < n + p" and "\<not> enough n p S"
  shows "length (filter (\<lambda>x. x \<noteq> None) (g_shards (group_store g pos (cw ! pos)))) = card (insert pos S)"
proof -
  have "{i. i < n + p \<and> g_shards (group_store g pos (cw ! pos)) ! i \<noteq> None} = insert pos S"
  proof (rule set_eqI)
    fix i
    show "i \<in> {i. i < n + p \<and> g_shards (group_store g pos (cw ! pos)) ! i \<noteq> None} \<longleftrightarrow> i \<in> insert pos S"
    proof (cases "i < n + p")
      case True
      then show ?thesis
        using assms group_rel_store_shards [OF assms(1,2)] by (auto simp: group_rel_def)
    next
      case False
      then show ?thesis using assms(1,2) by (auto simp: group_rel_def)
    qed
  qed
  then show ?thesis
    by (simp add: length_filter_conv_card group_rel_store_lengths [OF assms(1)])
qed

text \<open>The positions of the data shards delivered once the shards at \<open>S\<close> have arrived.\<close>

definition delivered_at :: "nat \<Rightarrow> nat \<Rightarrow> nat set \<Rightarrow> nat set" where
  "delivered_at n p S = {i. i < n \<and> (i \<in> S \<or> enough n p S)}"

definition shards_at :: "bytes list \<Rightarrow> nat set \<Rightarrow> bytes multiset" where
  "shards_at cw I = image_mset ((!) cw) (mset_set I)"

lemma enough_mono: "enough n p S \<Longrightarrow> S \<subseteq> {..<n + p} \<Longrightarrow> pos < n + p \<Longrightarrow> enough n p (insert pos S)"
  using card_insert_le [of S pos] finite_subset [of S "{..<n + p}"] by (auto simp: enough_def)

lemma finite_delivered_at [simp]: "finite (delivered_at n p S)"
  by (simp add: delivered_at_def)

lemma shards_at_union: "finite I \<Longrightarrow> finite J \<Longrightarrow> I \<inter> J = {} \<Longrightarrow> shards_at cw (I \<union> J) = shards_at cw I + shards_at cw J"
  by (simp add: shards_at_def mset_set_Union)

lemma shards_at_list: "distinct is \<Longrightarrow> mset (map ((!) cw) is) = shards_at cw (set is)"
  by (simp add: shards_at_def mset_set_set)

lemma group_immediate_at:
  assumes "group_rel g n p cw S"
  shows "mset (group_immediate g pos (cw ! pos)) = shards_at cw ({pos} \<inter> {..<n} - delivered_at n p S)"
proof -
  have "{pos} \<inter> {..<n} - delivered_at n p S = (if pos < n \<and> \<not> g_delivered g ! pos then {pos} else {})"
    using assms by (auto simp: group_rel_def delivered_at_def)
  then show ?thesis using assms by (auto simp: group_immediate_def shards_at_def group_rel_def)
qed

lemma map_filter_undelivered:
  "set is \<subseteq> {..<length cw} \<Longrightarrow>
   List.map_filter (\<lambda>i. if P i then None else map Some cw ! i) is = map ((!) cw) (filter (\<lambda>i. \<not> P i) is)"
  by (induction "is") (auto simp: map_filter_simps)

lemma needs_recovery_iff:
  assumes "group_rel g n p cw S" and "pos < n + p"
  shows "needs_recovery (group_store g pos (cw ! pos)) \<longleftrightarrow>
     \<not> enough n p S \<and> enough n p (insert pos S) \<and> \<not> {..<n} \<subseteq> insert pos S"
proof -
  note len = group_rel_store_lengths [OF assms(1)]
  have un: "(\<exists>x \<in> set (g_delivered (group_store g pos (cw ! pos))). \<not> x) \<longleftrightarrow>
      \<not> enough n p S \<and> \<not> {..<n} \<subseteq> insert pos S"
    using group_rel_store_delivered [OF assms(1), of pos "cw ! pos"] len(2)
    by (auto simp: in_set_conv_nth subset_iff Bex_def)
  show ?thesis
  proof (cases "enough n p S")
    case True
    then show ?thesis using un by (auto simp: needs_recovery_def)
  next
    case False
    then show ?thesis
      using un present_count [OF assms False] len by (simp add: needs_recovery_def enough_def conj_ac)
  qed
qed

text \<open>What a recovering shard delivers: its own, and every data shard that had not arrived.\<close>

lemma delivered_by_recovery:
  assumes rel: "group_rel g n p cw S" and E: "\<not> enough n p S" "enough n p (insert pos S)"
  shows "shards_at cw (delivered_at n p (insert pos S)) = shards_at cw (delivered_at n p S) +
    mset (group_immediate g pos (cw ! pos) @
      map ((!) cw) (filter (\<lambda>i. \<not> g_delivered (group_store g pos (cw ! pos)) ! i) [0..<n]))"
proof -
  let ?A = "{pos} \<inter> {..<n} - delivered_at n p S" and ?B = "{i. i < n \<and> i \<noteq> pos \<and> i \<notin> S}"
  note dl = group_rel_store_delivered [OF rel, of pos "cw ! pos"]
  have "delivered_at n p (insert pos S) = delivered_at n p S \<union> ?A \<union> ?B"
    using E by (auto simp: delivered_at_def)
  moreover have "(delivered_at n p S \<union> ?A) \<inter> ?B = {}" using E by (auto simp: delivered_at_def)
  moreover have "set (filter (\<lambda>i. \<not> g_delivered (group_store g pos (cw ! pos)) ! i) [0..<n]) = ?B" using dl E by auto
  ultimately show ?thesis
    by (simp add: shards_at_union shards_at_list group_immediate_at [OF rel] add.assoc del: set_filter mset_map Un_Diff_cancel)
qed

lemma delivered_by_arrival:
  assumes rel: "group_rel g n p cw S" and pos: "pos < n + p"
    and E: "enough n p (insert pos S) \<Longrightarrow> enough n p S \<or> {..<n} \<subseteq> insert pos S"
  shows "shards_at cw (delivered_at n p (insert pos S)) = shards_at cw (delivered_at n p S) + mset (group_immediate g pos (cw ! pos))"
proof -
  have S: "S \<subseteq> {..<n + p}" using rel by (simp add: group_rel_def)
  have "delivered_at n p (insert pos S) = delivered_at n p S \<union> ({pos} \<inter> {..<n} - delivered_at n p S)"
    using E enough_mono [OF _ S pos] by (auto simp: delivered_at_def)
  then show ?thesis
    unfolding group_immediate_at [OF rel] by (subst shards_at_union [symmetric]) auto
qed

lemma group_accept_step:
  assumes rel: "group_rel g n p cw S" and pos: "pos < n + p" and code: "codeword rs n p cw"
    and wf: "group_wf g" and shape: "rs_shape rs"
  obtains g' out where "group_accept rs g pos (cw ! pos) = (g', Inr out)"
    and "group_rel g' n p cw (insert pos S)" and "g_created g' = g_created g"
    and "shards_at cw (delivered_at n p (insert pos S)) = shards_at cw (delivered_at n p S) + mset out"
proof -
  let ?g2 = "group_store g pos (cw ! pos)" and ?imm = "group_immediate g pos (cw ! pos)"
  note len = group_rel_store_lengths [OF rel]
  note sh = group_rel_store_shards [OF rel pos] and dl = group_rel_store_delivered [OF rel, of pos "cw ! pos"]
  have gd: "g_data g = n" "g_parity g = p" and S: "S \<subseteq> {..<n + p}" using rel by (simp_all add: group_rel_def)
  note cases' = group_accept_cases [OF wf _ shape, of pos "cw ! pos", unfolded gd, OF pos]
  show ?thesis
  proof (cases "needs_recovery ?g2")
    case True
    then have E: "\<not> enough n p S" "enough n p (insert pos S)" using needs_recovery_iff [OF rel pos] by auto
    have c: "rs_new rs n p" "rs_codeword rs n p (take n cw) (drop n cw)" "length cw = n + p"
      using code E(2) by (auto simp: codeword_def enough_def)
    have "n \<le> length (filter (\<lambda>x. x \<noteq> None) (g_shards ?g2))"
      using present_count [OF rel pos E(1)] E(2) by (simp add: enough_def)
    then have rec: "rs_reconstruct rs n p (g_shards ?g2) = (True, map Some cw)"
      using c(2) group_rel_store_partial [OF rel pos] len(1) unfolding rs_codeword_def append_take_drop_id
      by blast
    let ?out = "?imm @ map ((!) cw) (filter (\<lambda>i. \<not> g_delivered ?g2 ! i) [0..<n])"
    let ?g' = "?g2\<lparr>g_shards := map Some cw, g_delivered := replicate n True\<rparr>"
    have "group_accept rs g pos (cw ! pos) = (?g', Inr ?out)"
      using True c(1) rec map_filter_undelivered [of "[0..<n]" cw] c(3) by (simp add: cases' Let_def subset_iff)
    moreover have "group_rel ?g' n p cw (insert pos S)"
      using S pos len E(2) c(3) by (auto simp: group_rel_def)
    moreover have "g_created ?g' = g_created g" by (simp add: len)
    ultimately show ?thesis using delivered_by_recovery [OF rel E] by (rule that)
  next
    case False
    then have E: "enough n p (insert pos S) \<Longrightarrow> enough n p S \<or> {..<n} \<subseteq> insert pos S"
      using needs_recovery_iff [OF rel pos] by blast
    have "group_accept rs g pos (cw ! pos) = (?g2, Inr ?imm)"
      using False by (simp add: cases' Let_def)
    moreover have "group_rel ?g2 n p cw (insert pos S)"
      using rel pos len sh dl E enough_mono [OF _ S pos] by (auto simp: group_rel_def)
    moreover have "g_created ?g2 = g_created g" by (simp add: len)
    ultimately show ?thesis using delivered_by_arrival [OF rel pos E] by (rule that)
  qed
qed

section \<open>Reassembly of many datagrams\<close>

text \<open>
  \<open>P\<close> gives the parts of every datagram in flight and \<open>D\<close> the (packet, part) pairs that
  have been delivered; the reassembly table holds exactly the datagrams of which some but not all
  parts have been delivered.
\<close>

definition frag_key :: "bytes \<Rightarrow> u64 \<times> nat" where
  "frag_key s = (frag_packet s, frag_idx s)"

definition carries :: "(u64 \<rightharpoonup> bytes list) \<Rightarrow> bytes \<Rightarrow> bool" where
  "carries P s \<longleftrightarrow> frag_ok s \<and> (\<exists>parts. P (frag_packet s) = Some parts \<and> frag_count s = length parts \<and>
     frag_part s = parts ! frag_idx s)"

definition parts_seen :: "(u64 \<times> nat) set \<Rightarrow> u64 \<Rightarrow> nat set" where
  "parts_seen D pid = {j. (pid, j) \<in> D}"

definition slot_rel :: "instant \<Rightarrow> bytes list \<Rightarrow> nat set \<Rightarrow> reassembly option \<Rightarrow> bool" where
  "slot_rel t0 parts S entry \<longleftrightarrow>
     (if S = {} \<or> {..<length parts} \<subseteq> S then entry = None
      else \<exists>r. entry = Some r \<and> t0 \<le> r_created r \<and> length (r_parts r) = length parts \<and>
        (\<forall>j < length parts. r_parts r ! j = (if j \<in> S then Some (parts ! j) else None)))"

definition pkt_rel :: "(u64 \<rightharpoonup> bytes list) \<Rightarrow> instant \<Rightarrow> (u64 \<times> reassembly) list \<Rightarrow> (u64 \<times> nat) set \<Rightarrow> bool" where
  "pkt_rel P t0 ps D \<longleftrightarrow> distinct (keys ps) \<and>
     (\<forall>pid. case P pid of None \<Rightarrow> map_of ps pid = None \<and> parts_seen D pid = {}
        | Some parts \<Rightarrow> slot_rel t0 parts (parts_seen D pid) (map_of ps pid))"

definition completed :: "(u64 \<rightharpoonup> bytes list) \<Rightarrow> (u64 \<times> nat) set \<Rightarrow> u64 set" where
  "completed P D = {pid. \<exists>parts. P pid = Some parts \<and> {..<length parts} \<subseteq> parts_seen D pid}"

definition datagrams :: "(u64 \<rightharpoonup> bytes list) \<Rightarrow> u64 set \<Rightarrow> bytes multiset" where
  "datagrams P I = image_mset (\<lambda>pid. concat (the (P pid))) (mset_set I)"

lemma parts_seen_insert: "parts_seen (insert (pid, j) D) q = (if q = pid then insert j (parts_seen D q) else parts_seen D q)"
  by (auto simp: parts_seen_def)

lemma map_of_alist_update: "map_of (AList.update k v m) = (map_of m)(k \<mapsto> v)"
  by (rule AList.update_conv')

lemma map_of_alist_delete: "map_of (AList.delete k m) = (map_of m)(k := None)"
  by (rule AList.delete_conv')

lemma slots_complete_iff:
  "length ss = length parts \<Longrightarrow> \<forall>j < length parts. ss ! j = (if j \<in> S then Some (parts ! j) else None) \<Longrightarrow>
   list_all (\<lambda>x. x \<noteq> None) ss \<longleftrightarrow> {..<length parts} \<subseteq> S"
  by (auto simp: list_all_length subset_iff split: if_splits)

lemma slots_concat:
  "length ss = length parts \<Longrightarrow> \<forall>j < length parts. ss ! j = (if j \<in> S then Some (parts ! j) else None) \<Longrightarrow>
   {..<length parts} \<subseteq> S \<Longrightarrow> map the ss = parts"
  by (rule nth_equalityI) (auto simp: subset_iff)

lemma fragment_entry_slots:
  assumes "pkt_rel P t0 (packets d) D" and "carries P s" and "frag_key s \<notin> D" and "t0 \<le> now"
    and "P (frag_packet s) = Some parts"
  defines "r \<equiv> frag_entry now d s" and "S \<equiv> parts_seen D (frag_packet s)"
  shows "length (r_parts r) = length parts" and "t0 \<le> r_created r" and "frag_idx s < length parts"
    and "\<forall>j < length parts. set_part (frag_idx s) (frag_part s) (r_parts r) ! j =
      (if j \<in> insert (frag_idx s) S then Some (parts ! j) else None)"
proof -
  have c: "frag_count s = length parts" "frag_part s = parts ! frag_idx s" "frag_idx s < length parts"
    using assms(2,5) by (auto simp: carries_def frag_ok_def)
  have notin: "frag_idx s \<notin> S" using assms(3) by (auto simp: S_def parts_seen_def frag_key_def)
  then have "\<not> {..<length parts} \<subseteq> S" using c(3) by blast
  moreover have "slot_rel t0 parts S (map_of (packets d) (frag_packet s))"
    using assms(1,5) unfolding pkt_rel_def S_def by (metis option.simps(5))
  ultimately have slots: "length (r_parts r) = length parts" "t0 \<le> r_created r"
    "\<forall>j < length parts. r_parts r ! j = (if j \<in> S then Some (parts ! j) else None)"
    using assms(4) c(1) by (auto simp: slot_rel_def r_def frag_entry_def split: if_splits)
  show "length (r_parts r) = length parts" "t0 \<le> r_created r" "frag_idx s < length parts"
    by (fact slots c)+
  show "\<forall>j < length parts. set_part (frag_idx s) (frag_part s) (r_parts r) ! j =
      (if j \<in> insert (frag_idx s) S then Some (parts ! j) else None)"
    unfolding c(2) by (rule overwrite.put_parts [OF slots(1) c(3) slots(3)])
qed

lemma pkt_rel_step:
  assumes rel: "pkt_rel P t0 ps D" and P: "P pid = Some parts"
    and new: "slot_rel t0 parts (insert idx (parts_seen D pid)) (map_of ps' pid)"
    and rest: "\<And>q. q \<noteq> pid \<Longrightarrow> map_of ps' q = map_of ps q" and "distinct (keys ps')"
  shows "pkt_rel P t0 ps' (insert (pid, idx) D)"
  unfolding pkt_rel_def
proof (intro conjI allI)
  fix q
  show "case P q of None \<Rightarrow> map_of ps' q = None \<and> parts_seen (insert (pid, idx) D) q = {}
      | Some parts \<Rightarrow> slot_rel t0 parts (parts_seen (insert (pid, idx) D) q) (map_of ps' q)"
    using rel [unfolded pkt_rel_def, THEN conjunct2, THEN spec, of q] P new rest [of q]
    by (cases "q = pid") (simp_all add: parts_seen_insert split: option.splits)
qed fact

lemma fragment_step:
  assumes rel: "pkt_rel P t0 (packets d) D" and s: "carries P s" and new: "frag_key s \<notin> D"
    and now: "t0 \<le> now" and fin: "finite (dom P)"
  obtains ps' out where "fragment now d s = Inr (d\<lparr>packets := ps'\<rparr>, out)"
    and "pkt_rel P t0 ps' (insert (frag_key s) D)"
    and "datagrams P (completed P (insert (frag_key s) D)) = datagrams P (completed P D) + mset out"
proof -
  obtain parts where P: "P (frag_packet s) = Some parts" and ok: "frag_ok s" and cnt: "frag_count s = length parts"
    using s by (auto simp: carries_def)
  note slots = fragment_entry_slots [OF rel s new now P]
  let ?pid = "frag_packet s" and ?S = "insert (frag_idx s) (parts_seen D (frag_packet s))"
  let ?r = "frag_entry now d s"
  let ?ps1 = "AList.update ?pid ?r (packets d)"
  let ?parts = "set_part (frag_idx s) (frag_part s) (r_parts ?r)"
  have len: "length ?parts = length parts" using slots(1) by (simp add: overwrite.length_put)
  have dist: "distinct (keys (AList.update ?pid v (packets d)))" for v
    using rel by (simp add: pkt_rel_def AList.distinct_update)
  have all: "list_all (\<lambda>x. x \<noteq> None) ?parts \<longleftrightarrow> {..<length parts} \<subseteq> ?S"
    by (rule slots_complete_iff [OF len slots(4)])
  have pidD: "?pid \<notin> completed P D"
    using new slots(3) P by (auto simp: completed_def parts_seen_def frag_key_def subset_iff)
  have others: "completed P (insert (frag_key s) D) = completed P D \<union> (if {..<length parts} \<subseteq> ?S then {?pid} else {})"
    using P by (auto simp: completed_def frag_key_def parts_seen_insert split: if_splits)
  have fincomp: "finite (completed P D)" by (rule finite_subset [OF _ fin]) (auto simp: completed_def)
  show ?thesis
  proof (cases "{..<length parts} \<subseteq> ?S")
    case True
    let ?ps' = "AList.delete ?pid ?ps1"
    have "fragment now d s = Inr (d\<lparr>packets := ?ps'\<rparr>, [concat parts])"
      using True ok cnt slots(1) all slots_concat [OF len slots(4) True] by (simp add: fragment_cases Let_def)
    moreover have "pkt_rel P t0 ?ps' (insert (frag_key s) D)"
      unfolding frag_key_def using True
      by (intro pkt_rel_step [OF rel P])
        (simp_all add: map_of_alist_delete map_of_alist_update AList.distinct_delete dist slot_rel_def)
    moreover have "datagrams P (completed P (insert (frag_key s) D)) = datagrams P (completed P D) + mset [concat parts]"
      using True others pidD fincomp P by (simp add: datagrams_def)
    ultimately show ?thesis by (rule that)
  next
    case False
    let ?ps' = "AList.update ?pid (?r\<lparr>r_parts := ?parts\<rparr>) ?ps1"
    have "fragment now d s = Inr (d\<lparr>packets := ?ps'\<rparr>, [])"
      using False ok cnt slots(1) all by (simp add: fragment_cases Let_def)
    moreover have "pkt_rel P t0 ?ps' (insert (frag_key s) D)"
      unfolding frag_key_def using False slots(2,4) len
      by (intro pkt_rel_step [OF rel P]) (simp_all add: map_of_alist_update AList.distinct_update dist slot_rel_def)
    moreover have "datagrams P (completed P (insert (frag_key s) D)) = datagrams P (completed P D) + mset []"
      using False others by simp
    ultimately show ?thesis by (rule that)
  qed
qed

lemma deliver_step:
  assumes "pkt_rel P t0 (packets d) D" and "\<forall>s \<in> set ss. carries P s" and "distinct (map frag_key ss)"
    and "frag_key ` set ss \<inter> D = {}" and "\<forall>k. t0 \<le> now k" and "finite (dom P)"
  shows "\<exists>k' ps' out. deliver now k d ss = Inr (k', d\<lparr>packets := ps'\<rparr>, out) \<and>
     pkt_rel P t0 ps' (frag_key ` set ss \<union> D) \<and>
     datagrams P (completed P (frag_key ` set ss \<union> D)) = datagrams P (completed P D) + mset out"
  using assms
proof (induction ss arbitrary: d D k)
  case Nil
  then have "deliver now k d [] = Inr (k, d\<lparr>packets := packets d\<rparr>, []) \<and> pkt_rel P t0 (packets d) D" by simp
  then show ?case by (intro exI [of _ k] exI [of _ "packets d"] exI [of _ "[]"]) simp
next
  case (Cons s ss)
  obtain ps1 out1 where f: "fragment (now k) d s = Inr (d\<lparr>packets := ps1\<rparr>, out1)"
    "pkt_rel P t0 ps1 (insert (frag_key s) D)"
    "datagrams P (completed P (insert (frag_key s) D)) = datagrams P (completed P D) + mset out1"
  proof (rule fragment_step [of P t0 d D s "now k"])
    show "pkt_rel P t0 (packets d) D" "carries P s" "frag_key s \<notin> D" "t0 \<le> now k" "finite (dom P)"
      using Cons.prems by simp_all
  qed (rule that)
  have "\<exists>k' ps' out. deliver now (Suc k) (d\<lparr>packets := ps1\<rparr>) ss = Inr (k', d\<lparr>packets := ps1\<rparr>\<lparr>packets := ps'\<rparr>, out) \<and>
     pkt_rel P t0 ps' (frag_key ` set ss \<union> insert (frag_key s) D) \<and>
     datagrams P (completed P (frag_key ` set ss \<union> insert (frag_key s) D)) =
       datagrams P (completed P (insert (frag_key s) D)) + mset out"
    using Cons.prems f(2) by (intro Cons.IH) auto
  then obtain k' ps' out where "deliver now (Suc k) (d\<lparr>packets := ps1\<rparr>) ss = Inr (k', d\<lparr>packets := ps'\<rparr>, out)"
    "pkt_rel P t0 ps' (frag_key ` set ss \<union> insert (frag_key s) D)"
    "datagrams P (completed P (frag_key ` set ss \<union> insert (frag_key s) D)) =
       datagrams P (completed P (insert (frag_key s) D)) + mset out"
    by auto
  with f show ?case by (intro exI [of _ k'] exI [of _ ps'] exI [of _ "out1 @ out"]) simp
qed

section \<open>The decoder against a transmission\<close>

text \<open>
  A transmission is a map \<open>G\<close> from group numbers to the shards of the group and a map \<open>P\<close>
  from packet numbers to the parts of the datagram.  The abstract state of a receiver is the set
  \<open>R g\<close> of positions received of every group.
\<close>

type_synonym group_map = "u64 \<rightharpoonup> nat \<times> nat \<times> bytes list"

definition distinct_fragments :: "group_map \<Rightarrow> bool" where
  "distinct_fragments G \<longleftrightarrow>
     (\<forall>g n p cw i g' n' p' cw' i'. G g = Some (n, p, cw) \<and> i < n \<and> G g' = Some (n', p', cw') \<and> i' < n' \<and>
        frag_key (cw ! i) = frag_key (cw' ! i') \<longrightarrow> g = g' \<and> i = i')"

definition transmission_ok :: "rs_code \<Rightarrow> group_map \<Rightarrow> (u64 \<rightharpoonup> bytes list) \<Rightarrow> bool" where
  "transmission_ok rs G P \<longleftrightarrow> finite (dom G) \<and> card (dom G) \<le> MAX_GROUPS \<and>
     finite (dom P) \<and> card (dom P) \<le> MAX_REASSEMBLIES \<and>
     (\<forall>g n p cw. G g = Some (n, p, cw) \<longrightarrow> codeword rs n p cw \<and> n \<le> 32 \<and> p \<le> 16 \<and>
        (\<forall>s \<in> set cw. FRAGMENT_HEADER \<le> length s \<and> length s \<le> SHARD) \<and> (\<forall>i < n. carries P (cw ! i))) \<and>
     distinct_fragments G"

definition delivered_keys :: "group_map \<Rightarrow> (u64 \<Rightarrow> nat set) \<Rightarrow> (u64 \<times> nat) set" where
  "delivered_keys G R =
     {frag_key (cw ! i) | g n p cw i. G g = Some (n, p, cw) \<and> i \<in> delivered_at n p (R g)}"

definition grp_rel :: "group_map \<Rightarrow> instant \<Rightarrow> (u64 \<times> shard_group) list \<Rightarrow> (u64 \<Rightarrow> nat set) \<Rightarrow> bool" where
  "grp_rel G t0 gs R \<longleftrightarrow> distinct (keys gs) \<and>
     (\<forall>g. case G g of None \<Rightarrow> map_of gs g = None
        | Some (n, p, cw) \<Rightarrow> (case map_of gs g of None \<Rightarrow> R g = {}
            | Some gr \<Rightarrow> t0 \<le> g_created gr \<and> group_wf gr \<and> group_rel gr n p cw (R g)))"

definition dec_rel :: "group_map \<Rightarrow> (u64 \<rightharpoonup> bytes list) \<Rightarrow> instant \<Rightarrow> decoder \<Rightarrow> (u64 \<Rightarrow> nat set) \<Rightarrow> bool" where
  "dec_rel G P t0 d R \<longleftrightarrow> grp_rel G t0 (groups d) R \<and> pkt_rel P t0 (packets d) (delivered_keys G R)"

definition frame_of :: "group_map \<Rightarrow> frame \<Rightarrow> bool" where
  "frame_of G f \<longleftrightarrow> (\<exists>n p cw. G (group f) = Some (n, p, cw) \<and> unat (data f) = n \<and> unat (parity f) = p \<and>
     unat (index f) < n + p \<and> payload f = cw ! unat (index f) \<and> (kind f = KIND_DATA \<or> kind f = KIND_PARITY))"

lemma alist_length_le_card:
  assumes "distinct (keys m)" and "\<And>k. map_of m k \<noteq> None \<Longrightarrow> k \<in> A" and "finite A"
  shows "length m \<le> card A"
proof -
  have "set (keys m) \<subseteq> A" using assms(2) by (auto simp: map_of_None_keys)
  then have "card (set (keys m)) \<le> card A" using assms(3) by (rule card_mono [rotated])
  then show ?thesis using distinct_card [OF assms(1)] by simp
qed

lemma grp_rel_length:
  assumes "grp_rel G t0 gs R" and "finite (dom G)"
  shows "length gs \<le> card (dom G)"
    and "G g \<noteq> None \<Longrightarrow> map_of gs g = None \<Longrightarrow> length gs < card (dom G)"
proof -
  have none: "map_of gs k = None" if "G k = None" for k
    using assms(1)[unfolded grp_rel_def, THEN conjunct2, THEN spec, of k] that by simp
  then have some: "k \<in> dom G" if "map_of gs k \<noteq> None" for k using that by (metis domIff)
  have d: "distinct (keys gs)" using assms(1) by (simp add: grp_rel_def)
  show "length gs \<le> card (dom G)" using some assms(2) by (rule alist_length_le_card [OF d])
  assume g: "G g \<noteq> None" "map_of gs g = None"
  have "length gs \<le> card (dom G - {g})" using some g assms(2) by (intro alist_length_le_card d) auto
  then show "length gs < card (dom G)" using card_Diff1_less [OF assms(2), of g] g(1) by (meson domIff le_less_trans)
qed

lemma pkt_rel_length: "pkt_rel P t0 ps D \<Longrightarrow> finite (dom P) \<Longrightarrow> length ps \<le> card (dom P)"
  by (rule alist_length_le_card) (auto simp: pkt_rel_def dest: spec split: option.splits)

lemma prune_within:
  assumes "\<forall>(k, g) \<in> set (groups d). t0 \<le> g_created g" and "\<forall>(k, r) \<in> set (packets d). t0 \<le> r_created r"
    and "now < t0 + GROUP_TTL" and "length (packets d) \<le> MAX_REASSEMBLIES"
  shows "prune now d = d"
proof -
  have g: "filter (\<lambda>(_, g). now - g_created g < GROUP_TTL) (groups d) = groups d"
    using assms(1,3) by (intro filter_True) (auto simp: GROUP_TTL_def)
  have p: "filter (\<lambda>(_, r). now - r_created r < REASSEMBLY_TTL) (packets d) = packets d"
    using assms(2,3) by (intro filter_True) (auto simp: GROUP_TTL_def REASSEMBLY_TTL_def)
  show ?thesis unfolding prune_def g p Let_def using assms(4) by simp
qed

lemma dec_rel_prune:
  assumes "dec_rel G P t0 d R" and "transmission_ok rs G P" and "now < t0 + GROUP_TTL"
  shows "prune now d = d"
proof (rule prune_within [OF _ _ assms(3)])
  have gr: "grp_rel G t0 (groups d) R" and pk: "pkt_rel P t0 (packets d) (delivered_keys G R)"
    using assms(1) by (simp_all add: dec_rel_def)
  show "\<forall>(k, g) \<in> set (groups d). t0 \<le> g_created g"
  proof (clarify)
    fix k g
    assume "(k, g) \<in> set (groups d)"
    then have "map_of (groups d) k = Some g" using gr by (simp add: grp_rel_def)
    then show "t0 \<le> g_created g"
      using gr[unfolded grp_rel_def, THEN conjunct2, THEN spec, of k] by (auto split: option.splits)
  qed
  show "\<forall>(k, r) \<in> set (packets d). t0 \<le> r_created r"
  proof (clarify)
    fix k r
    assume "(k, r) \<in> set (packets d)"
    then have "map_of (packets d) k = Some r" using pk by (simp add: pkt_rel_def)
    then show "t0 \<le> r_created r"
      using pk[unfolded pkt_rel_def, THEN conjunct2, THEN spec, of k]
      by (auto simp: slot_rel_def split: option.splits if_splits)
  qed
  show "length (packets d) \<le> MAX_REASSEMBLIES"
    using pkt_rel_length [OF pk] assms(2) by (simp add: transmission_ok_def)
qed

lemma mset_eq_mset_setD:
  assumes "mset xs = mset_set A" and "finite A"
  shows "distinct xs" and "set xs = A"
proof -
  obtain ys where ys: "distinct ys" "set ys = A" using finite_distinct_list [OF assms(2)] by blast
  then have "mset xs = mset ys" using assms(1) mset_set_set by metis
  then show "distinct xs" "set xs = A"
    using ys mset_eq_imp_distinct_iff mset_eq_setD by blast+
qed

lemma delivered_at_mono:
  "S \<subseteq> {..<n + p} \<Longrightarrow> pos < n + p \<Longrightarrow> delivered_at n p S \<subseteq> delivered_at n p (insert pos S)"
  using enough_mono by (auto simp: delivered_at_def)

lemma newly_delivered:
  assumes "shards_at cw (delivered_at n p (insert pos S)) = shards_at cw (delivered_at n p S) + mset out"
    and "S \<subseteq> {..<n + p}" and "pos < n + p" and "inj_on (\<lambda>i. frag_key (cw ! i)) {..<n}"
  defines "new \<equiv> delivered_at n p (insert pos S) - delivered_at n p S"
  shows "distinct (map frag_key out)" and "set out = (!) cw ` new" and "new \<subseteq> {..<n}"
proof -
  note mono = delivered_at_mono [OF assms(2,3)]
  show sub: "new \<subseteq> {..<n}" by (auto simp: new_def delivered_at_def)
  have "delivered_at n p (insert pos S) = delivered_at n p S \<union> new" using mono by (auto simp: new_def)
  then have "shards_at cw (delivered_at n p (insert pos S)) = shards_at cw (delivered_at n p S) + shards_at cw new"
    by (simp only:) (rule shards_at_union; auto simp: new_def)
  then have out: "mset out = shards_at cw new" using assms(1) by simp
  have fin: "finite new" by (simp add: new_def)
  show "set out = (!) cw ` new"
    using arg_cong [OF out, of set_mset] fin by (simp add: shards_at_def)
  have "mset (map frag_key out) = image_mset (\<lambda>i. frag_key (cw ! i)) (mset_set new)"
    by (simp add: out shards_at_def image_mset.compositionality comp_def)
  also have "\<dots> = mset_set ((\<lambda>i. frag_key (cw ! i)) ` new)"
    using inj_on_subset [OF assms(4) sub] by (rule image_mset_mset_set)
  finally show "distinct (map frag_key out)" using fin by (intro mset_eq_mset_setD(1)) auto
qed

lemma transmission_group:
  assumes "transmission_ok rs G P" and "G g = Some (n, p, cw)"
  shows "codeword rs n p cw" and "0 < n" and "n \<le> 32" and "p \<le> 16" and "length cw = n + p"
    and "i < n + p \<Longrightarrow> FRAGMENT_HEADER \<le> length (cw ! i) \<and> length (cw ! i) \<le> SHARD"
    and "i < n \<Longrightarrow> carries P (cw ! i)" and "inj_on (\<lambda>i. frag_key (cw ! i)) {..<n}"
proof -
  have all: "codeword rs n p cw \<and> n \<le> 32 \<and> p \<le> 16 \<and>
        (\<forall>s \<in> set cw. FRAGMENT_HEADER \<le> length s \<and> length s \<le> SHARD) \<and> (\<forall>i < n. carries P (cw ! i))"
    using assms unfolding transmission_ok_def by blast
  then show "codeword rs n p cw" "0 < n" "n \<le> 32" "p \<le> 16" "length cw = n + p"
    "i < n + p \<Longrightarrow> FRAGMENT_HEADER \<le> length (cw ! i) \<and> length (cw ! i) \<le> SHARD"
    "i < n \<Longrightarrow> carries P (cw ! i)"
    by (auto simp: codeword_def)
  show "inj_on (\<lambda>i. frag_key (cw ! i)) {..<n}"
    using assms by (intro inj_onI) (auto simp: transmission_ok_def distinct_fragments_def)
qed

lemma delivered_keys_step:
  assumes "transmission_ok rs G P" and "G g = Some (n, p, cw)" and "R g \<subseteq> {..<n + p}" and "pos < n + p"
  defines "new \<equiv> delivered_at n p (insert pos (R g)) - delivered_at n p (R g)"
  shows "delivered_keys G (R(g := insert pos (R g))) = frag_key ` (!) cw ` new \<union> delivered_keys G R"
    and "frag_key ` (!) cw ` new \<inter> delivered_keys G R = {}"
proof -
  have split: "delivered_at n p (insert pos (R g)) = new \<union> delivered_at n p (R g)"
    using delivered_at_mono [OF assms(3,4)] by (auto simp: new_def)
  show "delivered_keys G (R(g := insert pos (R g))) = frag_key ` (!) cw ` new \<union> delivered_keys G R"
  proof (intro set_eqI iffI)
    fix k
    assume "k \<in> delivered_keys G (R(g := insert pos (R g)))"
    then obtain g' n' p' cw' i where k: "k = frag_key (cw' ! i)" "G g' = Some (n', p', cw')"
      "i \<in> delivered_at n' p' ((R(g := insert pos (R g))) g')"
      unfolding delivered_keys_def by blast
    show "k \<in> frag_key ` (!) cw ` new \<union> delivered_keys G R"
      using k split assms(2) by (cases "g' = g") (auto simp: delivered_keys_def)
  next
    fix k
    assume "k \<in> frag_key ` (!) cw ` new \<union> delivered_keys G R"
    then consider i where "k = frag_key (cw ! i)" "i \<in> new"
      | g' n' p' cw' i where "k = frag_key (cw' ! i)" "G g' = Some (n', p', cw')" "i \<in> delivered_at n' p' (R g')"
      unfolding delivered_keys_def by blast
    then show "k \<in> delivered_keys G (R(g := insert pos (R g)))"
    proof cases
      case 1
      then show ?thesis using assms(2) split unfolding delivered_keys_def by force
    next
      case 2
      then have "i \<in> delivered_at n' p' ((R(g := insert pos (R g))) g')"
        using split assms(2) by (cases "g' = g") auto
      with 2 show ?thesis unfolding delivered_keys_def by blast
    qed
  qed
  have inj: "distinct_fragments G" using assms(1) by (simp add: transmission_ok_def)
  show "frag_key ` (!) cw ` new \<inter> delivered_keys G R = {}"
  proof (rule ccontr)
    assume "frag_key ` (!) cw ` new \<inter> delivered_keys G R \<noteq> {}"
    then obtain i g' n' p' cw' i' where x: "i \<in> new" "frag_key (cw ! i) = frag_key (cw' ! i')"
      "G g' = Some (n', p', cw')" "i' \<in> delivered_at n' p' (R g')"
      unfolding delivered_keys_def by blast
    then have "i < n" "i' < n'" by (auto simp: new_def delivered_at_def)
    then have "g' = g \<and> i = i'" using x(2,3) assms(2) inj unfolding distinct_fragments_def by blast
    with x assms(2) show False by (auto simp: new_def)
  qed
qed

lemma grp_relD:
  assumes "grp_rel G t0 gs R" and "G g = Some (n, p, cw)" and "0 < n" and "n \<le> 32" and "p \<le> 16" and "t0 \<le> now"
  defines "gr \<equiv> case map_of gs g of None \<Rightarrow> new_group now n p | Some gr \<Rightarrow> gr"
  shows "t0 \<le> g_created gr" and "group_wf gr" and "group_rel gr n p cw (R g)"
proof -
  note rel = assms(1) [unfolded grp_rel_def, THEN conjunct2, THEN spec, of g]
  show "t0 \<le> g_created gr"
    using rel assms(2,6) by (auto simp: gr_def new_group_def split: option.splits)
  show "group_wf gr"
    using rel assms(2-5) by (auto simp: gr_def group_wf_new split: option.splits)
  show "group_rel gr n p cw (R g)"
    using rel assms(2,3) group_rel_new [of n now p cw] by (auto simp: gr_def split: option.splits)
qed

lemma grp_rel_update:
  assumes "grp_rel G t0 gs R" and "G g = Some (n, p, cw)" and "t0 \<le> g_created gr" and "group_wf gr"
    and "group_rel gr n p cw S" and "\<And>k. map_of gs' k = ((map_of gs)(g \<mapsto> gr)) k" and "distinct (keys gs')"
  shows "grp_rel G t0 gs' (R(g := S))"
  unfolding grp_rel_def
proof (intro conjI allI)
  fix k
  show "case G k of None \<Rightarrow> map_of gs' k = None
        | Some (n, p, cw) \<Rightarrow> (case map_of gs' k of None \<Rightarrow> (R(g := S)) k = {}
            | Some gr \<Rightarrow> t0 \<le> g_created gr \<and> group_wf gr \<and> group_rel gr n p cw ((R(g := S)) k))"
    using assms(1) [unfolded grp_rel_def, THEN conjunct2, THEN spec, of k] assms(2-5) assms(6) [of k]
    by (cases "k = g") (auto split: option.splits)
qed fact

lemma file_shard_step:
  assumes rel: "dec_rel G P t0 d R" and ok: "transmission_ok rs G P" and shape: "rs_shape rs"
    and f: "frame_of G f" and now: "\<forall>k. t0 \<le> now k \<and> now k < t0 + GROUP_TTL"
  defines "R' \<equiv> R(group f := insert (unat (index f)) (R (group f)))"
  shows "\<exists>gs ps out. file_shard rs now d f = (d\<lparr>groups := gs, packets := ps\<rparr>, Inr out) \<and>
     dec_rel G P t0 (d\<lparr>groups := gs, packets := ps\<rparr>) R' \<and>
     datagrams P (completed P (delivered_keys G R')) = datagrams P (completed P (delivered_keys G R)) + mset out"
proof -
  obtain n p cw where G: "G (group f) = Some (n, p, cw)" and dim: "unat (data f) = n" "unat (parity f) = p"
    and pos: "unat (index f) < n + p" and pl: "payload f = cw ! unat (index f)"
    using f by (auto simp: frame_of_def)
  note tr = transmission_group [OF ok G]
  have rel': "grp_rel G t0 (groups d) R" "pkt_rel P t0 (packets d) (delivered_keys G R)"
    using rel by (simp_all add: dec_rel_def)
  define gr where "gr = (case map_of (groups d) (group f) of None \<Rightarrow> new_group (now 1) n p | Some g \<Rightarrow> g)"
  have gr: "t0 \<le> g_created gr" "group_wf gr" "group_rel gr n p cw (R (group f))"
    using grp_relD [OF rel'(1) G tr(2-4), of "now 1"] now by (simp_all add: gr_def)
  then have gd: "g_data gr = n" "g_parity gr = p" "R (group f) \<subseteq> {..<n + p}" by (simp_all add: group_rel_def)
  obtain g' ss where acc: "group_accept rs gr (unat (index f)) (cw ! unat (index f)) = (g', Inr ss)"
    "group_rel g' n p cw (insert (unat (index f)) (R (group f)))" "g_created g' = g_created gr"
    "shards_at cw (delivered_at n p (insert (unat (index f)) (R (group f)))) =
       shards_at cw (delivered_at n p (R (group f))) + mset ss"
    by (rule group_accept_step [OF gr(3) pos tr(1) gr(2) shape])
  have g'wf: "group_wf g'" using group_accept_wf [OF gr(2) _ shape acc(1)] pos gd by simp
  note new = newly_delivered [OF acc(4) gd(3) pos tr(8)]
  note dk = delivered_keys_step [where R = R, OF ok G gd(3) pos]
  let ?gs = "AList.update (group f) g' (AList.update (group f) gr (groups d))"
  have "grp_rel G t0 ?gs R'"
    unfolding R'_def using gr(1) acc(2,3) g'wf rel'(1)
    by (intro grp_rel_update [OF rel'(1) G]) (auto simp: map_of_alist_update AList.distinct_update grp_rel_def)
  moreover obtain k ps out where del: "deliver now 2 (d\<lparr>groups := ?gs\<rparr>) ss = Inr (k, d\<lparr>groups := ?gs, packets := ps\<rparr>, out)"
    "pkt_rel P t0 ps (frag_key ` set ss \<union> delivered_keys G R)"
    "datagrams P (completed P (frag_key ` set ss \<union> delivered_keys G R)) =
       datagrams P (completed P (delivered_keys G R)) + mset out"
  proof -
    have "\<forall>s \<in> set ss. carries P s" using new(2,3) tr(7) by auto
    moreover have "frag_key ` set ss \<inter> delivered_keys G R = {}" using dk(2) new(2) by simp
    ultimately show ?thesis
      using deliver_step [of P t0 "d\<lparr>groups := ?gs\<rparr>" "delivered_keys G R" ss now 2] rel'(2) new(1) now ok that
      by (auto simp: transmission_ok_def)
  qed
  ultimately have rel2: "dec_rel G P t0 (d\<lparr>groups := ?gs, packets := ps\<rparr>) R'"
    using dk(1) new(2) by (simp add: dec_rel_def R'_def)
  have "file_shard rs now d f = (prune (now k) (d\<lparr>groups := ?gs, packets := ps\<rparr>), Inr out)"
    unfolding file_shard_def dim pl gr_def [symmetric] Let_def using gd acc(1) del(1) by simp
  also have "\<dots> = (d\<lparr>groups := ?gs, packets := ps\<rparr>, Inr out)"
    using dec_rel_prune [OF rel2 ok] now by simp
  finally show ?thesis
    using rel2 del(3) dk(1) new(2) by (intro exI [of _ ?gs] exI [of _ ps] exI [of _ out]) (simp add: R'_def)
qed

lemma observe_new:
  assumes "\<not> fresh_window w" and "q \<notin> spent_sequences w"
  shows "snd (observe_seq w q)" and "\<not> fresh_window (fst (observe_seq w q))"
    and "spent_sequences (fst (observe_seq w q)) = insert q (spent_sequences w)"
  using assms by (auto simp: observe_started spent_sequences_def fresh_window_def)

lemma window_tables [simp]:
  "fresh_window (d\<lparr>groups := gs, packets := ps\<rparr>) = fresh_window d"
  "spent_sequences (d\<lparr>groups := gs, packets := ps\<rparr>) = spent_sequences d"
  by (simp_all add: fresh_window_def spent_sequences_def)

lemma decoder_frame_step:
  assumes rel: "dec_rel G P t0 d R" and ok: "transmission_ok rs G P" and shape: "rs_shape rs"
    and f: "frame_of G f" "d_session d = session f" and win: "\<not> fresh_window d" "sequence f \<notin> spent_sequences d"
    and now: "\<forall>k. t0 \<le> now k \<and> now k < t0 + GROUP_TTL"
  defines "R' \<equiv> R(group f := insert (unat (index f)) (R (group f)))"
  shows "\<exists>d' out. decoder_frame rs now d f = (d', Inr out) \<and> dec_rel G P t0 d' R' \<and>
     d_session d' = d_session d \<and> \<not> fresh_window d' \<and>
     spent_sequences d' = insert (sequence f) (spent_sequences d) \<and>
     datagrams P (completed P (delivered_keys G R')) = datagrams P (completed P (delivered_keys G R)) + mset out"
proof -
  let ?d1 = "fst (observe_seq d (sequence f))"
  obtain n p cw where G: "G (group f) = Some (n, p, cw)" and dim: "unat (data f) = n" "unat (parity f) = p"
    and pos: "unat (index f) < n + p" and pl: "payload f = cw ! unat (index f)"
    and kind: "kind f = KIND_DATA \<or> kind f = KIND_PARITY"
    using f(1) by (auto simp: frame_of_def)
  note tr = transmission_group [OF ok G] and obs = observe_new [OF win]
  have dims: "frame_dims_ok f"
    using tr(2-4) tr(6) [OF pos] dim pos pl by (auto simp: frame_dims_ok_def)
  have rel1: "dec_rel G P t0 ?d1 R" using rel by (simp add: dec_rel_def)
  have pr: "prune (now 0) ?d1 = ?d1" using dec_rel_prune [OF rel1 ok] now by blast
  have room: "\<not> (map_of (groups ?d1) (group f) = None \<and> length (groups ?d1) \<ge> MAX_GROUPS)"
    using grp_rel_length(2) [of G t0 "groups ?d1" R "group f"] rel1 ok G by (auto simp: dec_rel_def transmission_ok_def)
  have "decoder_frame rs now d f = file_shard rs now ?d1 f"
    using f(2) obs(1) kind dims room
    by (auto simp: decoder_frame_cases Let_def pr KIND_DATA_def KIND_PARITY_def KIND_REPORT_def)
  moreover obtain gs ps out where "file_shard rs now ?d1 f = (?d1\<lparr>groups := gs, packets := ps\<rparr>, Inr out)"
    "dec_rel G P t0 (?d1\<lparr>groups := gs, packets := ps\<rparr>) R'"
    "datagrams P (completed P (delivered_keys G R')) = datagrams P (completed P (delivered_keys G R)) + mset out"
    using file_shard_step [OF rel1 ok shape f(1) now] unfolding R'_def by blast
  ultimately show ?thesis
    using obs(2,3) by (intro exI [of _ "?d1\<lparr>groups := gs, packets := ps\<rparr>"] exI [of _ out]) simp
qed

section \<open>Runs of the decoder\<close>

text \<open>Frames are handled one after the other; each call of \<open>frame\<close> reads its own clock.\<close>

fun decoder_run ::
  "rs_code \<Rightarrow> decoder \<Rightarrow> ((nat \<Rightarrow> instant) \<times> frame) list \<Rightarrow> decoder \<times> bytes list result list" where
  "decoder_run rs d [] = (d, [])"
| "decoder_run rs d ((now, f) # xs) =
     (let (d1, r) = decoder_frame rs now d f; (d2, out) = decoder_run rs d1 xs in (d2, r # out))"

definition positions_received :: "(u64 \<Rightarrow> nat set) \<Rightarrow> frame list \<Rightarrow> u64 \<Rightarrow> nat set" where
  "positions_received R fs g = R g \<union> {unat (index f) | f. f \<in> set fs \<and> group f = g}"

lemma positions_received_Cons:
  "positions_received R (f # fs) = positions_received (R(group f := insert (unat (index f)) (R (group f)))) fs"
  by (rule ext) (auto simp: positions_received_def)

lemma decoder_run_sound:
  assumes "dec_rel G P t0 d R" and "transmission_ok rs G P" and "rs_shape rs" and "\<not> fresh_window d"
    and "\<forall>(now, f) \<in> set xs. frame_of G f \<and> session f = d_session d \<and> sequence f \<notin> spent_sequences d \<and>
      (\<forall>k. t0 \<le> now k \<and> now k < t0 + GROUP_TTL)"
    and "distinct (map (sequence \<circ> snd) xs)"
  shows "\<exists>d' outs. decoder_run rs d xs = (d', map Inr outs) \<and>
     datagrams P (completed P (delivered_keys G (positions_received R (map snd xs)))) =
       datagrams P (completed P (delivered_keys G R)) + mset (concat outs)"
  using assms
proof (induction xs arbitrary: d R)
  case Nil
  have "positions_received R [] = R" by (rule ext) (simp add: positions_received_def)
  then show ?case by (simp add: exI [of _ "[]"])
next
  case (Cons x xs)
  obtain now f where x: "x = (now, f)" by fastforce
  let ?R = "R(group f := insert (unat (index f)) (R (group f)))"
  obtain d1 out where step: "decoder_frame rs now d f = (d1, Inr out)" "dec_rel G P t0 d1 ?R"
    "d_session d1 = d_session d" "\<not> fresh_window d1"
    "spent_sequences d1 = insert (sequence f) (spent_sequences d)"
    "datagrams P (completed P (delivered_keys G ?R)) = datagrams P (completed P (delivered_keys G R)) + mset out"
    using decoder_frame_step [OF Cons.prems(1-3) _ _ Cons.prems(4), of f now] Cons.prems(5) x by auto
  have "\<exists>d' outs. decoder_run rs d1 xs = (d', map Inr outs) \<and>
     datagrams P (completed P (delivered_keys G (positions_received ?R (map snd xs)))) =
       datagrams P (completed P (delivered_keys G ?R)) + mset (concat outs)"
  proof (rule Cons.IH [OF step(2) Cons.prems(2,3) step(4)])
    show "\<forall>(now, f) \<in> set xs. frame_of G f \<and> session f = d_session d1 \<and> sequence f \<notin> spent_sequences d1 \<and>
        (\<forall>k. t0 \<le> now k \<and> now k < t0 + GROUP_TTL)"
      using Cons.prems(5,6) step(3,5) x by (auto simp: image_iff)
    show "distinct (map (sequence \<circ> snd) xs)" using Cons.prems(6) by (simp add: comp_def)
  qed
  then obtain d' outs where "decoder_run rs d1 xs = (d', map Inr outs)"
    "datagrams P (completed P (delivered_keys G (positions_received ?R (map snd xs)))) =
       datagrams P (completed P (delivered_keys G ?R)) + mset (concat outs)"
    by blast
  with step x show ?case
    by (intro exI [of _ d'] exI [of _ "out # outs"]) (simp add: positions_received_Cons)
qed

section \<open>The transmission of a burst\<close>

lemma frag_make_shard:
  "frag_packet (make_shard pid idx cnt c @ zs) = pid"
  "idx < 65536 \<Longrightarrow> frag_idx (make_shard pid idx cnt c @ zs) = idx"
  "cnt < 65536 \<Longrightarrow> frag_count (make_shard pid idx cnt c @ zs) = cnt"
  "length c \<le> CHUNK \<Longrightarrow> frag_len (make_shard pid idx cnt c @ zs) = length c"
  "length c \<le> CHUNK \<Longrightarrow> frag_part (make_shard pid idx cnt c @ zs) = c"
  by (simp_all add: frag_packet_def frag_idx_def frag_count_def frag_len_def frag_part_def make_shard_def
      shard_consts list_layout)

lemma of_nat_u64_inj: "i < 2 ^ 64 \<Longrightarrow> j < 2 ^ 64 \<Longrightarrow> (of_nat i :: u64) = of_nat j \<longleftrightarrow> i = j"
  by (auto simp: word_unat_eq_iff unat_of_nat)

lemma nth_concat_unique:
  "distinct (concat xss) \<Longrightarrow> k < length xss \<Longrightarrow> i < length (xss ! k) \<Longrightarrow> k' < length xss \<Longrightarrow> i' < length (xss ! k') \<Longrightarrow>
   xss ! k ! i = xss ! k' ! i' \<Longrightarrow> k = k' \<and> i = i'"
proof (induction xss arbitrary: k k')
  case Nil
  then show ?case by simp
next
  case (Cons xs xss)
  have no: "xs ! a \<noteq> xss ! j ! l" if "a < length xs" "j < length xss" "l < length (xss ! j)" for a j l
    using that Cons.prems(1) by (auto simp: disjoint_iff) (metis nth_mem)
  show ?case
    using Cons.prems no Cons.IH [of "k - 1" "k' - 1"]
    by (cases k; cases k') (auto simp: nth_eq_iff_index_eq, (metis)+)
qed

definition burst_packets :: "u64 \<Rightarrow> bytes list \<Rightarrow> u64 \<rightharpoonup> bytes list" where
  "burst_packets pid pls = map_of (map (\<lambda>k. (pid + of_nat k, datagram_chunks (pls ! k))) [0..<length pls])"

lemma burst_packets_at:
  assumes "length pls < 2 ^ 64" and "k < length pls"
  shows "burst_packets pid pls (pid + of_nat k) = Some (datagram_chunks (pls ! k))"
proof -
  have "inj_on (\<lambda>k. pid + of_nat k) {0..<length pls}"
  proof (rule inj_onI)
    fix i j
    assume ij: "i \<in> {0..<length pls}" "j \<in> {0..<length pls}" "pid + of_nat i = pid + of_nat j"
    then have "i < 2 ^ 64" "j < 2 ^ 64" using assms(1) by simp_all
    then show "i = j" using of_nat_u64_inj ij(3) by simp
  qed
  then have "distinct (keys (map (\<lambda>k. (pid + of_nat k, datagram_chunks (pls ! k))) [0..<length pls]))"
    by (simp add: comp_def distinct_map)
  then show ?thesis
    unfolding burst_packets_def using assms(2) by (intro map_of_is_SomeI) auto
qed

lemma burst_packets_SomeD:
  "burst_packets pid pls q = Some parts \<Longrightarrow> \<exists>k < length pls. q = pid + of_nat k \<and> parts = datagram_chunks (pls ! k)"
  unfolding burst_packets_def by (drule map_of_SomeD) force

lemma dom_burst_packets: "dom (burst_packets pid pls) = (\<lambda>k. pid + of_nat k) ` {..<length pls}"
  unfolding burst_packets_def dom_map_of_conv_image_fst by force

lemma in_burst_fragments:
  "s \<in> set (burst_fragments pid pls) \<longleftrightarrow> (\<exists>k < length pls. \<exists>j < length (datagram_chunks (pls ! k)).
     s = make_shard (pid + of_nat k) j (length (datagram_chunks (pls ! k))) (datagram_chunks (pls ! k) ! j))"
proof (induction pls arbitrary: pid)
  case Nil
  then show ?case by simp
next
  case (Cons pl pls)
  have "s \<in> set (fragments pid (length (datagram_chunks pl)) 0 (datagram_chunks pl)) \<longleftrightarrow>
      (\<exists>j < length (datagram_chunks pl). s = make_shard pid j (length (datagram_chunks pl)) (datagram_chunks pl ! j))"
    by (force simp: fragments_def in_set_enumerate_eq)
  then show ?case
    by (simp add: Cons.IH Ex_less_Suc2 add.assoc)
qed

lemma burst_fragment_carries:
  assumes "length pls < 2 ^ 64" and "\<forall>pl \<in> set pls. length pl \<le> 65535" and "s \<in> set (burst_fragments pid pls)"
    and "length (s @ zs) \<le> SHARD"
  shows "carries (burst_packets pid pls) (s @ zs)" and "frag_key (s @ zs) = frag_key s"
proof -
  obtain k j where k: "k < length pls" "j < length (datagram_chunks (pls ! k))" and
    s: "s = make_shard (pid + of_nat k) j (length (datagram_chunks (pls ! k))) (datagram_chunks (pls ! k) ! j)"
    using assms(3) unfolding in_burst_fragments by blast
  have cnt: "length (datagram_chunks (pls ! k)) \<le> 50" "length (datagram_chunks (pls ! k) ! j) \<le> CHUNK"
    using datagram_chunks_count [of "pls ! k"] datagram_chunks_props(2) [OF nth_mem [OF k(2)]]
      assms(2) k(1) by auto
  then have idx: "j < 65536" "length (datagram_chunks (pls ! k)) < 65536" using k(2) by linarith+
  note fm = frag_make_shard(1) frag_make_shard(2) [OF idx(1)] frag_make_shard(3) [OF idx(2)]
    frag_make_shard(4,5) [OF cnt(2)]
  show "frag_key (s @ zs) = frag_key s"
    using fm [where zs = zs] fm [where zs = "[]"] by (simp add: frag_key_def s)
  show "carries (burst_packets pid pls) (s @ zs)"
    using burst_packets_at [OF assms(1) k(1)] cnt k(2) assms(4)
    by (auto simp: carries_def frag_ok_def s fm FRAGMENT_HEADER_def)
qed

lemma burst_fragments_distinct:
  assumes "length pls < 2 ^ 64" and "\<forall>pl \<in> set pls. length pl \<le> 65535"
  shows "distinct (map frag_key (burst_fragments pid pls))"
  using assms
proof (induction pls arbitrary: pid)
  case Nil
  then show ?case by simp
next
  case (Cons pl pls)
  let ?cs = "datagram_chunks pl" and ?fr = "fragments pid (length (datagram_chunks pl)) 0 (datagram_chunks pl)"
  have cnt: "length ?cs \<le> 50" using Cons.prems by (intro datagram_chunks_count) simp
  have key: "frag_key (make_shard q j n c) = (q, j)" if "j < 65536" for q j n c
    using frag_make_shard(1,2) [where zs = "[]"] that by (simp add: frag_key_def)
  have fr: "map frag_key ?fr = map (Pair pid) [0..<length ?cs]"
    using cnt by (intro nth_equalityI) (simp_all add: fragments_def nth_enumerate_eq key)
  have "frag_key s \<noteq> (pid, j)" if s': "s \<in> set (burst_fragments (pid + 1) pls)" for s j
  proof -
    obtain k i where k: "k < length pls" "i < length (datagram_chunks (pls ! k))" and
      s: "s = make_shard (pid + 1 + of_nat k) i (length (datagram_chunks (pls ! k))) (datagram_chunks (pls ! k) ! i)"
      using s' unfolding in_burst_fragments by blast
    have "length (datagram_chunks (pls ! k)) \<le> 50" using Cons.prems(2) k(1) by (intro datagram_chunks_count) auto
    with k(2) have "frag_key s = (pid + of_nat (Suc k), i)" by (simp add: s key add.assoc)
    moreover have "(of_nat (Suc k) :: u64) \<noteq> of_nat 0"
      using k(1) Cons.prems(1) by (subst of_nat_u64_inj) auto
    ultimately show ?thesis by simp
  qed
  then have "set (map frag_key ?fr) \<inter> set (map frag_key (burst_fragments (pid + 1) pls)) = {}"
    unfolding fr by (auto simp: disjoint_iff) metis
  moreover have "distinct (map frag_key (burst_fragments (pid + 1) pls))" using Cons by simp
  moreover have "distinct (map frag_key ?fr)" unfolding fr by (simp add: distinct_map inj_on_def)
  ultimately show ?case by simp
qed

definition log_groups :: "(encoder \<times> bytes list) list \<Rightarrow> group_map" where
  "log_groups L = map_of (map (\<lambda>(s, cw).
     (en_group s, (length (en_shards s), flush_parity s (length (en_shards s)), cw))) L)"

lemma group_log_nth:
  assumes "group_log rs e new L fs e'" and "k < length L"
  shows "en_group (fst (L ! k)) = en_group e + of_nat k" and "en_session (fst (L ! k)) = en_session e"
    and "encoder_params_ok (fst (L ! k))" and "en_shards (fst (L ! k)) \<noteq> []"
    and "length (en_shards (fst (L ! k))) \<le> DATA_SHARDS" and "\<forall>x \<in> set (en_shards (fst (L ! k))). proper_shard x"
    and "group_code rs (fst (L ! k)) (snd (L ! k))"
  using assms by (cases "L ! k"; simp add: group_log_def; metis logged.simps)+

lemma log_groups_at:
  assumes "group_log rs e new L fs e'" and "length L < 2 ^ 64" and "k < length L"
  shows "log_groups L (en_group e + of_nat k) = Some (length (en_shards (fst (L ! k))),
     flush_parity (fst (L ! k)) (length (en_shards (fst (L ! k)))), snd (L ! k))"
proof -
  let ?m = "map (\<lambda>(s, cw). (en_group s, (length (en_shards s), flush_parity s (length (en_shards s)), cw))) L"
  have "keys ?m = map (\<lambda>k. en_group e + of_nat k) [0..<length L]"
    using group_log_nth(1) [OF assms(1)] by (intro nth_equalityI) (simp_all add: case_prod_beta)
  moreover have "inj_on (\<lambda>k. en_group e + of_nat k) {0..<length L}"
  proof (rule inj_onI)
    fix i j
    assume ij: "i \<in> {0..<length L}" "j \<in> {0..<length L}" "en_group e + of_nat i = en_group e + of_nat j"
    then have "i < 2 ^ 64" "j < 2 ^ 64" using assms(2) by simp_all
    then show "i = j" using of_nat_u64_inj ij(3) by simp
  qed
  ultimately have "distinct (keys ?m)" by (simp only:) (simp add: distinct_map)
  moreover have "?m ! k \<in> set ?m" using assms(3) by (intro nth_mem) simp
  then have "(en_group e + of_nat k, (length (en_shards (fst (L ! k))),
      flush_parity (fst (L ! k)) (length (en_shards (fst (L ! k)))), snd (L ! k))) \<in> set ?m"
    using group_log_nth(1) [OF assms(1,3)] assms(3) by (simp add: case_prod_beta)
  ultimately show ?thesis unfolding log_groups_def by (intro map_of_is_SomeI)
qed

lemma log_groups_SomeD:
  assumes "group_log rs e new L fs e'" and "length L < 2 ^ 64" and "log_groups L g = Some x"
  obtains k where "k < length L" and "g = en_group e + of_nat k"
    and "x = (length (en_shards (fst (L ! k))), flush_parity (fst (L ! k)) (length (en_shards (fst (L ! k)))), snd (L ! k))"
proof -
  have "(g, x) \<in> set (map (\<lambda>(s, cw). (en_group s, (length (en_shards s), flush_parity s (length (en_shards s)), cw))) L)"
    using assms(3) unfolding log_groups_def by (rule map_of_SomeD)
  then obtain s cw where "(s, cw) \<in> set L" and
    gx: "g = en_group s" "x = (length (en_shards s), flush_parity s (length (en_shards s)), cw)"
    by auto
  then obtain k where k: "k < length L" "L ! k = (s, cw)" by (metis in_set_conv_nth)
  show ?thesis
    using that [of k] k gx group_log_nth(1) [OF assms(1) k(1)] by simp
qed

lemma group_code_data:
  assumes "group_code rs s cw" and "i < length (en_shards s)"
  obtains zs where "cw ! i = en_shards s ! i @ zs" and "length (en_shards s ! i @ zs) \<le> SHARD"
proof -
  obtain ps where cw: "cw = padded_shards s @ ps" and len: "\<forall>x \<in> set cw. length x \<le> SHARD"
    using assms(1) by (auto simp: group_code_def Let_def)
  have i: "cw ! i = padded_shards s ! i" using assms(2) by (simp add: cw nth_append)
  have "length (en_shards s ! i) \<le> group_len s"
    unfolding group_len_def using assms(2) by (intro fold_max_ge) auto
  then have "\<exists>zs. padded_shards s ! i = en_shards s ! i @ zs"
    using assms(2) by (auto simp: padded_shards_def resize_def)
  then obtain zs where "cw ! i = en_shards s ! i @ zs" using i by auto
  moreover have "cw ! i \<in> set cw" using assms(2) by (intro nth_mem) (simp add: cw)
  then have "length (cw ! i) \<le> SHARD" using len by blast
  ultimately show ?thesis using that by simp
qed

lemma group_code_codeword:
  assumes "group_code rs s cw" and "en_shards s \<noteq> []"
  shows "codeword rs (length (en_shards s)) (flush_parity s (length (en_shards s))) cw"
    and "x \<in> set cw \<Longrightarrow> FRAGMENT_HEADER \<le> length x \<and> length x \<le> SHARD"
  using assms by (auto simp: group_code_def codeword_def Let_def)

text \<open>\<open>burst_log\<close>: the burst of datagrams \<open>pls\<close>, first packet number \<open>pid\<close>, was sent
  as the groups \<open>L\<close> with nothing pending before and after.\<close>

definition burst_log ::
  "rs_code \<Rightarrow> encoder \<Rightarrow> u64 \<Rightarrow> bytes list \<Rightarrow> (encoder \<times> bytes list) list \<Rightarrow> frame list \<Rightarrow> bool" where
  "burst_log rs e pid pls L fs \<longleftrightarrow> (\<exists>e'. group_log rs e (burst_fragments pid pls) L fs e' \<and> en_shards e' = []) \<and>
     en_shards e = [] \<and> (\<forall>pl \<in> set pls. length pl \<le> 65535) \<and>
     length L \<le> MAX_GROUPS \<and> length pls \<le> MAX_REASSEMBLIES"

lemma burst_bounds:
  assumes "burst_log rs e pid pls L fs"
  shows "length L < 2 ^ 64" and "length pls < 2 ^ 64"
  using assms by (simp_all add: burst_log_def MAX_GROUPS_def MAX_REASSEMBLIES_def)

lemma burst_logD:
  assumes "burst_log rs e pid pls L fs"
  obtains e' where "group_log rs e (burst_fragments pid pls) L fs e'"
    and "concat (map (en_shards \<circ> fst) L) = burst_fragments pid pls"
    and "\<forall>pl \<in> set pls. length pl \<le> 65535" and "length L \<le> MAX_GROUPS" and "length pls \<le> MAX_REASSEMBLIES"
  using assms by (auto simp: burst_log_def group_log_def)

lemma shard_in_burst:
  assumes "concat (map (en_shards \<circ> fst) L) = fr" and "k < length L" and "i < length (en_shards (fst (L ! k)))"
  shows "en_shards (fst (L ! k)) ! i \<in> set fr"
  using assms by (auto intro!: bexI [of _ "L ! k"])

lemma data_shard:
  assumes burst: "burst_log rs e pid pls L fs" and "k < length L" and "i < length (en_shards (fst (L ! k)))"
  shows "carries (burst_packets pid pls) (snd (L ! k) ! i)"
    and "frag_key (snd (L ! k) ! i) = frag_key (en_shards (fst (L ! k)) ! i)"
proof -
  obtain e' where log: "group_log rs e (burst_fragments pid pls) L fs e'"
    and sh: "concat (map (en_shards \<circ> fst) L) = burst_fragments pid pls" and sizes: "\<forall>pl \<in> set pls. length pl \<le> 65535"
    by (rule burst_logD [OF burst])
  obtain zs where "snd (L ! k) ! i = en_shards (fst (L ! k)) ! i @ zs" "length (en_shards (fst (L ! k)) ! i @ zs) \<le> SHARD"
    by (rule group_code_data [OF group_log_nth(7) [OF log assms(2)] assms(3)])
  with burst_fragment_carries [OF burst_bounds(2) [OF burst] sizes shard_in_burst [OF sh assms(2,3)], of zs]
  show "carries (burst_packets pid pls) (snd (L ! k) ! i)"
    and "frag_key (snd (L ! k) ! i) = frag_key (en_shards (fst (L ! k)) ! i)"
    by simp_all
qed

lemma burst_distinct:
  assumes burst: "burst_log rs e pid pls L fs"
  shows "distinct_fragments (log_groups L)"
  unfolding distinct_fragments_def
proof (clarify)
  obtain e' where log: "group_log rs e (burst_fragments pid pls) L fs e'"
    and sh: "concat (map (en_shards \<circ> fst) L) = burst_fragments pid pls" and sizes: "\<forall>pl \<in> set pls. length pl \<le> 65535"
    by (rule burst_logD [OF burst])
  fix g n p cw i g' n' p' cw' i'
  assume g: "log_groups L g = Some (n, p, cw)" "i < n" and g': "log_groups L g' = Some (n', p', cw')" "i' < n'"
    and eq: "frag_key (cw ! i) = frag_key (cw' ! i')"
  obtain k where k: "k < length L" "g = en_group e + of_nat k" "n = length (en_shards (fst (L ! k)))" "cw = snd (L ! k)"
    using log_groups_SomeD [OF log burst_bounds(1) [OF burst] g(1)] by blast
  obtain k' where k': "k' < length L" "g' = en_group e + of_nat k'" "n' = length (en_shards (fst (L ! k')))" "cw' = snd (L ! k')"
    using log_groups_SomeD [OF log burst_bounds(1) [OF burst] g'(1)] by blast
  let ?xss = "map (\<lambda>x. map frag_key (en_shards (fst x))) L"
  have "concat ?xss = map frag_key (burst_fragments pid pls)"
    unfolding sh [symmetric] by (simp add: map_concat comp_def)
  then have "distinct (concat ?xss)" using burst_fragments_distinct [OF burst_bounds(2) [OF burst] sizes] by simp
  moreover have "?xss ! k ! i = ?xss ! k' ! i'"
    using eq data_shard(2) [OF burst] k k' g(2) g'(2) by simp
  ultimately have "k = k' \<and> i = i'" using k k' g(2) g'(2) by (intro nth_concat_unique) auto
  then show "g = g' \<and> i = i'" using k k' by simp
qed

lemma burst_transmission:
  assumes burst: "burst_log rs e pid pls L fs"
  shows "transmission_ok rs (log_groups L) (burst_packets pid pls)"
proof -
  obtain e' where log: "group_log rs e (burst_fragments pid pls) L fs e'"
    and few: "length L \<le> MAX_GROUPS" "length pls \<le> MAX_REASSEMBLIES"
    by (rule burst_logD [OF burst])
  have G: "codeword rs n p cw \<and> n \<le> 32 \<and> p \<le> 16 \<and> (\<forall>s \<in> set cw. FRAGMENT_HEADER \<le> length s \<and> length s \<le> SHARD) \<and>
      (\<forall>i < n. carries (burst_packets pid pls) (cw ! i))" if gx: "log_groups L g = Some (n, p, cw)" for g n p cw
  proof -
    obtain k where k: "k < length L" "n = length (en_shards (fst (L ! k)))"
      "p = flush_parity (fst (L ! k)) n" "cw = snd (L ! k)"
      using log_groups_SomeD [OF log burst_bounds(1) [OF burst] gx] by blast
    note nth = group_log_nth [OF log k(1)]
    have "p \<le> MAX_PARITY" using k(3) by (simp add: flush_parity_def)
    then show ?thesis
      using group_code_codeword [OF nth(7,4)] data_shard(1) [OF burst k(1)] k nth(5)
      by (auto simp: DATA_SHARDS_def MAX_PARITY_def)
  qed
  have "finite (dom (log_groups L))" "card (dom (log_groups L)) \<le> MAX_GROUPS"
  proof -
    show "finite (dom (log_groups L))" by (simp add: log_groups_def finite_dom_map_of)
    have "dom (log_groups L) = (en_group \<circ> fst) ` set L"
      unfolding log_groups_def dom_map_of_conv_image_fst by force
    then show "card (dom (log_groups L)) \<le> MAX_GROUPS"
      using few(1) card_image_le [of "set L" "en_group \<circ> fst"] card_length [of L] by simp
  qed
  moreover have "card (dom (burst_packets pid pls)) \<le> MAX_REASSEMBLIES"
    unfolding dom_burst_packets using few(2) card_image_le [of "{..<length pls}" "\<lambda>k. pid + of_nat k"] by simp
  moreover have "finite (dom (burst_packets pid pls))" by (simp add: dom_burst_packets)
  ultimately show ?thesis using G burst_distinct [OF burst] unfolding transmission_ok_def by blast
qed

text \<open>The frames of a burst are the frames of its transmission, one per group and position.\<close>

lemma burst_frame:
  assumes burst: "burst_log rs e pid pls L fs" and f: "f \<in> set fs"
  obtains k i n p where "k < length L" and "i < n + p" and "n + p < 256"
    and "log_groups L (en_group e + of_nat k) = Some (n, p, snd (L ! k))"
    and "f = shard_frame (fst (L ! k)) (if i < n then KIND_DATA else KIND_PARITY) n p i (snd (L ! k) ! i)"
    and "group f = en_group e + of_nat k" and "session f = en_session e"
    and "unat (index f) = i" and "unat (data f) = n" and "unat (parity f) = p"
proof -
  obtain e' where log: "group_log rs e (burst_fragments pid pls) L fs e'" by (rule burst_logD [OF burst])
  have "fs = concat (map (\<lambda>(s, cw). group_frames s cw) L)" using log by (simp add: group_log_def)
  then obtain s cw where "(s, cw) \<in> set L" and fg: "f \<in> set (group_frames s cw)" using f by auto
  then obtain k where k: "k < length L" "L ! k = (s, cw)" by (metis in_set_conv_nth)
  let ?n = "length (en_shards s)" and ?p = "flush_parity s (length (en_shards s))"
  have np: "?n \<le> DATA_SHARDS" "?p \<le> MAX_PARITY"
    using group_log_nth(5) [OF log k(1)] k(2) by (simp_all add: flush_parity_def)
  then have lt: "?n + ?p < 256" by (simp add: DATA_SHARDS_def MAX_PARITY_def)
  obtain i where i: "i < ?n + ?p"
    and fi: "f = shard_frame s (if i < ?n then KIND_DATA else KIND_PARITY) ?n ?p i (cw ! i)"
    using fg by (auto simp: group_frames_def Let_def)
  have "group f = en_group e + of_nat k" "session f = en_session e"
    using group_log_nth(1,2) [OF log k(1)] k(2) by (simp_all add: fi shard_frame_def)
  moreover have "unat (index f) = i" "unat (data f) = ?n" "unat (parity f) = ?p"
    using i lt by (simp_all add: fi shard_frame_def)
  moreover have "log_groups L (en_group e + of_nat k) = Some (?n, ?p, snd (L ! k))"
    using log_groups_at [OF log burst_bounds(1) [OF burst] k(1)] k(2) by simp
  ultimately show ?thesis using that [of k i ?n ?p] k i lt fi by simp
qed

lemma burst_frame_of:
  assumes "burst_log rs e pid pls L fs" and "f \<in> set fs"
  shows "frame_of (log_groups L) f" and "session f = en_session e"
proof -
  obtain k i n p where "i < n + p" "log_groups L (en_group e + of_nat k) = Some (n, p, snd (L ! k))"
    "f = shard_frame (fst (L ! k)) (if i < n then KIND_DATA else KIND_PARITY) n p i (snd (L ! k) ! i)"
    "group f = en_group e + of_nat k" "session f = en_session e"
    "unat (index f) = i" "unat (data f) = n" "unat (parity f) = p"
    by (rule burst_frame [OF assms])
  then show "frame_of (log_groups L) f" and "session f = en_session e"
    by (auto simp: frame_of_def shard_frame_def)
qed

lemma burst_frame_inj:
  assumes burst: "burst_log rs e pid pls L fs" and "f \<in> set fs" and "h \<in> set fs"
    and "group f = group h" and "index f = index h"
  shows "f = h"
proof -
  obtain k i n p where f: "k < length L" "i < n + p" "log_groups L (en_group e + of_nat k) = Some (n, p, snd (L ! k))"
    "f = shard_frame (fst (L ! k)) (if i < n then KIND_DATA else KIND_PARITY) n p i (snd (L ! k) ! i)"
    "group f = en_group e + of_nat k" "unat (index f) = i"
    by (rule burst_frame [OF burst assms(2)])
  obtain k' i' n' p' where h: "k' < length L" "i' < n' + p'" "log_groups L (en_group e + of_nat k') = Some (n', p', snd (L ! k'))"
    "h = shard_frame (fst (L ! k')) (if i' < n' then KIND_DATA else KIND_PARITY) n' p' i' (snd (L ! k') ! i')"
    "group h = en_group e + of_nat k'" "unat (index h) = i'"
    by (rule burst_frame [OF burst assms(3)])
  have "k < 2 ^ 64" "k' < 2 ^ 64" using f(1) h(1) burst_bounds(1) [OF burst] by simp_all
  moreover have "(of_nat k :: u64) = of_nat k'" using f(5) h(5) assms(4) by simp
  ultimately have k: "k = k'" using of_nat_u64_inj by blast
  moreover have "n = n'" "p = p'" using f(3) h(3) k by simp_all
  moreover have "i = i'" using f(6) h(6) assms(5) by simp
  ultimately show ?thesis using f(4) h(4) by (simp only:)
qed

lemma burst_positions:
  assumes burst: "burst_log rs e pid pls L fs" and "distinct hs" and "set hs \<subseteq> set fs"
  shows "card (positions_received (\<lambda>_. {}) hs g) = length (filter (\<lambda>h. group h = g) hs)"
proof -
  let ?A = "set (filter (\<lambda>h. group h = g) hs)"
  have "positions_received (\<lambda>_. {}) hs g = (unat \<circ> index) ` ?A"
    by (auto simp: positions_received_def)
  moreover have "inj_on (unat \<circ> index) ?A"
  proof (rule inj_onI)
    fix x y
    assume "x \<in> ?A" "y \<in> ?A" "(unat \<circ> index) x = (unat \<circ> index) y"
    then show "x = y" using assms(3) by (intro burst_frame_inj [OF burst]) (auto simp: word_unat_eq_iff)
  qed
  ultimately have "card (positions_received (\<lambda>_. {}) hs g) = card ?A" by (simp only: card_image)
  then show ?thesis using distinct_card [of "filter (\<lambda>h. group h = g) hs"] assms(2) by simp
qed

lemma delivered_at_all:
  assumes "S \<subseteq> {..<n + p}" and "n \<le> card S"
  shows "delivered_at n p S = {..<n}"
proof (cases "p = 0")
  case True
  then have "S = {..<n}" using assms by (intro card_seteq) auto
  then show ?thesis by (auto simp: delivered_at_def)
next
  case False
  then show ?thesis using assms(2) by (auto simp: delivered_at_def enough_def)
qed

lemma burst_all_delivered:
  assumes burst: "burst_log rs e pid pls L fs" and hs: "distinct hs" "set hs \<subseteq> set fs"
    and rcv: "\<forall>f \<in> set fs. unat (data f) \<le> length (filter (\<lambda>h. group h = group f) hs)"
  shows "completed (burst_packets pid pls) (delivered_keys (log_groups L) (positions_received (\<lambda>_. {}) hs)) =
     dom (burst_packets pid pls)"
proof -
  obtain e' where log: "group_log rs e (burst_fragments pid pls) L fs e'"
    and sh: "concat (map (en_shards \<circ> fst) L) = burst_fragments pid pls" and sizes: "\<forall>pl \<in> set pls. length pl \<le> 65535"
    by (rule burst_logD [OF burst])
  have key: "(q, j) \<in> delivered_keys (log_groups L) (positions_received (\<lambda>_. {}) hs)"
    if q: "burst_packets pid pls q = Some parts" "j < length parts" for q parts j
  proof -
    obtain m where m: "m < length pls" "q = pid + of_nat m" "parts = datagram_chunks (pls ! m)"
      using burst_packets_SomeD [OF q(1)] by blast
    let ?s = "make_shard q j (length parts) (parts ! j)"
    have "?s \<in> set (concat (map (en_shards \<circ> fst) L))" unfolding sh in_burst_fragments using m q(2) by blast
    then obtain x where x: "x \<in> set L" "?s \<in> set (en_shards (fst x))" by auto
    then obtain k where k: "k < length L" "L ! k = x" by (metis in_set_conv_nth)
    then obtain i where i: "i < length (en_shards (fst (L ! k)))" "en_shards (fst (L ! k)) ! i = ?s"
      using x(2) by (metis in_set_conv_nth)
    have "j < 65536" using q(2) m datagram_chunks_count [of "pls ! m"] sizes by fastforce
    then have "frag_key (snd (L ! k) ! i) = (q, j)"
      using data_shard(2) [OF burst k(1) i(1)] i(2) frag_make_shard(1,2) [where zs = "[]"] by (simp add: frag_key_def)
    moreover define n where "n = length (en_shards (fst (L ! k)))"
    moreover define p where "p = flush_parity (fst (L ! k)) n"
    moreover have G: "log_groups L (en_group e + of_nat k) = Some (n, p, snd (L ! k))"
      using log_groups_at [OF log burst_bounds(1) [OF burst] k(1)] by (simp add: n_def p_def)
    moreover have "i \<in> delivered_at n p (positions_received (\<lambda>_. {}) hs (en_group e + of_nat k))"
    proof -
      let ?g = "en_group e + of_nat k" and ?f = "group_frames (fst (L ! k)) (snd (L ! k)) ! i"
      have "?f \<in> set (group_frames (fst (L ! k)) (snd (L ! k)))"
        using i(1) by (intro nth_mem) (simp add: length_group_frames)
      then have "?f \<in> set fs" using log k(1) by (auto simp: group_log_def case_prod_beta intro!: bexI [of _ "L ! k"])
      moreover have "group ?f = ?g" "unat (data ?f) = n"
        using i(1) group_log_nth(1,5) [OF log k(1)]
        by (simp_all add: group_frames_nth length_group_frames shard_frame_def n_def DATA_SHARDS_def)
      ultimately have "n \<le> card (positions_received (\<lambda>_. {}) hs ?g)"
        using rcv burst_positions [OF burst hs, of ?g] by fastforce
      moreover have "positions_received (\<lambda>_. {}) hs ?g \<subseteq> {..<n + p}"
        using burst_frame_of(1) [OF burst] hs(2) G by (fastforce simp: positions_received_def frame_of_def)
      ultimately show ?thesis using delivered_at_all i(1) by (simp add: n_def)
    qed
    ultimately show ?thesis unfolding delivered_keys_def by force
  qed
  show ?thesis
    using key by (fastforce simp: completed_def parts_seen_def dom_def)
qed

section \<open>End to end\<close>

lemma length_le_concat: "\<forall>xs \<in> set xss. xs \<noteq> [] \<Longrightarrow> length xss \<le> length (concat xss)"
proof (induction xss)
  case (Cons a xss)
  then have "1 \<le> length a" by (simp add: Suc_le_eq)
  with Cons show ?case by simp
qed simp

lemma datagram_chunks_nonempty: "datagram_chunks pl \<noteq> []"
  by (simp add: datagram_chunks_def chunks.simps [where n = CHUNK and xs = pl]) (simp add: shard_consts)

lemma length_burst_fragments: "length pls \<le> length (burst_fragments pid pls)"
proof (induction pls arbitrary: pid)
  case Nil
  then show ?case by simp
next
  case (Cons pl pls)
  have "1 \<le> length (fragments pid (length (datagram_chunks pl)) 0 (datagram_chunks pl))"
    using datagram_chunks_nonempty [of pl] by (simp add: fragments_def Suc_le_eq)
  with Cons [of "pid + 1"] show ?case by simp
qed

lemma group_log_counts:
  assumes log: "group_log rs e new L fs e'" and "en_shards e = []" and "en_shards e' = []"
  shows "length L \<le> length fs" and "length new \<le> length fs"
proof -
  have fs: "fs = concat (map (\<lambda>x. group_frames (fst x) (snd x)) L)"
    using log unfolding group_log_def case_prod_unfold by blast
  have "en_shards (fst x) \<noteq> []" if "x \<in> set L" for x
    using that group_log_nth(4) [OF log] by (metis in_set_conv_nth)
  then have "length (map (\<lambda>x. group_frames (fst x) (snd x)) L) \<le> length fs"
    unfolding fs by (intro length_le_concat) (auto simp: group_frames_def Let_def)
  then show "length L \<le> length fs" by simp
  have "new = concat (map (en_shards \<circ> fst) L)" using log assms(2,3) by (simp add: group_log_def)
  then show "length new \<le> length fs"
    unfolding fs length_concat map_map comp_def
    by (simp add: length_group_frames length_concat comp_def sum_list_mono)
qed

lemma emits_sequences_inj:
  assumes "emits rs e new fs e'" and "length fs < 2 ^ 64"
  shows "inj_on sequence (set fs)"
proof (rule inj_onI)
  fix f h
  assume "f \<in> set fs" "h \<in> set fs" and eq: "sequence f = sequence h"
  then obtain i j where ij: "i < length fs" "j < length fs" "f = fs ! i" "h = fs ! j" by (metis in_set_conv_nth)
  then have "en_sequence e + of_nat i = en_sequence e + of_nat j"
    using assms(1) eq by (metis emits_def)
  then have "i = j" using of_nat_u64_inj [of i j] ij assms(2) by simp
  then show "f = h" using ij by simp
qed

lemma burst_datagrams:
  assumes "length pls < 2 ^ 64"
  shows "datagrams (burst_packets pid pls) (dom (burst_packets pid pls)) = mset pls"
proof -
  let ?P = "burst_packets pid pls"
  have inj: "inj_on (\<lambda>k. pid + of_nat k) {..<length pls}"
  proof (rule inj_onI)
    fix i j
    assume ij: "i \<in> {..<length pls}" "j \<in> {..<length pls}" "pid + of_nat i = pid + of_nat j"
    then have "i < 2 ^ 64" "j < 2 ^ 64" using assms by simp_all
    then show "i = j" using of_nat_u64_inj ij(3) by simp
  qed
  have "datagrams ?P (dom ?P) = image_mset (\<lambda>k. concat (the (?P (pid + of_nat k)))) (mset_set {..<length pls})"
    unfolding datagrams_def dom_burst_packets image_mset_mset_set [OF inj, symmetric]
    by (simp add: image_mset.compositionality comp_def)
  also have "\<dots> = image_mset ((!) pls) (mset_set {..<length pls})"
    using burst_packets_at [OF assms] datagram_chunks_props(1) by (intro image_mset_cong) simp
  also have "\<dots> = mset (map ((!) pls) [0..<length pls])"
    by (simp add: lessThan_atLeast0)
  finally show ?thesis by (simp add: map_nth)
qed

lemma fec_delivers:
  assumes "encoder_inv e" and "en_shards e = []" and "rs_supports rs (parity_level e)" and "rs_shape rs"
    and "\<forall>pl \<in> set pls. length pl \<le> 65535" and enc: "encode_run rs e pls = (e', Inr fs)"
    and "length fs \<le> MAX_GROUPS"
    and d: "d_session d = en_session e" "groups d = []" "packets d = []" "\<not> fresh_window d"
      "\<forall>f \<in> set fs. sequence f \<notin> spent_sequences d"
    and xs: "distinct (map snd xs)" "snd ` set xs \<subseteq> set fs"
      "\<forall>(now, f) \<in> set xs. \<forall>k. t0 \<le> now k \<and> now k < t0 + GROUP_TTL"
    and rcv: "\<forall>f \<in> set fs. unat (data f) \<le> length (filter (\<lambda>h. group h = group f) (map snd xs))"
  shows "\<exists>d' outs. decoder_run rs d xs = (d', map Inr outs) \<and> mset (concat outs) = mset pls"
proof -
  let ?pid = "en_packet e" and ?e = "e\<lparr>en_packet := en_packet e + of_nat (length pls)\<rparr>"
  obtain L where em: "emits rs ?e (burst_fragments ?pid pls) fs e'" and "en_shards e' = []"
    and log: "group_log rs ?e (burst_fragments ?pid pls) L fs e'"
    using encode_run_emits [OF assms(1,3,5)] enc by (auto simp: emits_def)
  have burst: "burst_log rs ?e ?pid pls L fs"
    using group_log_counts [OF log] length_burst_fragments [of pls ?pid] assms(2,5,7) log \<open>en_shards e' = []\<close>
    by (auto simp: burst_log_def MAX_GROUPS_def MAX_REASSEMBLIES_def)
  let ?G = "log_groups L" and ?P = "burst_packets ?pid pls" and ?none = "\<lambda>_ :: u64. {} :: nat set"
  have none: "delivered_keys ?G ?none = {}"
    using transmission_group(2) [OF burst_transmission [OF burst]]
    by (fastforce simp: delivered_keys_def delivered_at_def enough_def)
  have "dec_rel ?G ?P t0 d ?none"
    unfolding dec_rel_def none using d(2,3)
    by (simp add: grp_rel_def pkt_rel_def parts_seen_def slot_rel_def split: option.split)
  moreover have "frame_of ?G f \<and> session f = d_session d \<and> sequence f \<notin> spent_sequences d" if "f \<in> set fs" for f
    using burst_frame_of [OF burst that] d(1,5) that by simp
  then have "\<forall>(now, f) \<in> set xs. frame_of ?G f \<and> session f = d_session d \<and> sequence f \<notin> spent_sequences d \<and>
      (\<forall>k. t0 \<le> now k \<and> now k < t0 + GROUP_TTL)"
    using xs(2,3) by fastforce
  moreover have "distinct (map (sequence \<circ> snd) xs)"
  proof -
    have "inj_on sequence (set fs)"
      using assms(7) by (intro emits_sequences_inj [OF em]) (simp add: MAX_GROUPS_def)
    then show ?thesis using xs(1,2) by (simp add: distinct_map comp_inj_on inj_on_subset)
  qed
  ultimately obtain d' outs where run: "decoder_run rs d xs = (d', map Inr outs)"
    "datagrams ?P (completed ?P (delivered_keys ?G (positions_received ?none (map snd xs)))) =
       datagrams ?P (completed ?P (delivered_keys ?G ?none)) + mset (concat outs)"
    using decoder_run_sound [OF _ burst_transmission [OF burst] assms(4) d(4), of t0 ?none xs] by blast
  have "completed ?P (delivered_keys ?G (positions_received ?none (map snd xs))) = dom ?P"
    using xs(1,2) rcv by (intro burst_all_delivered [OF burst]) auto
  moreover have "completed ?P {} = {}"
    using datagram_chunks_nonempty by (auto simp: completed_def parts_seen_def dest!: burst_packets_SomeD)
  ultimately have "mset (concat outs) = mset pls"
    using run(2) none burst_datagrams [OF burst_bounds(2) [OF burst], of ?pid] by (simp add: datagrams_def)
  with run(1) show ?thesis by blast
qed

text \<open>C4: end-to-end delivery.  A burst of datagrams is encoded and flushed; of the resulting frames
  the network delivers any subset in any order, such that of every group at least as many frames
  arrive as the group has data shards.  Then a decoder that is in the session, has no groups in
  progress and has not seen these sequence numbers before accepts every frame without error and
  outputs exactly the datagrams of the burst, each once, provided the frames arrive within the group
  lifetime and the burst has at most 2048 frames.\<close>

theorem fec_end_to_end:
  assumes "encoder_inv e" and "en_shards e = []" and "rs_supports rs (parity_level e)" and "rs_shape rs"
    and "\<forall>pl \<in> set pls. length pl \<le> 65535" and enc: "encode_run rs e pls = (e', Inr fs)"
    and "length fs \<le> MAX_GROUPS"
    and d: "d_session d = en_session e" "groups d = []" "packets d = []" "\<not> fresh_window d"
      "\<forall>f \<in> set fs. sequence f \<notin> spent_sequences d"
    and xs: "distinct (map snd xs)" "snd ` set xs \<subseteq> set fs"
      "\<forall>(now, f) \<in> set xs. \<forall>k. t0 \<le> now k \<and> now k < t0 + GROUP_TTL"
    and rcv: "\<forall>f \<in> set fs. unat (data f) \<le> length (filter (\<lambda>h. group h = group f) (map snd xs))"
  shows "\<exists>d' outs. decoder_run rs d xs = (d', map Inr outs) \<and> mset (concat outs) = mset pls"
  by (rule fec_delivers [OF assms])

text \<open>A session that has exchanged one report, then two datagrams of which the second data frame is
  lost and the parity frame overtakes the first.\<close>

definition sample_encoder :: encoder where
  "sample_encoder = fst (report_frame (with_identity 7 VERSION_V3 9 (Some 1)) 0)"

definition sample_decoder :: decoder where
  "sample_decoder = fst (decoder_frame xor_code (\<lambda>_. 4) (decoder_new 7)
     (snd (report_frame (with_identity 7 VERSION_V3 9 (Some 1)) 0)))"

definition sample_frames :: "frame list" where
  "sample_frames = [shard_frame sample_encoder KIND_DATA 2 1 0 (make_shard 1 0 1 [65]),
      shard_frame sample_encoder KIND_DATA 2 1 1 (make_shard 2 0 1 [66]),
      shard_frame sample_encoder KIND_PARITY 2 1 2 (xorl 15 [make_shard 1 0 1 [65], make_shard 2 0 1 [66]])]"

lemma sample_encoder_eq:
  "sample_encoder = \<lparr>en_version = VERSION_V3, en_key_id = 9, en_session = 7, en_sequence = 2, en_packet = 1,
     en_group = 1, en_shards = [], en_adaptive = adaptive_default, force_parity = Some 1\<rparr>"
  by (simp add: sample_encoder_def report_frame_def with_identity_def MAX_PARITY_def)

lemma sample_decoder_eq:
  "sample_decoder = (decoder_new 7)\<lparr>highest_sequence := 1, seen_sequences := {1}\<rparr>"
  by (simp add: sample_decoder_def decoder_frame_cases report_frame_def with_identity_def decoder_new_def
      observe_fresh fresh_window_def sat_sub_def Let_def)

lemma sample_encoder_inv: "encoder_inv sample_encoder" "parity_level sample_encoder = 1"
  by (simp_all add: sample_encoder_eq encoder_inv_def encoder_params_ok_def parity_level_def adaptive_inv_default
      DATA_SHARDS_def MAX_PARITY_def)

lemma encode_sample: "\<exists>e'. encode_run xor_code sample_encoder [[65], [66]] = (e', Inr sample_frames)"
  by (simp add: sample_frames_def encode_datagram_def chunks_single div_ceil_def shard_consts sample_encoder_eq Let_def)
    (simp add: flush_def Let_def flush_parity_def MAX_PARITY_def xor_code_def upt_rec resize_def shard_frame_def
      FRAGMENT_HEADER_def)

lemma sample_frame_fields:
  "distinct [sample_frames ! 2, sample_frames ! 0]" "length sample_frames = 3"
  "\<forall>f \<in> set sample_frames. group f = 1 \<and> unat (data f) = 2 \<and> sequence f \<notin> spent_sequences sample_decoder"
  by (simp_all add: sample_frames_def shard_frame_def sample_encoder_eq sample_decoder_eq decoder_new_def
      spent_sequences_def KIND_DATA_def KIND_PARITY_def)

theorem fec_end_to_end_witness:
  "\<exists>d' outs. decoder_run xor_code sample_decoder [(\<lambda>_. 5, sample_frames ! 2), (\<lambda>_. 6, sample_frames ! 0)] =
     (d', map Inr outs) \<and> mset (concat outs) = mset [[65], [66]]"
proof -
  obtain e' where "encode_run xor_code sample_encoder [[65], [66]] = (e', Inr sample_frames)"
    using encode_sample by blast
  then show ?thesis
  proof (rule fec_end_to_end [where ?t0.0 = 5, rotated 5])
    show "rs_supports xor_code (parity_level sample_encoder)" "rs_shape xor_code" "encoder_inv sample_encoder"
      using rs_supports_xor rs_shape_xor sample_encoder_inv by simp_all
    show "\<forall>f \<in> set sample_frames. sequence f \<notin> spent_sequences sample_decoder"
      "length sample_frames \<le> MAX_GROUPS"
      using sample_frame_fields by (auto simp: MAX_GROUPS_def)
    show "\<forall>f \<in> set sample_frames. unat (data f) \<le> length (filter (\<lambda>h. group h = group f)
        (map snd [(\<lambda>_ :: nat. 5 :: nat, sample_frames ! 2), (\<lambda>_. 6, sample_frames ! 0)]))"
      using sample_frame_fields(2,3) by simp
  qed (use sample_frame_fields(1,2) in \<open>auto simp: sample_encoder_eq sample_decoder_eq decoder_new_def
      fresh_window_def GROUP_TTL_def\<close>)
qed

end
