(* ===== verification/Tunnel_Properties.thy ===== *)
theory Tunnel_Properties
  imports Fec_Recovery
begin

text \<open>
  Properties of the encoder and of the decoder on their own: what a call of \<open>encode_datagram\<close> or
  \<open>flush\<close> sends, and what holds of a decoder under any sequence of frames, hostile ones included.
\<close>

section \<open>The encoder\<close>

lemma sample_supports: "rs_supports xor_code (parity_level sample_encoder)"
  using rs_supports_xor by (simp only: sample_encoder_inv(2))

text \<open>A datagram of at most 65535 bytes is always accepted, and encoding it keeps the encoder
  well formed and conserves the fragments: the data frames sent followed by the pending shards are the
  earlier pending shards followed by the fragments of this datagram, nothing lost, repeated or
  reordered.  The frames carry consecutive sequence numbers and pass the checks of the receiver.\<close>

theorem encode_datagram_conserves:
  assumes "encoder_inv e" and "rs_supports rs (parity_level e)" and "length pl \<le> 65535"
  shows "\<exists>e' fs. encode_datagram rs e pl = (e', Inr fs) \<and> encoder_inv e' \<and>
     data_fragments fs @ en_shards e' =
       en_shards e @ fragments (en_packet e) (length (datagram_chunks pl)) 0 (datagram_chunks pl) \<and>
     en_packet e' = en_packet e + 1 \<and> en_sequence e' = en_sequence e + of_nat (length fs) \<and>
     (\<forall>i < length fs. sequence (fs ! i) = en_sequence e + of_nat i) \<and>
     (\<forall>f \<in> set fs. frame_dims_ok f \<and> session f = en_session e \<and> key_id f = en_key_id e)"
proof -
  obtain e' fs where r: "encode_datagram rs e pl = (e', Inr fs)" and
    em: "emits rs (e\<lparr>en_packet := en_packet e + 1\<rparr>)
      (fragments (en_packet e) (length (datagram_chunks pl)) 0 (datagram_chunks pl)) fs e'"
    by (rule emits_encode_datagram [OF assms])
  have "frame_dims_ok f \<and> session f = en_session e \<and> key_id f = en_key_id e" if "f \<in> set fs" for f
    using that em by (auto simp: emits_def sent_by_def frame_dims_ok_def DATA_SHARDS_def MAX_PARITY_def)
  with r em show ?thesis by (auto simp: emits_def)
qed

theorem encode_datagram_conserves_witness:
  "\<exists>e' fs. encode_datagram xor_code sample_encoder (replicate 3000 1) = (e', Inr fs) \<and> encoder_inv e' \<and>
     en_packet e' = 2"
proof -
  obtain e' fs where "encode_datagram xor_code sample_encoder (replicate 3000 1) = (e', Inr fs)" "encoder_inv e'"
    "en_packet e' = en_packet sample_encoder + 1"
    using encode_datagram_conserves [of sample_encoder xor_code "replicate 3000 1"] sample_encoder_inv rs_supports_xor
    by auto
  then show ?thesis by (auto simp: sample_encoder_eq)
qed

text \<open>Flushing a non-empty encoder sends the pending group completely: its data frames and then
  as many parity frames as the redundancy level asks for, at most one per data shard and at most
  four, all with the group's number and shape, and leaves the encoder empty at the next group.\<close>

theorem flush_sends_group:
  assumes "encoder_inv e" and "en_shards e \<noteq> []" and "rs_supports rs (parity_level e)"
  defines "n \<equiv> length (en_shards e)"
  shows "\<exists>e' fs. flush rs e = (e', Inr fs) \<and> en_shards e' = [] \<and> en_group e' = en_group e + 1 \<and>
     length fs = n + min (parity_level e) n \<and> length fs \<le> n + MAX_PARITY \<and>
     data_fragments fs = en_shards e \<and>
     (\<forall>i < length fs. group (fs ! i) = en_group e \<and> index (fs ! i) = of_nat i \<and> data (fs ! i) = of_nat n \<and>
        kind (fs ! i) = (if i < n then KIND_DATA else KIND_PARITY))"
proof -
  have e: "encoder_params_ok e" "length (en_shards e) \<le> DATA_SHARDS" "\<forall>s \<in> set (en_shards e). proper_shard s"
    using assms(1) by (simp_all add: encoder_inv_def)
  have p: "flush_parity e n = min (parity_level e) n" unfolding n_def by (rule flush_parity_eq [OF e(1,2)])
  have ok: "0 < flush_parity e n \<Longrightarrow> rs_ok rs n (flush_parity e n)"
    unfolding p using assms(2,3) e(2) by (auto simp: rs_supports_def n_def)
  obtain cw where cw: "group_code rs e cw" "flush rs e = (next_group e, Inr (group_frames e cw))"
    by (rule flush_spec [OF e(3) assms(2) ok [unfolded n_def]])
  have len: "length (group_frames e cw) = n + min (parity_level e) n"
    by (simp add: length_group_frames p [unfolded n_def] n_def)
  have "parity_level e \<le> MAX_PARITY" using e(1) by (simp add: encoder_params_ok_def)
  with cw(2) len group_frames_fragments [OF e(3) cw(1)] show ?thesis
    by (auto simp: next_group_def group_frames_nth shard_frame_def n_def)
qed

definition pending_encoder :: encoder where
  "pending_encoder = sample_encoder\<lparr>en_shards := [make_shard 1 0 1 [65], make_shard 2 0 1 [66]]\<rparr>"

lemma proper_make_shard: "length c \<le> CHUNK \<Longrightarrow> proper_shard (make_shard q i m c)"
  by (auto simp: proper_shard_def)

lemma pending_encoder_inv: "encoder_inv pending_encoder" "parity_level pending_encoder = 1"
  using sample_encoder_inv
  by (simp_all add: pending_encoder_def encoder_inv_def encoder_params_ok_def DATA_SHARDS_def proper_make_shard)
    (simp_all add: shard_consts proper_make_shard)

theorem flush_sends_group_witness:
  "\<exists>e' fs. flush xor_code pending_encoder = (e', Inr fs) \<and> length fs = 3 \<and> en_shards e' = []"
proof -
  have "en_shards pending_encoder \<noteq> []" "length (en_shards pending_encoder) = 2"
    by (simp_all add: pending_encoder_def)
  with flush_sends_group [of pending_encoder xor_code] pending_encoder_inv rs_supports_xor
  show ?thesis by auto
qed

text \<open>C30: every frame the encoder sends fits a 1419-byte UDP payload in the V3 encoding, whatever
  the datagram.\<close>

theorem encoded_frames_fit:
  assumes "hash_ok c" and "aead_ok c" and "encoder_inv e" and "rs_supports rs (parity_level e)"
    and "length pl \<le> 65535" and "en_version e = VERSION_V3" and "encode_datagram rs e pl = (e', Inr fs)" and "f \<in> set fs"
    and "length nonce = V3_NONCE" and "length suffix = V3_SELECTOR_PREFIX"
  shows "\<exists>buf. encode_wire c f key nonce suffix = Inr buf \<and> length buf \<le> 1419"
proof -
  have "emits rs (e\<lparr>en_packet := en_packet e + 1\<rparr>)
      (fragments (en_packet e) (length (datagram_chunks pl)) 0 (datagram_chunks pl)) fs e'"
    using emits_encode_datagram [OF assms(3-5)] assms(7) by (metis Inr_inject prod.inject)
  then have s: "sent_by (e\<lparr>en_packet := en_packet e + 1\<rparr>) f" using assms(8) by (simp add: emits_def)
  then have f: "version f = VERSION_V3" "length (payload f) \<le> 1340"
    using assms(6) by (simp_all add: sent_by_def SHARD_def)
  then have "length (payload f) < 65536" by simp
  with decode_v3_encode_wire [OF assms(1,2)] f assms(9,10) obtain buf where
    "encode_wire c f key nonce suffix = Inr buf" "length buf = 79 + length (payload f)"
    by (metis V3_NONCE_def V3_SELECTOR_PREFIX_def less_imp_le_nat)
  then show ?thesis using f(2) by auto
qed

text \<open>The ten fragments of a 13260-byte datagram fill a group, so that encoding it sends frames.\<close>

lemma sample_group_sent:
  "\<exists>e' f fs. encode_datagram xor_code sample_encoder (replicate 13260 1) = (e', Inr (f # fs))"
proof -
  let ?pl = "replicate 13260 (1 :: u8)"
  obtain e' fs where r: "encode_datagram xor_code sample_encoder ?pl = (e', Inr fs)" and
    em: "emits xor_code (sample_encoder\<lparr>en_packet := en_packet sample_encoder + 1\<rparr>)
      (fragments (en_packet sample_encoder) (length (datagram_chunks ?pl)) 0 (datagram_chunks ?pl)) fs e'"
    by (rule emits_encode_datagram [OF sample_encoder_inv(1) sample_supports, of ?pl]) simp_all
  have "length (datagram_chunks ?pl) = 10"
    by (simp add: datagram_chunks_props(3) div_ceil_def shard_consts)
  then have "length (data_fragments fs @ en_shards e') = 10"
    using em by (simp add: emits_def fragments_def sample_encoder_eq)
  moreover have "length (en_shards e') < 10" using em by (simp add: emits_def encoder_inv_def DATA_SHARDS_def)
  ultimately have "fs \<noteq> []" by (auto simp: data_fragments_def)
  then obtain f fs' where "fs = f # fs'" by (cases fs) auto
  with r show ?thesis by blast
qed

theorem encoded_frames_fit_witness:
  "\<exists>e' f fs buf. encode_datagram xor_code sample_encoder (replicate 13260 1) = (e', Inr (f # fs)) \<and>
     encode_wire sum_crypto f [9] (replicate 24 5) (replicate 4 6) = Inr buf \<and> length buf \<le> 1419"
proof -
  obtain e' f fs where r: "encode_datagram xor_code sample_encoder (replicate 13260 1) = (e', Inr (f # fs))"
    using sample_group_sent by blast
  have "\<exists>buf. encode_wire sum_crypto f [9] (replicate 24 5) (replicate 4 6) = Inr buf \<and> length buf \<le> 1419"
    by (rule encoded_frames_fit [OF hash_ok_sum_crypto aead_ok_sum_crypto sample_encoder_inv(1) sample_supports _ _ r])
      (simp_all add: V3_NONCE_def V3_SELECTOR_PREFIX_def sample_encoder_eq)
  with r show ?thesis by blast
qed

section \<open>The decoder\<close>

text \<open>
  What happens to a decoder: a frame arrives, or the report ticker closes the loss window.  The
  step also tells which sequence number, if any, led to an output of datagrams.
\<close>

datatype decoder_event = RecvFrame "nat \<Rightarrow> instant" frame | CloseReport

fun decoder_step :: "rs_code \<Rightarrow> decoder \<Rightarrow> decoder_event \<Rightarrow> decoder \<times> u64 option" where
  "decoder_step rs d (RecvFrame now f) =
     (case decoder_frame rs now d f of
        (d', Inr (x # xs)) \<Rightarrow> (d', Some (sequence f)) | (d', _) \<Rightarrow> (d', None))"
| "decoder_step rs d CloseReport = (fst (sequence_report d), None)"

definition decoder_tables_ok :: "rs_code \<Rightarrow> decoder \<Rightarrow> bool" where
  "decoder_tables_ok rs d \<longleftrightarrow> (rs_shape rs \<longrightarrow> decoder_inv d)"

lemma decoder_step_frame: "fst (decoder_step rs d (RecvFrame now f)) = fst (decoder_frame rs now d f)"
  by (auto split: prod.split sum.split list.split)

interpretation decoder_machine: invariant_machine "\<lambda>d ev. fst (decoder_step rs d ev)" "decoder_tables_ok rs" for rs
proof
  fix d ev
  assume "decoder_tables_ok rs d"
  then show "decoder_tables_ok rs (fst (decoder_step rs d ev))"
    by (cases ev) (auto simp: decoder_tables_ok_def decoder_step_frame decoder_frame_inv report_decoder_inv
        simp del: decoder_step.simps(1))
qed

text \<open>A frame changes the sequence window only through \<open>observe_seq\<close>.\<close>

definition same_window :: "decoder \<Rightarrow> decoder \<Rightarrow> bool" where
  "same_window d d' \<longleftrightarrow> d_session d' = d_session d \<and> highest_sequence d' = highest_sequence d \<and>
     finalized_sequence d' = finalized_sequence d \<and> seen_sequences d' = seen_sequences d \<and>
     late_sequences d' = late_sequences d \<and> duplicate_sequences d' = duplicate_sequences d"

lemma same_windowD: "same_window d d' \<Longrightarrow> window_inv d' = window_inv d \<and> spent_sequences d' = spent_sequences d"
  by (simp add: same_window_def window_inv_def spent_sequences_def)

lemma same_window_refl: "same_window d d"
  by (simp add: same_window_def)

lemma same_window_upd:
  "same_window d (d'\<lparr>groups := gs\<rparr>) = same_window d d'" "same_window d (d'\<lparr>packets := ps\<rparr>) = same_window d d'"
  "same_window (d\<lparr>groups := gs\<rparr>) d' = same_window d d'" "same_window d (prune now d') = same_window d d'"
  by (simp_all add: same_window_def prune_def Let_def)

lemma same_window_trans: "same_window d d1 \<Longrightarrow> same_window d1 d2 \<Longrightarrow> same_window d d2"
  by (simp add: same_window_def)

lemma same_window_fragment: "fragment now d s = Inr (d', out) \<Longrightarrow> same_window d d'"
  by (auto simp: fragment_cases Let_def same_window_upd same_window_refl split: if_splits)

lemma same_window_deliver: "deliver now k d ss = Inr (k', d', out) \<Longrightarrow> same_window d d'"
proof (induction ss arbitrary: d k out)
  case (Cons s ss)
  then obtain d1 o1 k2 d2 o2 where "fragment (now k) d s = Inr (d1, o1)" "deliver now (Suc k) d1 ss = Inr (k2, d2, o2)"
    "d' = d2" "k' = k2"
    by (auto simp: rbind_eq_Inr_iff)
  with Cons.IH same_window_fragment same_window_trans show ?case by blast
qed (simp add: same_window_refl)

lemma same_window_file_shard: "same_window d (fst (file_shard rs now d f))"
proof -
  have "same_window d d'" if "deliver now 2 (d\<lparr>groups := gs\<rparr>) ss = Inr (k, d', out)" for gs ss k d' out
    using same_window_deliver [OF that] by (simp add: same_window_upd)
  then show ?thesis
    unfolding file_shard_def Let_def
    by (simp add: same_window_upd same_window_refl split: prod.split sum.split)
qed

lemma decoder_frame_window:
  assumes "d_session d = session f"
  shows "same_window (fst (observe_seq d (sequence f))) (fst (decoder_frame rs now d f))"
proof -
  let ?d1 = "fst (observe_seq d (sequence f))"
  have "same_window ?d1 (prune (now 0) ?d1)" by (simp add: same_window_upd same_window_refl)
  from same_window_trans [OF this same_window_file_shard] assms show ?thesis
    by (simp add: decoder_frame_cases Let_def same_window_refl same_window_upd)
qed

lemma decoder_frame_delivers:
  assumes "decoder_frame rs now d f = (d', Inr (x # xs))"
  shows "d_session d = session f \<and> snd (observe_seq d (sequence f))"
  using assms by (auto simp: decoder_frame_cases Let_def split: if_splits)

interpretation decoder_once: once_only "decoder_step rs" window_inv spent_sequences for rs
proof
  fix d ev k
  assume inv: "window_inv (d :: decoder)"
  have frame: "window_inv (fst (decoder_frame rs now d f)) \<and> spent_sequences d \<subseteq> spent_sequences (fst (decoder_frame rs now d f))"
    for now f
  proof (cases "d_session d = session f")
    case True
    from same_windowD [OF decoder_frame_window [OF this, of rs now]] show ?thesis
      using observe_seq_inv [OF inv] observe_seq_spent(1) [OF inv] by simp
  next
    case False
    then show ?thesis using inv by (simp add: decoder_frame_def)
  qed
  show "window_inv (fst (decoder_step rs d ev))" "spent_sequences d \<subseteq> spent_sequences (fst (decoder_step rs d ev))"
    using frame sequence_report_inv [OF inv]
    by (cases ev; simp add: decoder_step_frame del: decoder_step.simps(1))+
  assume acc: "snd (decoder_step rs d ev) = Some k"
  then obtain now f d' x xs where ev: "ev = RecvFrame now f" and df: "decoder_frame rs now d f = (d', Inr (x # xs))"
    and k: "k = sequence f"
    by (cases ev) (auto split: prod.splits sum.splits list.splits)
  note del = decoder_frame_delivers [OF df]
  then show "k \<notin> spent_sequences d \<and> k \<in> spent_sequences (fst (decoder_step rs d ev))"
    using observe_seq_spent(2) [OF inv, of k] same_windowD [OF decoder_frame_window [of d f rs now]]
    by (simp add: ev k decoder_step_frame del: decoder_step.simps(1))
qed

text \<open>C12: whatever frames arrive and whenever the report ticker fires, the decoder stays within its
  bounds, at most 2048 groups and 4096 datagrams in reassembly, and never indexes out of range.\<close>

theorem decoder_bounded_and_safe:
  fixes ses :: u64 and events :: "decoder_event list"
  assumes "rs_shape rs"
  defines "d \<equiv> foldl (\<lambda>d ev. fst (decoder_step rs d ev)) (decoder_new ses) events"
  shows "length (groups d) \<le> 2048 \<and> length (packets d) \<le> 4096 \<and>
     distinct (keys (groups d)) \<and> distinct (keys (packets d)) \<and>
     (\<forall>now f. snd (decoder_frame rs now d f) \<noteq> Inl Panic)"
proof -
  have "decoder_tables_ok rs d"
    unfolding d_def by (rule decoder_machine.run_invar) (simp add: decoder_tables_ok_def decoder_inv_new)
  then have inv: "decoder_inv d" using assms(1) by (simp add: decoder_tables_ok_def)
  then have "length (groups d) \<le> 2048 \<and> length (packets d) \<le> 4096 \<and>
      distinct (keys (groups d)) \<and> distinct (keys (packets d))"
    by (simp add: decoder_inv_def groups_wf_def packets_wf_def MAX_GROUPS_def MAX_REASSEMBLIES_def)
  moreover have "snd (decoder_frame rs now d f) \<noteq> Inl Panic" for now f
    using decoder_frame_inv [OF inv assms(1)] by blast
  ultimately show ?thesis by blast
qed

theorem decoder_bounded_and_safe_witness:
  "snd (decoder_frame xor_code (\<lambda>_. 9)
     (foldl (\<lambda>d ev. fst (decoder_step xor_code d ev)) (decoder_new 7) [RecvFrame (\<lambda>_. 8) (sample_frames ! 0), CloseReport])
     (sample_frames ! 2)) \<noteq> Inl Panic"
  using decoder_bounded_and_safe [OF rs_shape_xor, of 7 "[RecvFrame (\<lambda>_. 8) (sample_frames ! 0), CloseReport]"]
  by blast

text \<open>C13: a sequence number leads to an output of datagrams at most once in the life of a decoder:
  a duplicated or replayed frame never delivers data again, also after its loss window has been
  closed.\<close>

theorem decoder_delivers_once: "distinct (accepted (decoder_step rs) (decoder_new ses) events)"
proof -
  have "window_inv (decoder_new ses)" using decoder_inv_new by (simp add: decoder_inv_def)
  then show ?thesis using decoder_once.accepted_distinct by blast
qed

text \<open>A frame of another session, a replayed frame and a frame with an impossible shape do not
  touch the groups or the datagrams in reassembly and deliver nothing.\<close>

theorem decoder_ignores_bad_frames:
  assumes "d_session d \<noteq> session f \<or> \<not> fresh_window d \<and> sequence f \<in> spent_sequences d \<or> \<not> frame_dims_ok f"
  shows "\<exists>d' r. decoder_frame rs now d f = (d', r) \<and> groups d' = groups d \<and> packets d' = packets d \<and>
     (\<forall>out. r = Inr out \<longrightarrow> out = []) \<and> (d_session d \<noteq> session f \<longrightarrow> d' = d \<and> r = Inl (Bail ''session mismatch''))"
proof (cases "d_session d = session f")
  case False
  then show ?thesis by (simp add: decoder_frame_cases)
next
  case True
  have "\<not> snd (observe_seq d (sequence f)) \<or> \<not> frame_dims_ok f"
    using assms True observe_accepts_iff by blast
  then show ?thesis
    using True by (auto simp: decoder_frame_cases Let_def)
qed

theorem decoder_ignores_bad_frames_witness:
  "\<exists>d' r. decoder_frame xor_code (\<lambda>_. 5) sample_decoder ((sample_frames ! 0)\<lparr>sequence := 1\<rparr>) = (d', r) \<and>
     groups d' = groups sample_decoder \<and> (\<forall>out. r = Inr out \<longrightarrow> out = [])"
proof -
  have "\<not> fresh_window sample_decoder \<and> sequence ((sample_frames ! 0)\<lparr>sequence := 1\<rparr>) \<in> spent_sequences sample_decoder"
    by (simp add: sample_decoder_eq fresh_window_def spent_sequences_def)
  then show ?thesis
    using decoder_ignores_bad_frames [of sample_decoder "(sample_frames ! 0)\<lparr>sequence := 1\<rparr>" xor_code "\<lambda>_. 5"]
    by blast
qed

end
