(* ===== verification/Keyring.thy ===== *)
theory Keyring
  imports Frame_Wire
begin

text \<open>
  The two keyring readers: \<open>load_keyring\<close> and \<open>parse_keyring\<close> of \<open>src/main.rs\<close>, which
  keeps the hash of every secret, and \<open>parse_keyring\<close> of \<open>src/quic_relay.rs\<close>, which keeps
  the secrets.  A \<open>str\<close> is the list of its Unicode code points; its length in bytes is that of
  its UTF-8 encoding.
\<close>

section \<open>Strings\<close>

type_synonym utext = "nat list"

definition white_space :: "nat \<Rightarrow> bool" where
  "white_space ch \<longleftrightarrow> 9 \<le> ch \<and> ch \<le> 13 \<or> ch = 32 \<or> ch = 0x85 \<or> ch = 0xA0 \<or> ch = 0x1680 \<or>
     0x2000 \<le> ch \<and> ch \<le> 0x200A \<or> ch = 0x2028 \<or> ch = 0x2029 \<or> ch = 0x202F \<or> ch = 0x205F \<or> ch = 0x3000"

definition utf8 :: "nat \<Rightarrow> bytes" where
  "utf8 ch =
     (if ch < 0x80 then [of_nat ch]
      else if ch < 0x800 then [of_nat (0xC0 + ch div 64), of_nat (0x80 + ch mod 64)]
      else if ch < 0x10000 then
        [of_nat (0xE0 + ch div 4096), of_nat (0x80 + ch div 64 mod 64), of_nat (0x80 + ch mod 64)]
      else [of_nat (0xF0 + ch div 262144), of_nat (0x80 + ch div 4096 mod 64),
            of_nat (0x80 + ch div 64 mod 64), of_nat (0x80 + ch mod 64)])"

definition utf8_bytes :: "utext \<Rightarrow> bytes" where
  "utf8_bytes s = concat (map utf8 s)"

text \<open>\<open>str::lines\<close>: a line ends at a line feed, a carriage return before it is dropped.\<close>

definition strip_cr :: "utext \<Rightarrow> utext" where
  "strip_cr l = (if l \<noteq> [] \<and> last l = 13 then butlast l else l)"

fun lines_acc :: "utext \<Rightarrow> utext \<Rightarrow> utext list" where
  "lines_acc acc [] = (if acc = [] then [] else [acc])"
| "lines_acc acc (ch # cs) = (if ch = 10 then strip_cr acc # lines_acc [] cs else lines_acc (acc @ [ch]) cs)"

definition trim :: "utext \<Rightarrow> utext" where
  "trim s = rev (dropWhile white_space (rev (dropWhile white_space s)))"

fun fields_acc :: "utext \<Rightarrow> utext \<Rightarrow> utext list" where
  "fields_acc acc [] = (if acc = [] then [] else [acc])"
| "fields_acc acc (ch # cs) =
     (if white_space ch then (if acc = [] then fields_acc [] cs else acc # fields_acc [] cs)
      else fields_acc (acc @ [ch]) cs)"

definition split_whitespace :: "utext \<Rightarrow> utext list" where
  "split_whitespace s = fields_acc [] s"

text \<open>\<open>u64::from_str\<close>: an optional plus sign and at least one digit, without overflow.\<close>

definition dec_value :: "utext \<Rightarrow> nat" where
  "dec_value ds = foldl (\<lambda>a d. a * 10 + (d - 48)) 0 ds"

definition parse_u64 :: "utext \<Rightarrow> u64 option" where
  "parse_u64 s =
     (let ds = (if s \<noteq> [] \<and> hd s = 43 then tl s else s) in
      if ds = [] \<or> \<not> list_all (\<lambda>d. 48 \<le> d \<and> d \<le> 57) ds \<or> dec_value ds \<ge> 2 ^ 64 then None
      else Some (of_nat (dec_value ds)))"

section \<open>The readers\<close>

definition MAX_DEVICE_KEYS :: nat where "MAX_DEVICE_KEYS = 65536"

definition key :: "crypto \<Rightarrow> utext \<Rightarrow> bytes" where
  "key c raw = plain_hash c (utf8_bytes raw)"

definition keyring_line ::
  "crypto \<Rightarrow> nat \<Rightarrow> utext \<Rightarrow> (u64 \<times> bytes) list \<Rightarrow> (u64 \<times> bytes) list result" where
  "keyring_line c line_no raw res =
     (let line = trim raw in
      if line = [] \<or> hd line = 35 then Inr res
      else case split_whitespace line of
        [] \<Rightarrow> Inl (Bail ''missing key id'')
      | f # fs \<Rightarrow>
          (case parse_u64 f of
             None \<Rightarrow> Inl (BailLine ''invalid key id at line'' (line_no + 1))
           | Some kid \<Rightarrow>
               (case fs of
                  [] \<Rightarrow> Inl (Bail ''missing key secret'')
                | secret # rest \<Rightarrow>
                    if kid = 0 \<or> length (utf8_bytes secret) < 32 \<or> rest \<noteq> []
                    then Inl (BailLine ''invalid keyring entry at line'' (line_no + 1))
                    else if map_of res kid \<noteq> None
                    then Inl (BailLine ''duplicate key id at line'' (line_no + 1))
                    else let res' = AList.update kid (key c secret) res in
                      if length res' > MAX_DEVICE_KEYS then Inl (Bail ''keyring exceeds maximum device count'')
                      else Inr res')))"

fun keyring_lines ::
  "crypto \<Rightarrow> nat \<Rightarrow> utext list \<Rightarrow> (u64 \<times> bytes) list \<Rightarrow> (u64 \<times> bytes) list result" where
  "keyring_lines c n [] res = Inr res"
| "keyring_lines c n (l # ls) res = rbind (keyring_line c n l res) (\<lambda>res'. keyring_lines c (Suc n) ls res')"

definition parse_keyring :: "crypto \<Rightarrow> utext \<Rightarrow> (u64 \<times> bytes) list result" where
  "parse_keyring c t = rbind (keyring_lines c 0 (lines_acc [] t) [])
     (\<lambda>res. if res = [] then Inl (Bail ''keyring contains no device keys'') else Inr res)"

text \<open>
  \<open>mode\<close> is the permission word of the file and \<open>contents\<close> its text (\<open>None\<close> when the
  system call or the UTF-8 decoding fails).
\<close>

unbundle bit_operations_syntax

definition load_keyring :: "crypto \<Rightarrow> u32 option \<Rightarrow> utext option \<Rightarrow> (u64 \<times> bytes) list result" where
  "load_keyring c mode contents =
     (case mode of
        None \<Rightarrow> Inl (Bail ''metadata'')
      | Some m \<Rightarrow>
          if m AND 0x3F \<noteq> 0 then Inl (Bail ''keyring must not be accessible by group or other users'')
          else (case contents of None \<Rightarrow> Inl (Bail ''read keyring'') | Some t \<Rightarrow> parse_keyring c t))"

definition relay_keyring_line ::
  "nat \<Rightarrow> utext \<Rightarrow> (u64 \<times> utext) list \<Rightarrow> (u64 \<times> utext) list result" where
  "relay_keyring_line line_index raw res =
     (let line = trim raw in
      if line = [] \<or> hd line = 35 then Inr res
      else case split_whitespace line of
        [] \<Rightarrow> Inl (Bail ''missing device id'')
      | f # fs \<Rightarrow>
          (case parse_u64 f of
             None \<Rightarrow> Inl (BailLine ''invalid device id on line'' (line_index + 1))
           | Some did \<Rightarrow>
               (case fs of
                  [] \<Rightarrow> Inl (Bail ''missing device secret'')
                | secret # rest \<Rightarrow>
                    if did = 0 \<or> length (utf8_bytes secret) < 32 \<or> rest \<noteq> [] \<or> map_of res did \<noteq> None
                    then Inl (BailLine ''invalid keyring entry on line'' (line_index + 1))
                    else Inr (AList.update did secret res))))"

fun relay_keyring_lines :: "nat \<Rightarrow> utext list \<Rightarrow> (u64 \<times> utext) list \<Rightarrow> (u64 \<times> utext) list result" where
  "relay_keyring_lines n [] res = Inr res"
| "relay_keyring_lines n (l # ls) res =
     rbind (relay_keyring_line n l res) (\<lambda>res'. relay_keyring_lines (Suc n) ls res')"

definition relay_parse_keyring :: "u32 option \<Rightarrow> utext option \<Rightarrow> (u64 \<times> utext) list result" where
  "relay_parse_keyring mode contents =
     (case mode of
        None \<Rightarrow> Inl (Bail ''stat keyring'')
      | Some m \<Rightarrow>
          if m AND 0x3F \<noteq> 0 then Inl (Bail ''keyring must not be accessible by group or other users'')
          else (case contents of
             None \<Rightarrow> Inl (Bail ''read keyring'')
           | Some t \<Rightarrow> rbind (relay_keyring_lines 0 (lines_acc [] t) [])
               (\<lambda>res. if res = [] then Inl (Bail ''keyring contains no devices'') else Inr res)))"

section \<open>Entries\<close>

text \<open>What both readers take from a line: nothing, an entry, or an error.\<close>

datatype line_entry = Skip | Entry u64 utext | Malformed

definition line_entry :: "utext \<Rightarrow> line_entry" where
  "line_entry raw =
     (let line = trim raw in
      if line = [] \<or> hd line = 35 then Skip
      else case split_whitespace line of
        [f, secret] \<Rightarrow>
          (case parse_u64 f of
             None \<Rightarrow> Malformed
           | Some kid \<Rightarrow> if kid = 0 \<or> length (utf8_bytes secret) < 32 then Malformed else Entry kid secret)
      | _ \<Rightarrow> Malformed)"

lemma keyring_line_entry:
  "line_entry raw = Skip \<Longrightarrow> keyring_line c n raw res = Inr res"
  "line_entry raw = Malformed \<Longrightarrow> \<exists>e. keyring_line c n raw res = Inl e"
  "line_entry raw = Entry kid secret \<Longrightarrow> keyring_line c n raw res =
     (if map_of res kid \<noteq> None then Inl (BailLine ''duplicate key id at line'' (n + 1))
      else if Suc (length res) > MAX_DEVICE_KEYS then Inl (Bail ''keyring exceeds maximum device count'')
      else Inr (res @ [(kid, key c secret)]))"
  by (auto simp: line_entry_def keyring_line_def Let_def map_of_None_keys update_fresh
      split: if_splits list.splits option.splits)

lemma relay_line_entry:
  "line_entry raw = Skip \<Longrightarrow> relay_keyring_line n raw res = Inr res"
  "line_entry raw = Malformed \<Longrightarrow> \<exists>e. relay_keyring_line n raw res = Inl e"
  "line_entry raw = Entry kid secret \<Longrightarrow> relay_keyring_line n raw res =
     (if map_of res kid \<noteq> None then Inl (BailLine ''invalid keyring entry on line'' (n + 1))
      else Inr (res @ [(kid, secret)]))"
  by (auto simp: line_entry_def relay_keyring_line_def Let_def map_of_None_keys update_fresh
      split: if_splits list.splits option.splits)

lemma entry_valid: "line_entry raw = Entry kid secret \<Longrightarrow> kid \<noteq> 0 \<and> 32 \<le> length (utf8_bytes secret)"
  by (auto simp: line_entry_def Let_def split: if_splits list.splits option.splits)

definition hashed :: "crypto \<Rightarrow> (u64 \<times> utext) list \<Rightarrow> (u64 \<times> bytes) list" where
  "hashed c m = map (\<lambda>(i, s). (i, key c s)) m"

definition keyring_ok :: "(u64 \<times> utext) list \<Rightarrow> bool" where
  "keyring_ok m \<longleftrightarrow> distinct (keys m) \<and> (\<forall>(i, s) \<in> set m. i \<noteq> 0 \<and> 32 \<le> length (utf8_bytes s))"

lemma keys_hashed: "keys (hashed c m) = keys m"
  by (simp add: hashed_def comp_def case_prod_beta)

lemma relay_lines_ok:
  "keyring_ok res \<Longrightarrow> relay_keyring_lines n ls res = Inr m \<Longrightarrow> keyring_ok m"
proof (induction ls arbitrary: n res)
  case Nil
  then show ?case by simp
next
  case (Cons l ls)
  show ?case
  proof (cases "line_entry l")
    case Skip
    then show ?thesis using Cons relay_line_entry(1) by simp
  next
    case Malformed
    then show ?thesis using Cons.prems relay_line_entry(2) [of l n res] by auto
  next
    case (Entry kid secret)
    have new: "map_of res kid = None" "relay_keyring_lines (Suc n) ls (res @ [(kid, secret)]) = Inr m"
      using Cons.prems(2) relay_line_entry(3) [OF Entry] by (auto split: if_splits)
    then have "keyring_ok (res @ [(kid, secret)])"
      using Cons.prems(1) entry_valid [OF Entry] by (auto simp: keyring_ok_def map_of_None_keys)
    from Cons.IH [OF this new(2)] show ?thesis by simp
  qed
qed

lemma relay_lines_length: "relay_keyring_lines n ls res = Inr m \<Longrightarrow> length res \<le> length m"
proof (induction ls arbitrary: n res)
  case Nil
  then show ?case by simp
next
  case (Cons l ls)
  then obtain res' where "relay_keyring_line n l res = Inr res'" "relay_keyring_lines (Suc n) ls res' = Inr m"
    by (auto simp: rbind_eq_Inr_iff)
  moreover from this(1) have "length res \<le> length res'"
    using relay_line_entry [where raw = l and n = n and res = res] by (cases "line_entry l") (auto split: if_splits)
  ultimately show ?case using Cons.IH by fastforce
qed

lemma lines_agree:
  "length res \<le> MAX_DEVICE_KEYS \<Longrightarrow> keyring_lines c n ls (hashed c res) = Inr m \<longleftrightarrow>
     (\<exists>m'. relay_keyring_lines n ls res = Inr m' \<and> length m' \<le> MAX_DEVICE_KEYS \<and> m = hashed c m')"
proof (induction ls arbitrary: n res)
  case Nil
  then show ?case by auto
next
  case (Cons l ls)
  show ?case
  proof (cases "line_entry l")
    case Skip
    then show ?thesis using Cons keyring_line_entry(1) relay_line_entry(1) by simp
  next
    case Malformed
    then show ?thesis using keyring_line_entry(2) [of l c n "hashed c res"] relay_line_entry(2) [of l n res] by auto
  next
    case (Entry kid secret)
    have k: "map_of (hashed c res) kid = None \<longleftrightarrow> map_of res kid = None"
      using keys_hashed [of c res] by (simp only: map_of_None_keys)
    have h: "hashed c res @ [(kid, key c secret)] = hashed c (res @ [(kid, secret)])" "length (hashed c res) = length res"
      by (simp_all add: hashed_def)
    note lines = keyring_line_entry(3) [OF Entry, of c n "hashed c res"] relay_line_entry(3) [OF Entry, of n res]
    have big: "length res < length m'" if "relay_keyring_lines (Suc n) ls (res @ [(kid, secret)]) = Inr m'" for m'
      using relay_lines_length [OF that] by simp
    show ?thesis
    proof (cases "map_of res kid = None \<and> Suc (length res) \<le> MAX_DEVICE_KEYS")
      case True
      then show ?thesis using Cons.IH [of "res @ [(kid, secret)]" "Suc n"] k h lines by simp
    next
      case False
      then show ?thesis using k h lines big Cons.prems by (auto dest: big)
    qed
  qed
qed

section \<open>Writing a keyring\<close>

text \<open>The documented file format: one identifier and secret per line.\<close>

function dec :: "nat \<Rightarrow> utext" where
  "dec n = (if n < 10 then [48 + n] else dec (n div 10) @ [48 + n mod 10])"
  by pat_completeness auto
termination by (relation "measure id") auto

declare dec.simps [simp del]

definition render_entry :: "u64 \<times> utext \<Rightarrow> utext" where
  "render_entry x = dec (unat (fst x)) @ [32] @ snd x"

definition render_keyring :: "(u64 \<times> utext) list \<Rightarrow> utext" where
  "render_keyring m = concat (map (\<lambda>x. render_entry x @ [10]) m)"

definition word_text :: "utext \<Rightarrow> bool" where
  "word_text s \<longleftrightarrow> s \<noteq> [] \<and> (\<forall>ch \<in> set s. \<not> white_space ch)"

lemma dec_value_snoc: "dec_value (ds @ [d]) = dec_value ds * 10 + (d - 48)"
  by (simp add: dec_value_def)

lemma dec_props: "dec n \<noteq> [] \<and> (\<forall>d \<in> set (dec n). 48 \<le> d \<and> d \<le> 57) \<and> dec_value (dec n) = n"
proof (induction n rule: dec.induct)
  case (1 n)
  show ?case
  proof (cases "n < 10")
    case True
    then show ?thesis by (simp add: dec.simps [of n] dec_value_def)
  next
    case False
    have "n mod 10 \<le> 9" by (simp add: less_Suc_eq_le [symmetric])
    with False 1 show ?thesis by (auto simp: dec.simps [of n] dec_value_snoc)
  qed
qed

lemma parse_dec: "parse_u64 (dec (unat w)) = Some w"
proof -
  have d: "dec (unat w) \<noteq> []" "\<forall>d \<in> set (dec (unat w)). 48 \<le> d \<and> d \<le> 57" "dec_value (dec (unat w)) = unat w"
    using dec_props by blast+
  then have "hd (dec (unat w)) \<noteq> 43" using hd_in_set by fastforce
  moreover have "unat w < 2 ^ 64" using unat_less_width [of w] by simp
  ultimately show ?thesis using d by (simp add: parse_u64_def list_all_iff)
qed

lemma word_text_dec: "word_text (dec n)"
  using dec_props [of n] by (fastforce simp: word_text_def white_space_def)

lemma fields_acc_word: "\<forall>ch \<in> set a. \<not> white_space ch \<Longrightarrow> fields_acc acc (a @ rest) = fields_acc (acc @ a) rest"
  by (induction a arbitrary: acc) auto

lemma split_two: "word_text a \<Longrightarrow> word_text b \<Longrightarrow> split_whitespace (a @ [32] @ b) = [a, b]"
  using fields_acc_word [of b "[]" "[]"]
  by (auto simp: split_whitespace_def word_text_def fields_acc_word white_space_def)

lemma trim_words: "word_text a \<Longrightarrow> word_text b \<Longrightarrow> trim (a @ [32] @ b) = a @ [32] @ b"
proof -
  assume w: "word_text a" "word_text b"
  obtain x a' where a: "a = x # a'" "\<not> white_space x" using w(1) by (cases a) (auto simp: word_text_def)
  obtain b' y where b: "b = b' @ [y]" "\<not> white_space y" using w(2) by (cases b rule: rev_cases) (auto simp: word_text_def)
  show ?thesis by (simp add: trim_def a b)
qed

lemma render_line_entry:
  assumes "word_text s" and "i \<noteq> 0" and "32 \<le> length (utf8_bytes s)"
  shows "line_entry (render_entry (i, s)) = Entry i s"
proof -
  have hd: "hd (dec (unat i) @ [32] @ s) \<noteq> 35" and ne: "dec (unat i) \<noteq> []"
    using dec_props [of "unat i"] by (cases "dec (unat i)"; force)+
  show ?thesis
    unfolding line_entry_def render_entry_def fst_conv snd_conv trim_words [OF word_text_dec assms(1)] Let_def
      split_two [OF word_text_dec assms(1)] parse_dec
    using hd ne assms(2,3) by (simp add: parse_dec)
qed

lemma lines_acc_line: "10 \<notin> set l \<Longrightarrow> lines_acc acc (l @ 10 # rest) = strip_cr (acc @ l) # lines_acc [] rest"
  by (induction l arbitrary: acc) auto

lemma render_lines:
  assumes "\<forall>x \<in> set m. word_text (snd x)"
  shows "lines_acc [] (render_keyring m) = map render_entry m"
  using assms
proof (induction m)
  case Nil
  then show ?case by (simp add: render_keyring_def)
next
  case (Cons x m)
  have w: "word_text (snd x)" using Cons.prems by simp
  have ws: "white_space 10" "white_space 13" by (simp_all add: white_space_def)
  have "10 \<notin> set (render_entry x)"
    using w word_text_dec [of "unat (fst x)"] ws(1) unfolding render_entry_def word_text_def by auto
  moreover have "strip_cr (render_entry x) = render_entry x"
  proof -
    have "last (render_entry x) = last (snd x)" "last (snd x) \<in> set (snd x)"
      using w by (simp_all add: render_entry_def word_text_def)
    then have "last (render_entry x) \<noteq> 13" using w ws(2) unfolding word_text_def by metis
    then show ?thesis by (simp add: strip_cr_def)
  qed
  ultimately show ?case using Cons lines_acc_line by (simp add: render_keyring_def)
qed

lemma relay_lines_render:
  "keyring_ok (res @ m) \<Longrightarrow> \<forall>x \<in> set m. word_text (snd x) \<Longrightarrow>
   relay_keyring_lines n (map render_entry m) res = Inr (res @ m)"
proof (induction m arbitrary: n res)
  case Nil
  then show ?case by simp
next
  case (Cons x m)
  obtain i s where x: "x = (i, s)" by fastforce
  have e: "line_entry (render_entry x) = Entry i s"
    using Cons.prems render_line_entry by (auto simp: x keyring_ok_def)
  have "map_of res i = None" using Cons.prems(1) by (auto simp: x keyring_ok_def map_of_None_keys)
  with Cons.IH [of "res @ [(i, s)]" "Suc n"] Cons.prems relay_line_entry(3) [OF e] show ?case by (simp add: x)
qed

section \<open>Properties\<close>

text \<open>C24: the two readers accept the same files and find the same devices, except that the tunnel server
  refuses more than 65536 devices; the tunnel server stores the hash of exactly the secret the QUIC
  relay stores.\<close>

theorem keyring_readers_agree:
  "load_keyring c mode contents = Inr m \<longleftrightarrow>
     (\<exists>m'. relay_parse_keyring mode contents = Inr m' \<and> length m' \<le> 65536 \<and> m = map (\<lambda>(i, s). (i, key c s)) m')"
proof (cases "\<exists>p t. mode = Some p \<and> p AND 0x3F = 0 \<and> contents = Some t")
  case False
  then show ?thesis by (auto simp: load_keyring_def relay_parse_keyring_def split: option.splits)
next
  case True
  then obtain p t where "mode = Some p" "p AND 0x3F = 0" "contents = Some t" by blast
  then have l: "load_keyring c mode contents = parse_keyring c t" and
    r: "relay_parse_keyring mode contents = rbind (relay_keyring_lines 0 (lines_acc [] t) [])
      (\<lambda>res. if res = [] then Inl (Bail ''keyring contains no devices'') else Inr res)"
    by (simp_all add: load_keyring_def relay_parse_keyring_def)
  have "keyring_lines c 0 (lines_acc [] t) [] = Inr res \<longleftrightarrow>
     (\<exists>m'. relay_keyring_lines 0 (lines_acc [] t) [] = Inr m' \<and> length m' \<le> MAX_DEVICE_KEYS \<and> res = hashed c m')" for res
    using lines_agree [of "[]" c 0 "lines_acc [] t" res] by (simp add: hashed_def)
  moreover have "hashed c m' = [] \<longleftrightarrow> m' = []" for m' by (simp add: hashed_def)
  ultimately show ?thesis
    unfolding l r parse_keyring_def rbind_eq_Inr_iff hashed_def [symmetric] MAX_DEVICE_KEYS_def [symmetric] by auto
qed

lemma relay_keyring_ok:
  assumes "relay_parse_keyring mode contents = Inr m"
  shows "keyring_ok m"
proof -
  obtain t where "relay_keyring_lines 0 (lines_acc [] t) [] = Inr m"
    using assms by (auto simp: relay_parse_keyring_def rbind_eq_Inr_iff split: option.splits if_splits)
  then show ?thesis by (rule relay_lines_ok [rotated]) (simp add: keyring_ok_def)
qed

text \<open>C39: every keyring that is accepted is non-empty and has at most 65536 distinct, non-zero
  identifiers, each with the hash of a secret of at least 32 bytes; a file that group or others may
  access is refused.\<close>

theorem keyring_accepted_ok:
  assumes "load_keyring c mode contents = Inr m"
  shows "m \<noteq> [] \<and> length m \<le> 65536 \<and> distinct (keys m) \<and>
     (\<forall>(i, k) \<in> set m. i \<noteq> 0 \<and> (\<exists>s. 32 \<le> length (utf8_bytes s) \<and> k = key c s)) \<and>
     (\<exists>p. mode = Some p \<and> p AND 0x3F = 0)"
proof -
  obtain p t where mt: "mode = Some p" "p AND 0x3F = 0" "contents = Some t" "parse_keyring c t = Inr m"
    using assms by (auto simp: load_keyring_def split: option.splits if_splits)
  then have kl: "keyring_lines c 0 (lines_acc [] t) (hashed c []) = Inr m" "m \<noteq> []"
    by (auto simp: parse_keyring_def rbind_eq_Inr_iff hashed_def split: if_splits)
  then obtain m' where m': "relay_keyring_lines 0 (lines_acc [] t) [] = Inr m'" "length m' \<le> MAX_DEVICE_KEYS" "m = hashed c m'"
    using lines_agree [of "[]" c 0 "lines_acc [] t" m] by auto
  have "keyring_ok m'" by (rule relay_lines_ok [OF _ m'(1)]) (simp add: keyring_ok_def)
  then have "distinct (keys m)" "\<forall>(i, k) \<in> set m. i \<noteq> 0 \<and> (\<exists>s. 32 \<le> length (utf8_bytes s) \<and> k = key c s)"
    unfolding m'(3) keys_hashed by (auto simp: keyring_ok_def hashed_def)
  then show ?thesis using mt(1,2) kl(2) m'(2,3) by (simp add: MAX_DEVICE_KEYS_def hashed_def)
qed

text \<open>A keyring written in the documented format, one identifier and secret per line, is read back as
  it was written.\<close>

theorem keyring_roundtrip:
  assumes "keyring_ok m" and "m \<noteq> []" and "length m \<le> 65536" and "\<forall>x \<in> set m. word_text (snd x)"
  shows "parse_keyring c (render_keyring m) = Inr (map (\<lambda>(i, s). (i, key c s)) m)"
proof -
  have "relay_keyring_lines 0 (lines_acc [] (render_keyring m)) [] = Inr m"
    using relay_lines_render [of "[]" m 0] assms by (simp add: render_lines)
  then have "keyring_lines c 0 (lines_acc [] (render_keyring m)) [] = Inr (hashed c m)"
    using lines_agree [of "[]" c 0 "lines_acc [] (render_keyring m)" "hashed c m"] assms(3)
    by (auto simp: hashed_def MAX_DEVICE_KEYS_def)
  then show ?thesis using assms(2) by (simp add: parse_keyring_def hashed_def)
qed

definition sample_keyring :: "(u64 \<times> utext) list" where
  "sample_keyring = [(7, replicate 32 97), (12, replicate 40 98)]"

lemma sample_keyring_ok:
  "keyring_ok sample_keyring" "sample_keyring \<noteq> []" "length sample_keyring \<le> 65536"
  "\<forall>x \<in> set sample_keyring. word_text (snd x)"
  by (simp_all add: sample_keyring_def keyring_ok_def word_text_def white_space_def utf8_bytes_def utf8_def
      length_concat sum_list_replicate)

lemma sample_keyring_lines: "relay_keyring_lines 0 (lines_acc [] (render_keyring sample_keyring)) [] = Inr sample_keyring"
  using relay_lines_render [of "[]" sample_keyring 0] sample_keyring_ok by (simp add: render_lines)

lemma sample_keyring_read: "relay_parse_keyring (Some 0x8180) (Some (render_keyring sample_keyring)) = Inr sample_keyring"
  by (simp add: relay_parse_keyring_def sample_keyring_lines sample_keyring_ok(2))

theorem keyring_roundtrip_witness:
  "parse_keyring sum_crypto (render_keyring sample_keyring) = Inr (map (\<lambda>(i, s). (i, key sum_crypto s)) sample_keyring)"
  by (rule keyring_roundtrip [OF sample_keyring_ok])

theorem keyring_accepted_ok_witness:
  "\<exists>m. load_keyring sum_crypto (Some 0x8180) (Some (render_keyring sample_keyring)) = Inr m \<and> distinct (keys m)"
proof -
  have "keyring_lines sum_crypto 0 (lines_acc [] (render_keyring sample_keyring)) [] = Inr (hashed sum_crypto sample_keyring)"
    using sample_keyring_lines lines_agree [of "[]" sum_crypto 0 "lines_acc [] (render_keyring sample_keyring)" "hashed sum_crypto sample_keyring"]
    by (auto simp: hashed_def MAX_DEVICE_KEYS_def sample_keyring_def)
  then have l: "load_keyring sum_crypto (Some 0x8180) (Some (render_keyring sample_keyring)) = Inr (hashed sum_crypto sample_keyring)"
    by (simp add: load_keyring_def parse_keyring_def hashed_def sample_keyring_def)
  from keyring_accepted_ok [OF l] l show ?thesis by blast
qed

end
