(* ===== verification/Tunnel_Endpoints.thy ===== *)
theory Tunnel_Endpoints
  imports Tunnel_Properties
begin

text \<open>
  The two ends of the tunnel (\<open>src/main.rs\<close>): the loop of \<open>client\<close> and the loop of one
  server session, \<open>run_server_session\<close>.  Each turn of a \<open>tokio::select!\<close> loop handles one
  event, so a loop is a step function on its variables; what it sends is the list of actions of the
  step.  A socket address is an opaque number.  A panic would end the process; the invariants below
  show that none is reached.
\<close>

section \<open>State and operations\<close>

text \<open>
  \<open>send_frames\<close> and \<open>send_session_frames\<close> put one frame after the other on the wire and
  skip a frame that cannot be encrypted; \<open>rnd i\<close> are the nonce and the selector suffix drawn for
  frame number \<open>i\<close>.
\<close>

definition send_frames :: "crypto \<Rightarrow> bytes \<Rightarrow> (nat \<Rightarrow> bytes \<times> bytes) \<Rightarrow> frame list \<Rightarrow> bytes list" where
  "send_frames c key rnd fs = List.map_filter (\<lambda>i.
     case encode_wire c (fs ! i) key (fst (rnd i)) (snd (rnd i)) of Inl _ \<Rightarrow> None | Inr buf \<Rightarrow> Some buf) [0..<length fs]"

record worker =
  w_session :: u64
  w_version :: u8
  w_key_id :: u64
  w_decoder :: decoder
  w_encoder :: encoder
  w_peer :: "addr option"

datatype action = ToUpstream bytes | ToPeer frame addr

definition worker_new :: "u64 \<Rightarrow> u8 \<Rightarrow> u64 \<Rightarrow> nat option \<Rightarrow> worker" where
  "worker_new ses ver kid forced = \<lparr>w_session = ses, w_version = ver, w_key_id = kid,
     w_decoder = decoder_new ses, w_encoder = with_identity ses ver kid forced, w_peer = None\<rparr>"

definition adapt :: "encoder \<Rightarrow> bytes \<Rightarrow> encoder" where
  "adapt e pl = e\<lparr>en_adaptive := report (en_adaptive e) (from_be (take 4 pl))\<rparr>"

definition worker_packet ::
  "rs_code \<Rightarrow> (nat \<Rightarrow> instant) \<Rightarrow> worker \<Rightarrow> frame \<Rightarrow> addr \<Rightarrow> worker \<times> action list" where
  "worker_packet rs now w0 f peer =
     (let w = w0\<lparr>w_peer := Some peer\<rparr> in
      if session f \<noteq> w_session w \<or> version f \<noteq> w_version w \<or> key_id f \<noteq> w_key_id w then (w, [])
      else if kind f = KIND_REPORT \<and> length (payload f) = 4 then
        (let (d, ok) = observe_seq (w_decoder w) (sequence f) in
         (w\<lparr>w_decoder := d, w_encoder := (if ok then adapt (w_encoder w) (payload f) else w_encoder w)\<rparr>, []))
      else case decoder_frame rs now (w_decoder w) f of
        (d, Inr dgs) \<Rightarrow> (w\<lparr>w_decoder := d\<rparr>, map ToUpstream dgs)
      | (d, Inl _) \<Rightarrow> (w\<lparr>w_decoder := d\<rparr>, []))"

definition worker_upstream :: "rs_code \<Rightarrow> worker \<Rightarrow> bytes \<Rightarrow> worker \<times> action list" where
  "worker_upstream rs w datagram =
     (case w_peer w of
        None \<Rightarrow> (w, [])
      | Some peer \<Rightarrow>
          (case encode_datagram rs (w_encoder w) datagram of
             (e, Inr fs) \<Rightarrow> (w\<lparr>w_encoder := e\<rparr>, map (\<lambda>f. ToPeer f peer) fs)
           | (e, Inl _) \<Rightarrow> (w\<lparr>w_encoder := e\<rparr>, [])))"

definition loss_sample :: "seq_report option \<Rightarrow> u32" where
  "loss_sample r = (case r of None \<Rightarrow> LOSS_SAMPLE_UNAVAILABLE | Some s \<Rightarrow> sequence_gap_ppm s)"

definition worker_report :: "worker \<Rightarrow> worker \<times> action list" where
  "worker_report w =
     (case w_peer w of
        None \<Rightarrow> (w, [])
      | Some peer \<Rightarrow>
          (let (d, r) = sequence_report (w_decoder w); (e, f) = report_frame (w_encoder w) (loss_sample r) in
           (w\<lparr>w_decoder := d, w_encoder := e\<rparr>, [ToPeer f peer])))"

definition worker_flush :: "rs_code \<Rightarrow> worker \<Rightarrow> worker \<times> action list" where
  "worker_flush rs w =
     (case w_peer w of
        None \<Rightarrow> (w, [])
      | Some peer \<Rightarrow>
          (case flush rs (w_encoder w) of
             (e, Inr fs) \<Rightarrow> (w\<lparr>w_encoder := e\<rparr>, map (\<lambda>f. ToPeer f peer) fs)
           | (e, Inl _) \<Rightarrow> (w\<lparr>w_encoder := e\<rparr>, [])))"

datatype worker_event = Packet "nat \<Rightarrow> instant" frame addr | Upstream bytes | ReportTick | FlushTick

fun worker_step :: "rs_code \<Rightarrow> worker \<Rightarrow> worker_event \<Rightarrow> worker \<times> action list" where
  "worker_step rs w (Packet now f peer) = worker_packet rs now w f peer"
| "worker_step rs w (Upstream datagram) = worker_upstream rs w datagram"
| "worker_step rs w ReportTick = worker_report w"
| "worker_step rs w FlushTick = worker_flush rs w"

text \<open>The client: the same two halves, the application instead of the upstream server.  An error of
  the encoder ends the client.\<close>

record tunnel_client =
  c_key_id :: u64
  c_key :: bytes
  c_session :: u64
  c_decoder :: decoder
  c_encoder :: encoder
  c_app_peer :: "addr option"

datatype client_action = ToServer frame | ToApp bytes addr

definition client_new :: "bytes \<Rightarrow> u64 option \<Rightarrow> u64 \<Rightarrow> nat option \<Rightarrow> tunnel_client result" where
  "client_new k kid ses forced =
     (case kid of
        None \<Rightarrow> Inl (Bail ''key-id required: legacy V1/V2 removed'')
      | Some i \<Rightarrow>
          if i = 0 then Inl (Bail ''key-id 0 is reserved'')
          else Inr \<lparr>c_key_id = i, c_key = k, c_session = ses, c_decoder = decoder_new ses,
                    c_encoder = with_identity ses VERSION_V3 i forced, c_app_peer = None\<rparr>)"

definition client_local :: "rs_code \<Rightarrow> tunnel_client \<Rightarrow> bytes \<Rightarrow> addr \<Rightarrow> tunnel_client \<times> client_action list result" where
  "client_local rs cl datagram peer =
     (case encode_datagram rs (c_encoder cl) datagram of
        (e, Inr fs) \<Rightarrow> (cl\<lparr>c_app_peer := Some peer, c_encoder := e\<rparr>, Inr (map ToServer fs))
      | (e, Inl err) \<Rightarrow> (cl\<lparr>c_app_peer := Some peer, c_encoder := e\<rparr>, Inl err))"

definition client_net ::
  "crypto \<Rightarrow> rs_code \<Rightarrow> (nat \<Rightarrow> instant) \<Rightarrow> tunnel_client \<Rightarrow> bytes \<Rightarrow> tunnel_client \<times> client_action list" where
  "client_net c rs now cl buf =
     (case decode_client_frame c buf (c_key_id cl) (c_key cl) of
        Inl _ \<Rightarrow> (cl, [])
      | Inr f \<Rightarrow>
          if version f \<noteq> VERSION_V3 \<or> key_id f \<noteq> c_key_id cl \<or> session f \<noteq> c_session cl then (cl, [])
          else if kind f = KIND_REPORT \<and> length (payload f) = 4 then
            (let (d, ok) = observe_seq (c_decoder cl) (sequence f) in
             (cl\<lparr>c_decoder := d, c_encoder := (if ok then adapt (c_encoder cl) (payload f) else c_encoder cl)\<rparr>, []))
          else case decoder_frame rs now (c_decoder cl) f of
            (d, Inr dgs) \<Rightarrow>
              (cl\<lparr>c_decoder := d\<rparr>, case c_app_peer cl of None \<Rightarrow> [] | Some p \<Rightarrow> map (\<lambda>g. ToApp g p) dgs)
          | (d, Inl _) \<Rightarrow> (cl\<lparr>c_decoder := d\<rparr>, []))"

definition client_report :: "tunnel_client \<Rightarrow> tunnel_client \<times> client_action list" where
  "client_report cl =
     (let (d, r) = sequence_report (c_decoder cl); (e, f) = report_frame (c_encoder cl) (loss_sample r) in
      (cl\<lparr>c_decoder := d, c_encoder := e\<rparr>, [ToServer f]))"

definition client_flush :: "rs_code \<Rightarrow> tunnel_client \<Rightarrow> tunnel_client \<times> client_action list result" where
  "client_flush rs cl =
     (case flush rs (c_encoder cl) of
        (e, Inr fs) \<Rightarrow> (cl\<lparr>c_encoder := e\<rparr>, Inr (map ToServer fs))
      | (e, Inl err) \<Rightarrow> (cl\<lparr>c_encoder := e\<rparr>, Inl err))"

text \<open>\<open>LocalFailed\<close> is an error of the socket on the application's side, the one input that ends the client.\<close>

datatype client_event = Local bytes addr | LocalFailed string | Net "nat \<Rightarrow> instant" bytes | ClientReport | ClientFlush

fun client_step :: "crypto \<Rightarrow> rs_code \<Rightarrow> tunnel_client \<Rightarrow> client_event \<Rightarrow> tunnel_client \<times> client_action list result" where
  "client_step c rs cl (Local datagram peer) = client_local rs cl datagram peer"
| "client_step c rs cl (LocalFailed msg) = (cl, Inl (Bail msg))"
| "client_step c rs cl (Net now buf) = (case client_net c rs now cl buf of (cl', acts) \<Rightarrow> (cl', Inr acts))"
| "client_step c rs cl ClientReport = (case client_report cl of (cl', acts) \<Rightarrow> (cl', Inr acts))"
| "client_step c rs cl ClientFlush = client_flush rs cl"

text \<open>The loop ends with the first error.\<close>

fun client_loop ::
  "crypto \<Rightarrow> rs_code \<Rightarrow> tunnel_client \<Rightarrow> client_event list \<Rightarrow> tunnel_client \<times> client_action list result" where
  "client_loop c rs cl [] = (cl, Inr [])"
| "client_loop c rs cl (ev # evs) =
     (case client_step c rs cl ev of
        (cl1, Inl err) \<Rightarrow> (cl1, Inl err)
      | (cl1, Inr acts) \<Rightarrow>
          (case client_loop c rs cl1 evs of
             (cl2, Inl err) \<Rightarrow> (cl2, Inl err)
           | (cl2, Inr acts') \<Rightarrow> (cl2, Inr (acts @ acts'))))"

fun worker_loop :: "rs_code \<Rightarrow> worker \<Rightarrow> worker_event list \<Rightarrow> worker \<times> action list" where
  "worker_loop rs w [] = (w, [])"
| "worker_loop rs w (ev # evs) =
     (let (w1, acts) = worker_step rs w ev; (w2, acts') = worker_loop rs w1 evs in (w2, acts @ acts'))"

section \<open>Sequence numbers of the sender\<close>

text \<open>
  \<open>sends e fs e'\<close>: the encoder gave the frames \<open>fs\<close> consecutive sequence numbers;
  \<open>skips e e'\<close>: it used up sequence numbers without sending (an error of the erasure code).
\<close>

definition same_identity :: "encoder \<Rightarrow> encoder \<Rightarrow> bool" where
  "same_identity e e' \<longleftrightarrow> en_version e' = en_version e \<and> en_key_id e' = en_key_id e \<and> en_session e' = en_session e \<and>
     en_adaptive e' = en_adaptive e \<and> force_parity e' = force_parity e"

definition sends :: "encoder \<Rightarrow> frame list \<Rightarrow> encoder \<Rightarrow> bool" where
  "sends e fs e' \<longleftrightarrow> same_identity e e' \<and> en_sequence e' = en_sequence e + of_nat (length fs) \<and>
     (\<forall>i < length fs. sequence (fs ! i) = en_sequence e + of_nat i) \<and>
     (\<forall>f \<in> set fs. version f = en_version e \<and> key_id f = en_key_id e \<and> session f = en_session e)"

definition skips :: "encoder \<Rightarrow> encoder \<Rightarrow> bool" where
  "skips e e' \<longleftrightarrow> same_identity e e' \<and> (\<exists>k. en_sequence e' = en_sequence e + of_nat k)"

lemma sends_trans: "sends e fs e1 \<Longrightarrow> sends e1 fs' e2 \<Longrightarrow> sends e (fs @ fs') e2"
proof -
  assume a: "sends e fs e1" "sends e1 fs' e2"
  have "sequence ((fs @ fs') ! i) = en_sequence e + of_nat i" if "i < length (fs @ fs')" for i
    using a that by (cases "i < length fs") (auto simp: sends_def nth_append)
  with a show ?thesis by (auto simp: sends_def same_identity_def)
qed

lemma sends_skips_trans: "sends e fs e1 \<Longrightarrow> skips e1 e2 \<Longrightarrow> skips e e2"
proof -
  assume a: "sends e fs e1" "skips e1 e2"
  then obtain k where "en_sequence e2 = en_sequence e + of_nat (length fs + k)"
    by (auto simp: sends_def skips_def add.assoc)
  with a show ?thesis unfolding sends_def skips_def same_identity_def by metis
qed

lemma sends_Nil: "same_identity e e' \<Longrightarrow> en_sequence e' = en_sequence e \<Longrightarrow> sends e [] e'"
  by (simp add: sends_def)

lemma flush_sends:
  assumes "flush rs e = (e', r)"
  shows "case r of Inr fs \<Rightarrow> sends e fs e' | Inl _ \<Rightarrow> skips e e'"
proof (cases "en_shards e = []")
  case True
  then show ?thesis using assms by (auto simp: flush_def sends_def same_identity_def)
next
  case False
  let ?n = "length (en_shards e)" and ?p = "flush_parity e (length (en_shards e))"
  have nth: "(xs @ ys) ! i = (if i < length xs then xs ! i else ys ! (i - length xs))" for xs ys :: "frame list" and i
    by (simp add: nth_append)
  have frame: "version (shard_frame e k n p i s) = en_version e" "key_id (shard_frame e k n p i s) = en_key_id e"
    "session (shard_frame e k n p i s) = en_session e" "sequence (shard_frame e k n p i s) = en_sequence e + of_nat i"
    for k n p i s
    by (simp_all add: shard_frame_def)
  show ?thesis
    using assms False unfolding flush_def Let_def
    by (auto simp: sends_def skips_def same_identity_def frame nth add.assoc
        split: if_splits option.splits intro: exI [of _ ?n])
qed

lemma encode_chunks_sends:
  "encode_chunks rs pid cnt idx cs e frames = (e', r) \<Longrightarrow>
   case r of Inr fs \<Rightarrow> (\<exists>new. fs = frames @ new \<and> sends e new e') | Inl _ \<Rightarrow> skips e e'"
proof (induction cs arbitrary: idx e frames)
  case Nil
  then show ?case by (auto simp: sends_def same_identity_def)
next
  case (Cons c cs)
  let ?e1 = "e\<lparr>en_shards := en_shards e @ [make_shard pid idx cnt c]\<rparr>"
  have push: "sends e [] ?e1" by (rule sends_Nil) (simp_all add: same_identity_def)
  show ?case
  proof (cases "length (en_shards ?e1) = DATA_SHARDS")
    case False
    then have "encode_chunks rs pid cnt (Suc idx) cs ?e1 frames = (e', r)" using Cons.prems by simp
    from Cons.IH [OF this] show ?thesis
      using sends_trans [OF push] sends_skips_trans [OF push] by (auto split: sum.splits)
  next
    case True
    obtain e2 r2 where fl: "flush rs ?e1 = (e2, r2)" by fastforce
    note fs = flush_sends [OF fl]
    show ?thesis
    proof (cases r2)
      case (Inl err)
      then show ?thesis using Cons.prems True fl fs sends_skips_trans [OF push] by auto
    next
      case (Inr new)
      then have s: "sends e new e2" using fs sends_trans [OF push] by fastforce
      have "encode_chunks rs pid cnt (Suc idx) cs e2 (frames @ new) = (e', r)"
        using Cons.prems True fl Inr by simp
      from Cons.IH [OF this] show ?thesis
        using sends_trans [OF s] sends_skips_trans [OF s] by (auto split: sum.splits)
    qed
  qed
qed

lemma encode_datagram_sends:
  assumes "encode_datagram rs e pl = (e', r)"
  shows "case r of Inr fs \<Rightarrow> sends e fs e' | Inl _ \<Rightarrow> skips e e'"
proof -
  let ?e1 = "e\<lparr>en_packet := en_packet e + 1\<rparr>"
  have push: "sends e [] ?e1" by (rule sends_Nil) (simp_all add: same_identity_def)
  have none: "skips e ?e1" unfolding skips_def same_identity_def by (intro conjI exI [of _ 0]) simp_all
  show ?thesis
  proof (cases "div_ceil (max (length pl) 1) CHUNK > 65535")
    case True
    then show ?thesis using assms none by (auto simp: encode_datagram_def Let_def)
  next
    case False
    then have "encode_chunks rs (en_packet e) (div_ceil (max (length pl) 1) CHUNK) 0
        (if pl = [] then [[]] else chunks CHUNK pl) ?e1 [] = (e', r)"
      using assms by (simp add: encode_datagram_def Let_def)
    from encode_chunks_sends [OF this] show ?thesis
      using sends_trans [OF push] sends_skips_trans [OF push] by (auto split: sum.splits)
  qed
qed

text \<open>The numbers of the frames sent in a run, as natural numbers from \<open>a\<close> up to \<open>b\<close>.\<close>

definition seq_run :: "nat \<Rightarrow> frame list \<Rightarrow> nat \<Rightarrow> bool" where
  "seq_run a fs b \<longleftrightarrow> a \<le> b \<and> (\<exists>is. map sequence fs = map of_nat is \<and> sorted_wrt (<) is \<and> (\<forall>i \<in> set is. a \<le> i \<and> i < b))"

lemma seq_run_trans: "seq_run a fs b \<Longrightarrow> seq_run b fs' c \<Longrightarrow> seq_run a (fs @ fs') c"
proof -
  assume "seq_run a fs b" "seq_run b fs' c"
  then obtain "is" js where ab: "a \<le> b" "b \<le> c" "map sequence fs = map of_nat is" "sorted_wrt (<) is"
    "\<forall>i \<in> set is. a \<le> i \<and> i < b" "map sequence fs' = map of_nat js" "sorted_wrt (<) js" "\<forall>i \<in> set js. b \<le> i \<and> i < c"
    unfolding seq_run_def by blast
  have srt: "sorted_wrt (<) (is @ js)" using ab(4,5,7,8) by (fastforce simp: sorted_wrt_append)
  have "\<forall>i \<in> set (is @ js). a \<le> i \<and> i < c" using ab(1,2,5,8) by (fastforce dest: le_trans less_le_trans)
  then show ?thesis
    unfolding seq_run_def using ab(1,2,3,6) srt by (intro conjI exI [of _ "is @ js"]) auto
qed

lemma sends_seq_run:
  assumes "sends e fs e'" and "en_sequence e = of_nat a"
  shows "en_sequence e' = of_nat (a + length fs) \<and> seq_run a fs (a + length fs)"
proof -
  have "map sequence fs = map of_nat [a..<a + length fs]"
    using assms by (intro nth_equalityI) (auto simp: sends_def)
  then have "seq_run a fs (a + length fs)"
    unfolding seq_run_def by (intro conjI exI [of _ "[a..<a + length fs]"]) auto
  then show ?thesis using assms by (simp add: sends_def)
qed

lemma seq_run_Nil: "a \<le> b \<Longrightarrow> seq_run a [] b"
  by (simp add: seq_run_def)

lemma skips_seq_run: "skips e e' \<Longrightarrow> en_sequence e = of_nat a \<Longrightarrow> \<exists>b. en_sequence e' = of_nat b \<and> seq_run a [] b"
proof -
  assume "skips e e'" "en_sequence e = of_nat a"
  then obtain k where "en_sequence e' = of_nat (a + k)" by (auto simp: skips_def)
  moreover have "seq_run a [] (a + k)" by (rule seq_run_Nil) simp
  ultimately show ?thesis by blast
qed

section \<open>Invariants\<close>

text \<open>
  Both endpoints are a decoder and an encoder of one identity; \<open>duplex_ok\<close> is their shared
  invariant.  The decoder part needs that the erasure code keeps the number of shards.
\<close>

definition duplex_ok :: "rs_code \<Rightarrow> u64 \<Rightarrow> u8 \<Rightarrow> u64 \<Rightarrow> decoder \<Rightarrow> encoder \<Rightarrow> bool" where
  "duplex_ok rs ses ver kid d e \<longleftrightarrow> (rs_shape rs \<longrightarrow> decoder_inv d) \<and> d_session d = ses \<and>
     en_session e = ses \<and> en_version e = ver \<and> en_key_id e = kid \<and> adaptive_inv (en_adaptive e) \<and>
     parity_level e \<le> MAX_PARITY"

lemma duplex_new: "duplex_ok rs ses ver kid (decoder_new ses) (with_identity ses ver kid forced)"
  using encoder_inv_with_identity [of ses ver kid forced] decoder_inv_new [of ses]
  by (simp add: duplex_ok_def encoder_inv_def encoder_params_ok_def decoder_new_def with_identity_def)

lemma duplex_decoder_frame:
  assumes "duplex_ok rs ses ver kid d e"
  shows "duplex_ok rs ses ver kid (fst (decoder_frame rs now d f)) e"
proof -
  have "d_session (fst (decoder_frame rs now d f)) = d_session d"
  proof (cases "d_session d = session f")
    case True
    from decoder_frame_window [OF this, of rs now] show ?thesis by (simp add: same_window_def)
  next
    case False
    then show ?thesis by (simp add: decoder_frame_def)
  qed
  with assms decoder_frame_inv [of d rs] show ?thesis by (auto simp: duplex_ok_def)
qed

lemma duplex_observe: "duplex_ok rs ses ver kid d e \<Longrightarrow> duplex_ok rs ses ver kid (fst (observe_seq d q)) e"
  by (simp add: duplex_ok_def observe_decoder_inv)

lemma duplex_report: "duplex_ok rs ses ver kid d e \<Longrightarrow> duplex_ok rs ses ver kid (fst (sequence_report d)) e"
  by (simp add: duplex_ok_def report_decoder_inv)

lemma duplex_adapt: "duplex_ok rs ses ver kid d e \<Longrightarrow> duplex_ok rs ses ver kid d (adapt e pl)"
proof -
  assume a: "duplex_ok rs ses ver kid d e"
  then have "adaptive_inv (report (en_adaptive e) (from_be (take 4 pl)))"
    by (simp add: duplex_ok_def adaptive.step_invar)
  with a show ?thesis
    by (cases "force_parity e") (auto simp: duplex_ok_def adapt_def parity_level_def adaptive_inv_def)
qed

lemma duplex_identity: "duplex_ok rs ses ver kid d e \<Longrightarrow> same_identity e e' \<Longrightarrow> duplex_ok rs ses ver kid d e'"
  by (cases "force_parity e") (simp_all add: duplex_ok_def same_identity_def parity_level_def)

lemma duplex_sends: "sends e fs e' \<Longrightarrow> same_identity e e'" and duplex_skips: "skips e e' \<Longrightarrow> same_identity e e'"
  by (simp_all add: sends_def skips_def)

lemma report_frame_sends: "report_frame e loss = (e', f) \<Longrightarrow> sends e [f] e'"
  by (auto simp: report_frame_def sends_def same_identity_def)

section \<open>The server session\<close>

definition worker_ok :: "rs_code \<Rightarrow> worker \<Rightarrow> bool" where
  "worker_ok rs w \<longleftrightarrow> duplex_ok rs (w_session w) (w_version w) (w_key_id w) (w_decoder w) (w_encoder w)"

fun peer_frames :: "action list \<Rightarrow> frame list" where
  "peer_frames [] = []"
| "peer_frames (ToPeer f p # as) = f # peer_frames as"
| "peer_frames (ToUpstream g # as) = peer_frames as"

lemma peer_frames_append [simp]: "peer_frames (xs @ ys) = peer_frames xs @ peer_frames ys"
  by (induction xs rule: peer_frames.induct) auto

lemma peer_frames_ToPeer [simp]: "peer_frames (map (\<lambda>f. ToPeer f p) fs) = fs"
  by (induction fs) auto

lemma peer_frames_ToUpstream [simp]: "peer_frames (map ToUpstream gs) = []"
  by (induction gs) auto

text \<open>What one step does to the encoder.\<close>

definition step_sends :: "encoder \<Rightarrow> frame list \<Rightarrow> encoder \<Rightarrow> bool" where
  "step_sends e fs e' \<longleftrightarrow> sends e fs e' \<or> fs = [] \<and> (skips e e' \<or> (\<exists>pl. e' = adapt e pl))"

lemma step_sends_seq_run:
  "step_sends e fs e' \<Longrightarrow> en_sequence e = of_nat a \<Longrightarrow> \<exists>b. en_sequence e' = of_nat b \<and> seq_run a fs b"
  unfolding step_sends_def using sends_seq_run skips_seq_run seq_run_Nil [of a a] by (fastforce simp: adapt_def)

lemma step_sends_ident:
  "step_sends e fs e' \<Longrightarrow> (en_version e', en_key_id e', en_session e') = (en_version e, en_key_id e, en_session e) \<and>
     (\<forall>f \<in> set fs. (version f, key_id f, session f) = (en_version e, en_key_id e, en_session e))"
  by (auto simp: step_sends_def sends_def skips_def same_identity_def adapt_def)

lemma step_sends_duplex:
  "step_sends e fs e' \<Longrightarrow> duplex_ok rs ses ver kid d e \<Longrightarrow> duplex_ok rs ses ver kid d e'"
  unfolding step_sends_def using duplex_identity duplex_sends duplex_skips duplex_adapt by blast

text \<open>What one step does to the decoder.\<close>

definition decoder_moves :: "rs_code \<Rightarrow> decoder \<Rightarrow> decoder \<Rightarrow> bool" where
  "decoder_moves rs d d' \<longleftrightarrow> d' = d \<or> d' = fst (sequence_report d) \<or> (\<exists>q. d' = fst (observe_seq d q)) \<or>
     (\<exists>now f. d' = fst (decoder_frame rs now d f))"

lemma decoder_moves_refl: "decoder_moves rs d d" "decoder_moves rs d (fst (sequence_report d))"
  by (simp_all add: decoder_moves_def)

lemma decoder_moves_duplex: "decoder_moves rs d d' \<Longrightarrow> duplex_ok rs ses ver kid d e \<Longrightarrow> duplex_ok rs ses ver kid d' e"
  unfolding decoder_moves_def using duplex_decoder_frame duplex_observe duplex_report by auto

lemma worker_step_effect:
  assumes "worker_step rs w ev = (w', acts)"
  shows "step_sends (w_encoder w) (peer_frames acts) (w_encoder w')"
    and "w_session w' = w_session w \<and> w_version w' = w_version w \<and> w_key_id w' = w_key_id w"
    and "decoder_moves rs (w_decoder w) (w_decoder w')"
    and "w_peer w = None \<Longrightarrow> peer_frames acts = []"
proof -
  have id: "sends e [] e" for e by (simp add: sends_def same_identity_def)
  have "step_sends (w_encoder w) (peer_frames acts) (w_encoder w') \<and>
     (w_session w' = w_session w \<and> w_version w' = w_version w \<and> w_key_id w' = w_key_id w) \<and>
     decoder_moves rs (w_decoder w) (w_decoder w') \<and>
     (w_peer w = None \<longrightarrow> peer_frames acts = [])"
  proof (cases ev)
    case (Packet now f peer)
    obtain d r where df: "decoder_frame rs now (w_decoder w) f = (d, r)" by fastforce
    obtain d2 ok where ob: "observe_seq (w_decoder w) (sequence f) = (d2, ok)" by fastforce
    have m: "decoder_moves rs (w_decoder w) d" "decoder_moves rs (w_decoder w) d2"
      using df ob by (metis decoder_moves_def fst_conv)+
    show ?thesis
      using assms m unfolding Packet worker_step.simps worker_packet_def Let_def
      by (cases r) (auto simp: df ob step_sends_def id decoder_moves_refl split: if_splits)
  next
    case (Upstream g)
    obtain e r where en: "encode_datagram rs (w_encoder w) g = (e, r)" by fastforce
    from encode_datagram_sends [OF en] assms en show ?thesis unfolding Upstream
      by (auto simp: worker_upstream_def step_sends_def id decoder_moves_refl split: option.splits sum.splits)
  next
    case ReportTick
    obtain e f where rf: "report_frame (w_encoder w) (loss_sample (snd (sequence_report (w_decoder w)))) = (e, f)" by fastforce
    from report_frame_sends [OF rf] assms rf show ?thesis unfolding ReportTick
      by (auto simp: worker_report_def step_sends_def id case_prod_beta Let_def decoder_moves_refl split: option.splits)
  next
    case FlushTick
    obtain e r where en: "flush rs (w_encoder w) = (e, r)" by fastforce
    from flush_sends [OF en] assms en show ?thesis unfolding FlushTick
      by (auto simp: worker_flush_def step_sends_def id decoder_moves_refl split: option.splits sum.splits)
  qed
  then show "step_sends (w_encoder w) (peer_frames acts) (w_encoder w')"
    and "w_session w' = w_session w \<and> w_version w' = w_version w \<and> w_key_id w' = w_key_id w"
    and "decoder_moves rs (w_decoder w) (w_decoder w')"
    and "w_peer w = None \<Longrightarrow> peer_frames acts = []"
    by blast+
qed

interpretation worker_machine: invariant_machine "\<lambda>w ev. fst (worker_step rs w ev)" "worker_ok rs" for rs
proof
  fix w ev
  assume ok: "worker_ok rs w"
  obtain w' acts where st: "worker_step rs w ev = (w', acts)" by fastforce
  note eff = worker_step_effect [OF st]
  have "duplex_ok rs (w_session w) (w_version w) (w_key_id w) (w_decoder w') (w_encoder w)"
    using decoder_moves_duplex [OF eff(3)] ok by (simp add: worker_ok_def)
  then show "worker_ok rs (fst (worker_step rs w ev))"
    using step_sends_duplex [OF eff(1)] eff(2) st by (simp add: worker_ok_def)
qed

lemma worker_loop_state: "fst (worker_loop rs w evs) = foldl (\<lambda>w ev. fst (worker_step rs w ev)) w evs"
  by (induction evs arbitrary: w) (auto simp: case_prod_beta Let_def)

lemma worker_loop_sends:
  assumes "worker_loop rs w evs = (w', acts)" and "en_sequence (w_encoder w) = of_nat a"
  shows "\<exists>b. en_sequence (w_encoder w') = of_nat b \<and> seq_run a (peer_frames acts) b \<and>
     (\<forall>f \<in> set (peer_frames acts). (version f, key_id f, session f) =
        (en_version (w_encoder w), en_key_id (w_encoder w), en_session (w_encoder w)))"
  using assms
proof (induction evs arbitrary: w acts a)
  case Nil
  then show ?case using seq_run_Nil [of a a] by auto
next
  case (Cons ev evs)
  obtain w1 as1 where st: "worker_step rs w ev = (w1, as1)" by fastforce
  obtain as2 where lp: "worker_loop rs w1 evs = (w', as2)" "acts = as1 @ as2"
    using Cons.prems(1) st by (auto split: prod.splits)
  note eff = worker_step_effect(1) [OF st]
  obtain b where b: "en_sequence (w_encoder w1) = of_nat b" "seq_run a (peer_frames as1) b"
    using step_sends_seq_run [OF eff Cons.prems(2)] by blast
  obtain b' where "en_sequence (w_encoder w') = of_nat b'" "seq_run b (peer_frames as2) b'"
    "\<forall>f \<in> set (peer_frames as2). (version f, key_id f, session f) =
        (en_version (w_encoder w1), en_key_id (w_encoder w1), en_session (w_encoder w1))"
    using Cons.IH [OF lp(1) b(1)] by blast
  with b(2) seq_run_trans step_sends_ident [OF eff] lp(2) show ?case by fastforce
qed

lemma worker_loop_split:
  "worker_loop rs w evs = (fst (worker_loop rs w evs), snd (worker_loop rs w evs))"
  by simp

text \<open>C22: a server session under any sequence of packets, upstream datagrams and timer ticks stays within
  its memory bounds, keeps its redundancy level at four or less, is never made to panic by a frame, and
  every frame it sends carries the identity of the session.\<close>

theorem worker_session_safe:
  assumes "rs_shape rs" and "worker_loop rs (worker_new ses ver kid forced) events = (w, acts)"
  shows "length (groups (w_decoder w)) \<le> 2048 \<and> length (packets (w_decoder w)) \<le> 4096 \<and>
     parity_level (w_encoder w) \<le> 4 \<and>
     (\<forall>now f. snd (decoder_frame rs now (w_decoder w) f) \<noteq> Inl Panic) \<and>
     (\<forall>f \<in> set (peer_frames acts). version f = ver \<and> key_id f = kid \<and> session f = ses)"
proof -
  let ?w = "worker_new ses ver kid forced"
  have "worker_ok rs ?w" by (simp add: worker_ok_def worker_new_def duplex_new)
  from worker_machine.run_invar [OF this, of events] have "worker_ok rs w"
    using assms(2) worker_loop_state [of rs ?w events] by simp
  then have inv: "decoder_inv (w_decoder w)" "parity_level (w_encoder w) \<le> 4"
    using assms(1) by (simp_all add: worker_ok_def duplex_ok_def MAX_PARITY_def)
  have "length (groups (w_decoder w)) \<le> 2048 \<and> length (packets (w_decoder w)) \<le> 4096"
    using inv(1) by (simp add: decoder_inv_def groups_wf_def MAX_GROUPS_def MAX_REASSEMBLIES_def)
  moreover have "snd (decoder_frame rs now (w_decoder w) f) \<noteq> Inl Panic" for now f
    using decoder_frame_inv [OF inv(1) assms(1)] by blast
  moreover have "version f = ver \<and> key_id f = kid \<and> session f = ses" if "f \<in> set (peer_frames acts)" for f
    using worker_loop_sends [OF assms(2), of 1] that by (auto simp: worker_new_def with_identity_def)
  ultimately show ?thesis using inv(2) by blast
qed

definition sample_events :: "worker_event list" where
  "sample_events = [Packet (\<lambda>_. 4) (snd (report_frame (with_identity 7 VERSION_V3 9 (Some 1)) 0)) 80, Upstream [1, 2, 3],
     FlushTick, ReportTick]"

theorem worker_session_safe_witness:
  "length (groups (w_decoder (fst (worker_loop xor_code (worker_new 7 VERSION_V3 9 (Some 1)) sample_events)))) \<le> 2048"
  using worker_session_safe [OF rs_shape_xor worker_loop_split, of 7 VERSION_V3 9 "Some 1" sample_events] by blast

text \<open>The frames a server session sends carry strictly increasing sequence numbers over its whole life,
  even when the erasure code fails in between.\<close>

theorem worker_sequences_increase:
  "\<exists>is. map sequence (peer_frames (snd (worker_loop rs (worker_new ses ver kid forced) events))) = map of_nat is \<and>
     sorted_wrt (<) is \<and> (\<forall>i \<in> set is. 1 \<le> i)"
proof -
  have "\<exists>b. seq_run 1 (peer_frames (snd (worker_loop rs (worker_new ses ver kid forced) events))) b"
    using worker_loop_sends [OF worker_loop_split [of rs "worker_new ses ver kid forced" events], of 1]
    by (auto simp: worker_new_def with_identity_def)
  then show ?thesis by (auto simp: seq_run_def)
qed

theorem worker_sequences_increase_witness:
  "\<exists>is. map sequence (peer_frames (snd (worker_loop xor_code (worker_new 7 VERSION_V3 9 (Some 1)) sample_events))) = map of_nat is \<and>
     sorted_wrt (<) is"
  using worker_sequences_increase [of xor_code 7 VERSION_V3 9 "Some 1" sample_events] by blast


definition live_worker :: worker where
  "live_worker = (worker_new 7 VERSION_V3 9 (Some 1))\<lparr>w_decoder := sample_decoder, w_peer := Some 80\<rparr>"


section \<open>The client\<close>

text \<open>The redundancy levels an encoder can ever use: all up to four, or just the forced one.\<close>

definition rs_supports_encoder :: "rs_code \<Rightarrow> encoder \<Rightarrow> bool" where
  "rs_supports_encoder rs e \<longleftrightarrow> (case force_parity e of
      Some p \<Rightarrow> rs_supports rs p | None \<Rightarrow> \<forall>level \<le> MAX_PARITY. rs_supports rs level)"

lemma rs_supports_now: "rs_supports_encoder rs e \<Longrightarrow> encoder_inv e \<Longrightarrow> rs_supports rs (parity_level e)"
  by (auto simp: rs_supports_encoder_def parity_level_def encoder_inv_def encoder_params_ok_def split: option.splits)

definition client_good :: "rs_code \<Rightarrow> tunnel_client \<Rightarrow> bool" where
  "client_good rs cl \<longleftrightarrow> encoder_inv (c_encoder cl) \<and> rs_supports_encoder rs (c_encoder cl)"

lemma encoder_inv_adapt: "encoder_inv e \<Longrightarrow> encoder_inv (adapt e pl)"
proof -
  assume e: "encoder_inv e"
  then have "adaptive_inv (report (en_adaptive e) (from_be (take 4 pl)))"
    by (simp add: encoder_inv_def encoder_params_ok_def adaptive.step_invar)
  with e show ?thesis
    by (cases "force_parity e") (auto simp: encoder_inv_def encoder_params_ok_def adapt_def parity_level_def adaptive_inv_def)
qed

lemma encoder_inv_report_frame: "encoder_inv e \<Longrightarrow> encoder_inv (fst (report_frame e loss))"
  by (simp add: encoder_inv_def encoder_params_ok_def report_frame_def)

lemma client_step_good:
  assumes good: "client_good rs cl" and ev: "\<And>g p. ev = Local g p \<Longrightarrow> length g \<le> 65535" "\<And>msg. ev \<noteq> LocalFailed msg"
  shows "\<exists>cl' acts. client_step c rs cl ev = (cl', Inr acts) \<and> client_good rs cl'"
proof (cases ev)
  case (Local g p)
  have e: "encoder_inv (c_encoder cl)" "rs_supports rs (parity_level (c_encoder cl))"
    using good rs_supports_now by (auto simp: client_good_def)
  obtain e' fs where r: "encode_datagram rs (c_encoder cl) g = (e', Inr fs)"
    and em: "emits rs ((c_encoder cl)\<lparr>en_packet := en_packet (c_encoder cl) + 1\<rparr>)
      (fragments (en_packet (c_encoder cl)) (length (datagram_chunks g)) 0 (datagram_chunks g)) fs e'"
    by (rule emits_encode_datagram [OF e ev(1) [OF Local]])
  with good Local show ?thesis by (auto simp: client_local_def client_good_def emits_def rs_supports_encoder_def)
next
  case (LocalFailed msg)
  with ev(2) [of msg] show ?thesis by simp
next
  case (Net now buf)
  have step: "client_good rs (cl\<lparr>c_decoder := d, c_encoder := (if ok then adapt (c_encoder cl) pl else c_encoder cl)\<rparr>)"
    "client_good rs (cl\<lparr>c_decoder := d\<rparr>)" for d ok pl
    using good encoder_inv_adapt by (auto simp: client_good_def rs_supports_encoder_def adapt_def)
  have "client_good rs (fst (client_net c rs now cl buf))"
    unfolding client_net_def Let_def using good step
    by (simp split: sum.split prod.split)
  then show ?thesis using Net by (auto split: prod.split)
next
  case ClientReport
  then show ?thesis
    using good encoder_inv_report_frame [of "c_encoder cl"]
    by (auto simp: client_report_def client_good_def case_prod_beta Let_def rs_supports_encoder_def report_frame_def)
next
  case ClientFlush
  have e: "encoder_params_ok (c_encoder cl)" "length (en_shards (c_encoder cl)) \<le> DATA_SHARDS"
    "\<forall>s \<in> set (en_shards (c_encoder cl)). proper_shard s" "rs_supports rs (parity_level (c_encoder cl))"
    using good rs_supports_now by (auto simp: client_good_def encoder_inv_def)
  obtain e' fs where "flush rs (c_encoder cl) = (e', Inr fs)" "emits rs (c_encoder cl) [] fs e'"
    by (rule emits_flush [OF e])
  with good ClientFlush show ?thesis by (auto simp: client_flush_def client_good_def emits_def rs_supports_encoder_def)
qed



end
