(* ===== verification/Server_Sessions.thy ===== *)
theory Server_Sessions
  imports Keyring Tunnel_Endpoints
begin

text \<open>
  The session table of the multi-user server (\<open>server\<close> and \<open>superseded_sessions\<close> of
  \<open>src/main.rs\<close>): every authenticated frame is dispatched to the worker of its (device, session)
  pair; the first frame of a new session replaces the device's older sessions, and a timer removes
  sessions that are finished or idle.  A worker is seen through its bounded input queue, its
  \<open>last_seen\<close> clock and whether its task has finished.
\<close>

section \<open>State and operations\<close>

definition MAX_V2_SESSIONS_PER_DEVICE :: nat where "MAX_V2_SESSIONS_PER_DEVICE = 16"
definition MAX_V1_MIGRATION_SESSIONS :: nat where "MAX_V1_MIGRATION_SESSIONS = 64"
definition SESSION_TAKEOVER_MAX_SEQUENCE :: u64 where "SESSION_TAKEOVER_MAX_SEQUENCE = 32"
definition SESSION_QUEUE :: nat where "SESSION_QUEUE = 256"

text \<open>
  An entry holds what the server keeps of a session (the sender half of its queue, the shared
  \<open>last_seen\<close> clock, the task handle) and the state of the task itself: the device key of its
  \<open>SessionRuntime\<close> and the variables of its loop.
\<close>

record session_entry =
  s_key :: bytes
  s_queue :: "(frame \<times> addr) list"
  s_last_seen :: instant
  s_finished :: bool
  s_worker :: worker

type_synonym session_table = "((u64 \<times> u64) \<times> session_entry) list"

record server_state =
  srv_selectors :: "(bytes \<times> (u64 \<times> bytes)) list"
  srv_max :: nat
  srv_idle :: nat
  srv_forced :: "nat option"
  srv_sessions :: session_table

text \<open>The selector table is filled in the iteration order of the keyring.\<close>

fun build_selectors :: "crypto \<Rightarrow> (u64 \<times> bytes) list \<Rightarrow> (bytes \<times> (u64 \<times> bytes)) list \<Rightarrow> (bytes \<times> (u64 \<times> bytes)) list result" where
  "build_selectors c [] sel = Inr sel"
| "build_selectors c ((kid, k) # ks) sel =
     (if map_of sel (v3_selector_prefix c kid) \<noteq> None then Inl (Bail ''keyring contains a V3 selector collision'')
      else build_selectors c ks (AList.update (v3_selector_prefix c kid) (kid, k) sel))"

text \<open>\<open>keyring\<close> is what \<open>load_keyring\<close> returned, \<open>None\<close> when no path was given.\<close>

definition server_new ::
  "crypto \<Rightarrow> bytes option \<Rightarrow> (u64 \<times> bytes) list result option \<Rightarrow> nat \<Rightarrow> nat \<Rightarrow> nat option \<Rightarrow> server_state result" where
  "server_new c legacy_key keyring max_sessions idle_secs forced =
     (if max_sessions = 0 \<or> max_sessions > 65536 then Inl (Bail ''max-sessions must be between 1 and 65536'')
      else if \<not> (10 \<le> idle_secs \<and> idle_secs \<le> 86400) then Inl (Bail ''session-idle-secs must be between 10 and 86400'')
      else rbind (case keyring of None \<Rightarrow> Inr [] | Some r \<Rightarrow> r) (\<lambda>ks.
        if legacy_key = None \<and> ks = [] then Inl (Bail ''server requires --key for V1 migration and/or --keyring for V2'')
        else rbind (build_selectors c ks []) (\<lambda>sel.
          Inr \<lparr>srv_selectors = sel, srv_max = max_sessions, srv_idle = idle_secs * 1000000000,
               srv_forced = forced, srv_sessions = []\<rparr>)))"

definition superseded_sessions :: "((u64 \<times> u64) \<times> 'v) list \<Rightarrow> u64 \<Rightarrow> u64 \<Rightarrow> u64 \<Rightarrow> (u64 \<times> u64) list option" where
  "superseded_sessions sessions kid ses seq =
     (let existing = filter (\<lambda>(i, current). i = kid \<and> current \<noteq> ses) (keys sessions) in
      if existing = [] then Some existing
      else if seq \<le> SESSION_TAKEOVER_MAX_SEQUENCE then Some existing else None)"

definition remove_all :: "'k list \<Rightarrow> ('k \<times> 'v) list \<Rightarrow> ('k \<times> 'v) list" where
  "remove_all ids m = fold AList.delete ids m"

definition session_start :: "server_state \<Rightarrow> instant \<Rightarrow> frame \<Rightarrow> bytes \<Rightarrow> session_entry" where
  "session_start srv now f device_key = \<lparr>s_key = device_key, s_queue = [], s_last_seen = now, s_finished = False,
     s_worker = worker_new (session f) (version f) (key_id f) (srv_forced srv)\<rparr>"

text \<open>The part of the receive branch before the dispatch: the table it leaves, and whether it goes on.\<close>

definition open_session :: "server_state \<Rightarrow> instant \<Rightarrow> frame \<Rightarrow> bytes \<Rightarrow> session_table \<times> bool" where
  "open_session srv now f device_key =
     (let ss = srv_sessions srv; sk = (key_id f, session f) in
      if map_of ss sk \<noteq> None then (ss, True)
      else case (if version f = VERSION_V2 \<or> version f = VERSION_V3
                 then map_option (\<lambda>ids. remove_all ids ss) (superseded_sessions ss (key_id f) (session f) (sequence f))
                 else Some ss) of
        None \<Rightarrow> (ss, False)
      | Some ss1 \<Rightarrow>
          if length ss1 \<ge> srv_max srv then (ss1, False)
          else if version f = VERSION_V1 \<and> length (filter (\<lambda>(i, _). i = 0) (keys ss1)) \<ge> MAX_V1_MIGRATION_SESSIONS then (ss1, False)
          else if (version f = VERSION_V2 \<or> version f = VERSION_V3) \<and>
                  length (filter (\<lambda>(i, _). i = key_id f) (keys ss1)) \<ge> MAX_V2_SESSIONS_PER_DEVICE then (ss1, False)
          else (AList.update sk (session_start srv now f device_key) ss1, True))"

text \<open>\<open>try_send\<close> drops the packet when the queue is full or the worker is gone.\<close>

definition try_send :: "session_entry \<Rightarrow> frame \<times> addr \<Rightarrow> session_entry" where
  "try_send e p = (if s_finished e \<or> length (s_queue e) \<ge> SESSION_QUEUE then e else e\<lparr>s_queue := s_queue e @ [p]\<rparr>)"

definition server_recv :: "crypto \<Rightarrow> (nat \<Rightarrow> instant) \<Rightarrow> server_state \<Rightarrow> bytes \<Rightarrow> addr \<Rightarrow> server_state" where
  "server_recv c now srv buf peer =
     (case decode_server_frame c buf (srv_selectors srv) of
        Inl _ \<Rightarrow> srv
      | Inr (f, device_key) \<Rightarrow>
          (case open_session srv (now 0) f device_key of
             (ss, False) \<Rightarrow> srv\<lparr>srv_sessions := ss\<rparr>
           | (ss, True) \<Rightarrow>
               (case map_of ss (key_id f, session f) of
                  None \<Rightarrow> srv\<lparr>srv_sessions := ss\<rparr>
                | Some e \<Rightarrow> srv\<lparr>srv_sessions :=
                    AList.update (key_id f, session f) (try_send (e\<lparr>s_last_seen := now 1\<rparr>) (f, peer)) ss\<rparr>)))"

definition session_expired :: "nat \<Rightarrow> instant \<Rightarrow> session_entry \<Rightarrow> bool" where
  "session_expired idle now e \<longleftrightarrow> s_finished e \<or> now - s_last_seen e \<ge> idle"

definition server_cleanup :: "instant \<Rightarrow> server_state \<Rightarrow> server_state" where
  "server_cleanup now srv =
     (let expired = map fst (filter (\<lambda>(_, e). session_expired (srv_idle srv) now e) (srv_sessions srv)) in
      srv\<lparr>srv_sessions := remove_all expired (srv_sessions srv)\<rparr>)"

text \<open>
  One turn of a session's task: it takes the next packet of its queue, reads an upstream datagram
  (which refreshes \<open>last_seen\<close>, and happens only once a peer is known) or handles a timer.  A
  finished task does nothing.  \<open>SessionDone\<close> is a task that ends on its own (its socket cannot be
  bound or connected).
\<close>

datatype session_event = SessionPacket "nat \<Rightarrow> instant" | SessionUpstream bytes instant | SessionReport | SessionFlush | SessionDone

definition session_run :: "rs_code \<Rightarrow> session_entry \<Rightarrow> worker_event \<Rightarrow> session_entry \<times> action list" where
  "session_run rs e ev = (case worker_step rs (s_worker e) ev of (w, acts) \<Rightarrow> (e\<lparr>s_worker := w\<rparr>, acts))"

fun session_turn :: "rs_code \<Rightarrow> session_entry \<Rightarrow> session_event \<Rightarrow> session_entry \<times> action list" where
  "session_turn rs e (SessionPacket now) =
     (case s_queue e of [] \<Rightarrow> (e, []) | (f, peer) # q \<Rightarrow> session_run rs (e\<lparr>s_queue := q\<rparr>) (Packet now f peer))"
| "session_turn rs e (SessionUpstream datagram now) =
     (if w_peer (s_worker e) = None then (e, []) else session_run rs (e\<lparr>s_last_seen := now\<rparr>) (Upstream datagram))"
| "session_turn rs e SessionReport = session_run rs e ReportTick"
| "session_turn rs e SessionFlush = session_run rs e FlushTick"
| "session_turn rs e SessionDone = (e\<lparr>s_finished := True\<rparr>, [])"

datatype server_event =
    ServerRecv "nat \<Rightarrow> instant" bytes addr
  | Cleanup instant
  | SessionTurn "u64 \<times> u64" session_event

text \<open>A step of the whole server and what it sends: the acting session's key with each action.\<close>

fun server_step :: "crypto \<Rightarrow> rs_code \<Rightarrow> server_state \<Rightarrow> server_event \<Rightarrow> server_state \<times> (bytes \<times> action) list" where
  "server_step c rs srv (ServerRecv now buf peer) = (server_recv c now srv buf peer, [])"
| "server_step c rs srv (Cleanup now) = (server_cleanup now srv, [])"
| "server_step c rs srv (SessionTurn sk ev) =
     (case map_of (srv_sessions srv) sk of
        None \<Rightarrow> (srv, [])
      | Some e \<Rightarrow>
          if s_finished e then (srv, [])
          else case session_turn rs e ev of (e', acts) \<Rightarrow>
            (srv\<lparr>srv_sessions := AList.update sk e' (srv_sessions srv)\<rparr>, map (Pair (s_key e)) acts))"

fun server_loop :: "crypto \<Rightarrow> rs_code \<Rightarrow> server_state \<Rightarrow> server_event list \<Rightarrow> server_state \<times> (bytes \<times> action) list" where
  "server_loop c rs srv [] = (srv, [])"
| "server_loop c rs srv (ev # evs) =
     (let (srv1, out) = server_step c rs srv ev; (srv2, out') = server_loop c rs srv1 evs in (srv2, out @ out'))"

section \<open>Invariant\<close>

text \<open>What holds of every entry: its queue is bounded, its worker carries the identity under which it is
  filed, and its key is the one the selector table has for the device.\<close>

definition entry_ok :: "crypto \<Rightarrow> rs_code \<Rightarrow> (bytes \<times> (u64 \<times> bytes)) list \<Rightarrow> u64 \<times> u64 \<Rightarrow> session_entry \<Rightarrow> bool" where
  "entry_ok c rs sel sk e \<longleftrightarrow> length (s_queue e) \<le> SESSION_QUEUE \<and> worker_ok rs (s_worker e) \<and>
     w_version (s_worker e) = VERSION_V3 \<and> w_key_id (s_worker e) = fst sk \<and> w_session (s_worker e) = snd sk \<and>
     map_of sel (v3_selector_prefix c (fst sk)) = Some (fst sk, s_key e)"

definition table_ok :: "(u64 \<times> u64 \<Rightarrow> session_entry \<Rightarrow> bool) \<Rightarrow> nat \<Rightarrow> session_table \<Rightarrow> bool" where
  "table_ok ok m ss \<longleftrightarrow> distinct (map fst (keys ss)) \<and> length ss \<le> m \<and> (\<forall>(sk, e) \<in> set ss. ok sk e)"

definition server_ok :: "crypto \<Rightarrow> rs_code \<Rightarrow> server_state \<Rightarrow> bool" where
  "server_ok c rs srv \<longleftrightarrow> table_ok (entry_ok c rs (srv_selectors srv)) (srv_max srv) (srv_sessions srv)"

lemma table_ok_distinct: "table_ok ok m ss \<Longrightarrow> distinct (keys ss)"
  by (auto simp: table_ok_def distinct_map dest: inj_on_imageI2)

lemma remove_all_filter: "remove_all ids m = filter (\<lambda>x. fst x \<notin> set ids) m"
  unfolding remove_all_def
proof (induction ids arbitrary: m)
  case Nil
  then show ?case by simp
next
  case (Cons i ids)
  then show ?case by (auto simp: AList.delete_eq intro: filter_cong)
qed

lemma table_ok_filter:
  assumes "table_ok ok m ss"
  shows "table_ok ok m (filter P ss)"
proof -
  have "distinct (map (fst \<circ> fst) (filter P ss))"
    using assms by (intro distinct_map_filter) (simp add: table_ok_def)
  then show ?thesis
    using assms le_trans [OF length_filter_le [of P ss]] by (auto simp: table_ok_def)
qed

lemma table_ok_entry: "table_ok ok m ss \<Longrightarrow> map_of ss sk = Some e \<Longrightarrow> ok sk e"
  using map_of_SomeD [of ss sk e] by (auto simp: table_ok_def)

lemma table_ok_update:
  assumes "table_ok ok m ss" and "map_of ss sk = Some e" and "ok sk e'"
  shows "table_ok ok m (AList.update sk e' ss)"
proof -
  have "sk \<in> set (keys ss)" using assms(2) by (metis map_of_None_keys option.distinct(1))
  then have "keys (AList.update sk e' ss) = keys ss" by (simp add: AList.update_keys)
  moreover from this have "length (AList.update sk e' ss) = length ss" by (metis length_map)
  ultimately show ?thesis
    using assms(1,3) by (auto simp: table_ok_def dest!: in_alist_updateD)
qed

text \<open>Once the older sessions of the device are gone, none of its sessions is left, so the check against
  \<open>MAX_V2_SESSIONS_PER_DEVICE\<close> never fires: the outcome of opening a session is one of three.\<close>

lemma open_session_cases:
  assumes "version f = VERSION_V3" and "map_of (srv_sessions srv) (key_id f, session f) = None"
  defines "rest \<equiv> filter (\<lambda>x. fst (fst x) \<noteq> key_id f) (srv_sessions srv)"
  shows "open_session srv now f k =
    (if sequence f > SESSION_TAKEOVER_MAX_SEQUENCE \<and> key_id f \<in> fst ` set (keys (srv_sessions srv)) then (srv_sessions srv, False)
     else if length rest \<ge> srv_max srv then (rest, False)
     else (rest @ [((key_id f, session f), session_start srv now f k)], True))"
proof -
  let ?ss = "srv_sessions srv"
  have fresh: "(key_id f, session f) \<notin> set (keys ?ss)" using assms(2) by (simp add: map_of_None_keys)
  have none: "filter (\<lambda>(i, current). i = key_id f \<and> current \<noteq> session f) (keys ?ss) = [] \<longleftrightarrow>
      key_id f \<notin> fst ` set (keys ?ss)"
    using fresh by (fastforce simp: filter_empty_conv image_iff)
  have rm: "remove_all (filter (\<lambda>(i, current). i = key_id f \<and> current \<noteq> session f) (keys ?ss)) ?ss = rest"
    unfolding remove_all_filter rest_def using fresh by (intro filter_cong) force+
  have cnt: "filter (\<lambda>(i, _). i = key_id f) (keys rest) = []"
    by (auto simp: rest_def filter_empty_conv)
  have upd: "AList.update (key_id f, session f) v rest = rest @ [((key_id f, session f), v)]" for v
    by (rule update_fresh) (auto simp: rest_def)
  have vers: "version f \<noteq> VERSION_V1" using assms(1) by (simp add: wire_consts)
  show ?thesis
    using assms(1,2) none rm cnt upd vers
    by (auto simp: open_session_def superseded_sessions_def Let_def MAX_V2_SESSIONS_PER_DEVICE_def not_le)
qed

lemma server_frame_v3:
  assumes "decode_server_frame c buf sel = Inr (f, k)"
  shows "version f = VERSION_V3" and "map_of sel (v3_selector_prefix c (key_id f)) = Some (key_id f, k)"
    and "take 4 buf = v3_selector_prefix c (key_id f)"
proof -
  from assms obtain kid where m: "map_of sel (take 4 buf) = Some (kid, k)" and d: "decode_v3 c buf kid k = Inr f"
    by (auto simp: decode_server_frame_def V3_SELECTOR_def V3_SELECTOR_PREFIX_def rbind_eq_Inr_iff
        split: if_splits option.splits)
  from decode_v3_okD [OF d] m
  show "version f = VERSION_V3" and "map_of sel (v3_selector_prefix c (key_id f)) = Some (key_id f, k)"
    and "take 4 buf = v3_selector_prefix c (key_id f)" by auto
qed

lemma session_start_ok:
  assumes "version f = VERSION_V3" and "map_of sel (v3_selector_prefix c (key_id f)) = Some (key_id f, k)"
  shows "entry_ok c rs sel (key_id f, session f) (session_start srv now f k)"
  using assms by (simp add: entry_ok_def session_start_def worker_ok_def worker_new_def duplex_new)

lemma open_session_ok:
  assumes ok: "server_ok c rs srv" and f: "decode_server_frame c buf (srv_selectors srv) = Inr (f, k)"
  shows "table_ok (entry_ok c rs (srv_selectors srv)) (srv_max srv) (fst (open_session srv now f k))"
proof (cases "map_of (srv_sessions srv) (key_id f, session f) = None")
  case True
  have "table_ok (entry_ok c rs (srv_selectors srv)) (srv_max srv) (filter (\<lambda>x. fst (fst x) \<noteq> key_id f) (srv_sessions srv))"
    using ok by (simp add: server_ok_def table_ok_filter)
  with session_start_ok [OF server_frame_v3(1,2) [OF f]] ok show ?thesis
    by (auto simp: open_session_cases [OF server_frame_v3(1) [OF f] True] server_ok_def table_ok_def)
next
  case False
  then show ?thesis using ok by (simp add: open_session_def Let_def server_ok_def)
qed

lemma try_send_ok: "entry_ok c rs sel sk e \<Longrightarrow> entry_ok c rs sel sk (try_send (e\<lparr>s_last_seen := now\<rparr>) p)"
  by (simp add: entry_ok_def try_send_def)

lemma server_recv_config:
  "srv_selectors (server_recv c now srv buf peer) = srv_selectors srv"
  "srv_max (server_recv c now srv buf peer) = srv_max srv"
  by (auto simp: server_recv_def split: sum.split prod.split bool.split option.split)

lemma server_recv_ok:
  assumes "server_ok c rs srv"
  shows "server_ok c rs (server_recv c now srv buf peer)"
proof (cases "decode_server_frame c buf (srv_selectors srv)")
  case (Inl e)
  then show ?thesis using assms by (simp add: server_recv_def)
next
  case (Inr r)
  obtain f k where r: "r = (f, k)" by fastforce
  obtain ss go where os: "open_session srv (now 0) f k = (ss, go)" by fastforce
  have t: "table_ok (entry_ok c rs (srv_selectors srv)) (srv_max srv) ss"
    using open_session_ok [OF assms Inr [unfolded r], of "now 0"] os by simp
  then show ?thesis
    using table_ok_update [OF t _ try_send_ok] table_ok_entry [OF t]
    by (auto simp: server_recv_def server_ok_def Inr r os split: bool.split option.split)
qed

text \<open>What one turn of a session's task does to its entry and sends.\<close>

lemma worker_step_identity:
  assumes "worker_step rs w ev = (w', acts)" and "worker_ok rs w"
  shows "worker_ok rs w'" and "w_version w' = w_version w" and "w_key_id w' = w_key_id w" and "w_session w' = w_session w"
    and "f \<in> set (peer_frames acts) \<Longrightarrow> version f = w_version w \<and> key_id f = w_key_id w \<and> session f = w_session w"
proof -
  note eff = worker_step_effect [OF assms(1)]
  show "worker_ok rs w'"
    using worker_machine.step_invar [OF assms(2), of ev] assms(1) by simp
  show "w_version w' = w_version w" and "w_key_id w' = w_key_id w" and "w_session w' = w_session w"
    using eff(2) by simp_all
  show "version f = w_version w \<and> key_id f = w_key_id w \<and> session f = w_session w" if "f \<in> set (peer_frames acts)"
    using step_sends_ident [OF eff(1)] that assms(2) by (auto simp: worker_ok_def duplex_ok_def)
qed

lemma session_run_ok:
  assumes "session_run rs e ev = (e', acts)" and "entry_ok c rs sel sk e"
  shows "entry_ok c rs sel sk e'"
    and "f \<in> set (peer_frames acts) \<Longrightarrow> version f = VERSION_V3 \<and> key_id f = fst sk \<and> session f = snd sk"
proof -
  obtain w' where st: "worker_step rs (s_worker e) ev = (w', acts)" and e': "e' = e\<lparr>s_worker := w'\<rparr>"
    using assms(1) by (auto simp: session_run_def split: prod.splits)
  have ok: "worker_ok rs (s_worker e)" using assms(2) by (simp add: entry_ok_def)
  note id = worker_step_identity [OF st ok]
  show "entry_ok c rs sel sk e'" using assms(2) e' id(1-4) by (simp add: entry_ok_def)
  show "version f = VERSION_V3 \<and> key_id f = fst sk \<and> session f = snd sk" if "f \<in> set (peer_frames acts)"
    using id(5) [OF that] assms(2) by (simp add: entry_ok_def)
qed

lemma session_turn_ok:
  assumes "session_turn rs e ev = (e', acts)" and "entry_ok c rs sel sk e"
  shows "entry_ok c rs sel sk e' \<and>
     (\<forall>f \<in> set (peer_frames acts). version f = VERSION_V3 \<and> key_id f = fst sk \<and> session f = snd sk)"
proof (cases ev)
  case (SessionPacket now)
  show ?thesis
  proof (cases "s_queue e")
    case Nil
    then show ?thesis using assms SessionPacket by auto
  next
    case (Cons p q)
    obtain f peer where p: "p = (f, peer)" by fastforce
    have "entry_ok c rs sel sk (e\<lparr>s_queue := q\<rparr>)" using assms(2) Cons by (simp add: entry_ok_def)
    with session_run_ok [of rs "e\<lparr>s_queue := q\<rparr>" "Packet now f peer" e' acts] show ?thesis
      using assms(1) SessionPacket Cons p by auto
  qed
next
  case (SessionUpstream datagram now)
  have "entry_ok c rs sel sk (e\<lparr>s_last_seen := now\<rparr>)" using assms(2) by (simp add: entry_ok_def)
  with session_run_ok [of rs "e\<lparr>s_last_seen := now\<rparr>" "Upstream datagram" e' acts] show ?thesis
    using assms SessionUpstream by (auto split: if_splits)
next
  case SessionDone
  then show ?thesis using assms by (auto simp: entry_ok_def)
qed (use assms session_run_ok [of rs e _ e' acts] in auto)

lemma peer_frames_mem: "ToPeer f p \<in> set acts \<Longrightarrow> f \<in> set (peer_frames acts)"
  by (induction acts rule: peer_frames.induct) auto

lemma server_step_config:
  "srv_selectors (fst (server_step c rs srv ev)) = srv_selectors srv" "srv_max (fst (server_step c rs srv ev)) = srv_max srv"
  by (cases ev; auto simp: server_recv_config server_cleanup_def Let_def split: option.split prod.split)+

lemma server_step_ok:
  assumes "server_ok c rs srv"
  shows "server_ok c rs (fst (server_step c rs srv ev)) \<and>
     (\<forall>(k, a) \<in> set (snd (server_step c rs srv ev)). \<forall>f p. a = ToPeer f p \<longrightarrow>
        version f = VERSION_V3 \<and> map_of (srv_selectors srv) (v3_selector_prefix c (key_id f)) = Some (key_id f, k))"
proof (cases ev)
  case (ServerRecv now buf peer)
  then show ?thesis using server_recv_ok [OF assms] by simp
next
  case (Cleanup now)
  then show ?thesis
    using assms by (simp add: server_cleanup_def Let_def server_ok_def remove_all_filter table_ok_filter)
next
  case (SessionTurn sk sev)
  show ?thesis
  proof (cases "\<exists>e. map_of (srv_sessions srv) sk = Some e \<and> \<not> s_finished e")
    case False
    then show ?thesis using assms SessionTurn by (auto split: option.split)
  next
    case True
    then obtain e where e: "map_of (srv_sessions srv) sk = Some e" "\<not> s_finished e" by blast
    obtain e' acts where t: "session_turn rs e sev = (e', acts)" by fastforce
    have tab: "table_ok (entry_ok c rs (srv_selectors srv)) (srv_max srv) (srv_sessions srv)"
      using assms by (simp add: server_ok_def)
    note ent = table_ok_entry [OF tab e(1)]
    note turn = session_turn_ok [OF t ent]
    have "server_ok c rs (fst (server_step c rs srv ev))"
      using table_ok_update [OF tab e(1)] turn e SessionTurn t by (simp add: server_ok_def)
    moreover have "version f = VERSION_V3 \<and> map_of (srv_selectors srv) (v3_selector_prefix c (key_id f)) = Some (key_id f, s_key e)"
      if "ToPeer f p \<in> set acts" for f p
      using turn peer_frames_mem [OF that] ent by (auto simp: entry_ok_def)
    ultimately show ?thesis using e SessionTurn t by auto
  qed
qed

interpretation server_machine: invariant_machine "\<lambda>srv ev. fst (server_step c rs srv ev)" "server_ok c rs" for c rs
  by unfold_locales (use server_step_ok in blast)

lemma server_loop_state: "fst (server_loop c rs srv evs) = foldl (\<lambda>s ev. fst (server_step c rs s ev)) srv evs"
  by (induction evs arbitrary: srv) (auto simp: case_prod_beta Let_def)

lemma server_loop_config:
  "srv_selectors (fst (server_loop c rs srv evs)) = srv_selectors srv \<and> srv_max (fst (server_loop c rs srv evs)) = srv_max srv"
  by (induction evs arbitrary: srv) (auto simp: case_prod_beta Let_def server_step_config)

lemma server_loop_out:
  assumes "server_ok c rs srv" and "(k, ToPeer f p) \<in> set (snd (server_loop c rs srv evs))"
  shows "version f = VERSION_V3 \<and> map_of (srv_selectors srv) (v3_selector_prefix c (key_id f)) = Some (key_id f, k)"
  using assms
proof (induction evs arbitrary: srv)
  case Nil
  then show ?case by simp
next
  case (Cons ev evs)
  note st = server_step_ok [OF Cons.prems(1), of ev]
  have "(k, ToPeer f p) \<in> set (snd (server_step c rs srv ev)) \<or>
      (k, ToPeer f p) \<in> set (snd (server_loop c rs (fst (server_step c rs srv ev)) evs))"
    using Cons.prems(2) by (auto simp: case_prod_beta Let_def)
  then show ?case
    using st Cons.IH [of "fst (server_step c rs srv ev)"] by (auto simp: server_step_config)
qed

text \<open>A packet of one device leaves the sessions of the others alone.\<close>

lemma server_recv_other:
  assumes d: "decode_server_frame c buf (srv_selectors srv) = Inr (f, k)" and kid: "kid \<noteq> key_id f"
  shows "map_of (srv_sessions (server_recv c now srv buf peer)) (kid, ses) = map_of (srv_sessions srv) (kid, ses)"
proof -
  obtain ss go where os: "open_session srv (now 0) f k = (ss, go)" by fastforce
  have flt: "map_of (filter (\<lambda>x. fst (fst x) \<noteq> key_id f) m) (kid, ses) = map_of m (kid, ses)" for m :: session_table
    using kid by (induction m) auto
  have "map_of ss (kid, ses) = map_of (srv_sessions srv) (kid, ses)"
  proof (cases "map_of (srv_sessions srv) (key_id f, session f) = None")
    case True
    then show ?thesis
      using os kid flt open_session_cases [OF server_frame_v3(1) [OF d] True, of "now 0" k]
      by (auto simp: map_add_def split: if_splits option.splits)
  next
    case False
    then show ?thesis using os by (auto simp: open_session_def Let_def)
  qed
  then show ?thesis
    using kid by (auto simp: server_recv_def d os update_conv' split: bool.split option.split)
qed

section \<open>Start-up\<close>

lemma build_selectors_result:
  "build_selectors c ks sel =
     (if distinct (map (v3_selector_prefix c \<circ> fst) ks) \<and> set (map (v3_selector_prefix c \<circ> fst) ks) \<inter> set (keys sel) = {}
      then Inr (sel @ map (\<lambda>(kid, k). (v3_selector_prefix c kid, (kid, k))) ks)
      else Inl (Bail ''keyring contains a V3 selector collision''))"
proof (induction ks arbitrary: sel)
  case Nil
  then show ?case by simp
next
  case (Cons x ks)
  obtain kid k where x: "x = (kid, k)" by fastforce
  show ?case
  proof (cases "v3_selector_prefix c kid \<in> set (keys sel)")
    case True
    then have "map_of sel (v3_selector_prefix c kid) \<noteq> None" by (simp add: map_of_None_keys)
    with True x show ?thesis by auto
  next
    case False
    then have "map_of sel (v3_selector_prefix c kid) = None" by (simp add: map_of_None_keys)
    with False x Cons [of "sel @ [(v3_selector_prefix c kid, kid, k)]"] show ?thesis
      by (auto simp: update_fresh)
  qed
qed

lemma server_new_ok: "server_new c lk keyring m idle forced = Inr srv \<Longrightarrow> server_ok c rs srv"
  by (auto simp: server_new_def server_ok_def table_ok_def rbind_eq_Inr_iff split: if_splits)

lemma server_new_selectors:
  assumes "server_new c lk (Some (Inr ks)) m idle forced = Inr srv"
  shows "srv_selectors srv = map (\<lambda>(kid, k). (v3_selector_prefix c kid, (kid, k))) ks"
    and "srv_max srv = m" and "distinct (map (v3_selector_prefix c \<circ> fst) ks)"
  using assms by (auto simp: server_new_def rbind_eq_Inr_iff build_selectors_result split: if_splits)

section \<open>Properties\<close>

text \<open>C14: whatever packets arrive, in whatever interleaving with the timers and the sessions' own work, the
  server keeps at most one session per device and at most \<open>max_sessions\<close> in all, every input queue
  holds at most 256 packets, and every session stays within the memory bounds of its decoder.\<close>

theorem server_table_bounded:
  assumes "server_new c legacy_key keyring max_sessions idle_secs forced = Inr srv0" and "rs_shape rs"
    and "srv_sessions (fst (server_loop c rs srv0 events)) = table"
  shows "distinct (map fst (keys table)) \<and> length table \<le> max_sessions \<and> max_sessions \<le> 65536 \<and>
     (\<forall>(sk, e) \<in> set table. length (s_queue e) \<le> 256 \<and> w_session (s_worker e) = snd sk \<and> w_key_id (s_worker e) = fst sk \<and>
        length (groups (w_decoder (s_worker e))) \<le> 2048 \<and> length (packets (w_decoder (s_worker e))) \<le> 4096)"
proof -
  have m: "srv_max srv0 = max_sessions" "max_sessions \<le> 65536"
    using assms(1) by (auto simp: server_new_def rbind_eq_Inr_iff split: if_splits)
  have ok: "server_ok c rs (fst (server_loop c rs srv0 events))"
    unfolding server_loop_state by (rule server_machine.run_invar [OF server_new_ok [OF assms(1)]])
  have "length (s_queue e) \<le> 256 \<and> w_session (s_worker e) = snd sk \<and> w_key_id (s_worker e) = fst sk \<and>
        length (groups (w_decoder (s_worker e))) \<le> 2048 \<and> length (packets (w_decoder (s_worker e))) \<le> 4096"
    if "(sk, e) \<in> set table" for sk e
  proof -
    have e: "entry_ok c rs (srv_selectors srv0) sk e"
      using ok that assms(3) by (auto simp: server_ok_def table_ok_def server_loop_config)
    then have "decoder_inv (w_decoder (s_worker e))"
      using assms(2) by (simp add: entry_ok_def worker_ok_def duplex_ok_def)
    with e show ?thesis
      by (simp add: entry_ok_def SESSION_QUEUE_def decoder_inv_def groups_wf_def MAX_GROUPS_def MAX_REASSEMBLIES_def)
  qed
  with ok m assms(3) show ?thesis
    by (auto simp: server_ok_def table_ok_def server_loop_config)
qed

definition sample_server :: server_state where
  "sample_server = \<lparr>srv_selectors = [(v3_selector_prefix sum_crypto 7, (7, [9]))], srv_max = 4,
     srv_idle = 60000000000, srv_forced = Some 1, srv_sessions = []\<rparr>"

lemma sample_server_new: "server_new sum_crypto None (Some (Inr [(7, [9])])) 4 60 (Some 1) = Inr sample_server"
  by (simp add: server_new_def sample_server_def)

definition sample_packet :: bytes where
  "sample_packet = (case encode_wire sum_crypto (sample_frame VERSION_V3 7) [9] (replicate 24 5) (replicate 4 6) of
     Inr buf \<Rightarrow> buf | Inl _ \<Rightarrow> [])"

lemma sample_packet_decodes:
  "decode_server_frame sum_crypto sample_packet [(v3_selector_prefix sum_crypto 7, (7, [9]))] =
     Inr (sample_frame VERSION_V3 7, [9])"
proof -
  obtain buf where "encode_wire sum_crypto (sample_frame VERSION_V3 7) [9] (replicate 24 5) (replicate 4 6) = Inr buf"
    "decode_server_frame sum_crypto buf [(v3_selector_prefix sum_crypto 7, (7, [9]))] = Inr (sample_frame VERSION_V3 7, [9])"
    using wire_accepted [OF hash_ok_sum_crypto aead_ok_sum_crypto, of "sample_frame VERSION_V3 7" "replicate 24 5"
        "replicate 4 6" "[(v3_selector_prefix sum_crypto 7, (7, [9]))]" "[9]"] sample_selector_not_magic
    by (auto simp: sample_frame_def V3_NONCE_def V3_SELECTOR_PREFIX_def)
  then show ?thesis by (simp add: sample_packet_def)
qed

definition sample_server_events :: "server_event list" where
  "sample_server_events = [ServerRecv (\<lambda>_. 5) sample_packet 80, SessionTurn (7, 7) (SessionPacket (\<lambda>_. 6)),
     SessionTurn (7, 7) SessionReport, Cleanup 7]"

theorem server_table_bounded_witness:
  "length (srv_sessions (fst (server_loop sum_crypto xor_code sample_server sample_server_events))) \<le> 4"
  using server_table_bounded [OF sample_server_new rs_shape_xor refl, of sample_server_events] by blast

text \<open>C6: no session ever sends a frame under another device's identity or key: every frame the server
  emits, over any run, is a V3 frame sealed with the key that the keyring has for the frame's device.\<close>

theorem server_tenant_keys:
  assumes "server_new c legacy_key (Some (Inr keyring)) max_sessions idle_secs forced = Inr srv0"
    and "(k, ToPeer f peer) \<in> set (snd (server_loop c rs srv0 events))"
  shows "version f = VERSION_V3 \<and> (key_id f, k) \<in> set keyring"
proof -
  have "version f = VERSION_V3" "map_of (srv_selectors srv0) (v3_selector_prefix c (key_id f)) = Some (key_id f, k)"
    using server_loop_out [OF server_new_ok [OF assms(1)] assms(2)] by simp_all
  with server_new_selectors(1) [OF assms(1)] show ?thesis
    by (auto dest!: map_of_SomeD)
qed

lemma sample_server_recv:
  "srv_sessions (server_recv sum_crypto (\<lambda>_. 5) sample_server sample_packet 80) =
     [((7, 7), (session_start sample_server 5 (sample_frame VERSION_V3 7) [9])\<lparr>s_queue := [(sample_frame VERSION_V3 7, 80)]\<rparr>)]"
proof -
  have "open_session sample_server 5 (sample_frame VERSION_V3 7) [9] =
      ([((7, 7), session_start sample_server 5 (sample_frame VERSION_V3 7) [9])], True)"
    by (subst open_session_cases) (simp_all add: sample_frame_def sample_server_def)
  then show ?thesis
    using sample_packet_decodes
    by (simp add: server_recv_def sample_server_def sample_frame_def try_send_def session_start_def SESSION_QUEUE_def)
qed

lemma sample_server_sends:
  "\<exists>f. key_id f = 7 \<and> ([9], ToPeer f 80) \<in> set (snd (server_loop sum_crypto xor_code sample_server sample_server_events))"
proof -
  let ?srv1 = "server_recv sum_crypto (\<lambda>_. 5) sample_server sample_packet 80"
  let ?e1 = "(session_start sample_server 5 (sample_frame VERSION_V3 7) [9])\<lparr>s_queue := [(sample_frame VERSION_V3 7, 80)]\<rparr>"
  obtain w1 acts where p: "worker_packet xor_code (\<lambda>_. 6) (s_worker ?e1) (sample_frame VERSION_V3 7) 80 = (w1, acts)" by fastforce
  have w1: "w_peer w1 = Some 80"
    using p by (auto simp: worker_packet_def Let_def split: prod.splits sum.splits if_splits)
  have id: "w_key_id w1 = 7" "worker_ok xor_code w1"
    using worker_step_identity [of xor_code "s_worker ?e1" "Packet (\<lambda>_. 6) (sample_frame VERSION_V3 7) 80" w1 acts] p
    by (simp_all add: session_start_def worker_new_def worker_ok_def duplex_new sample_frame_def)
  obtain w2 f where r: "worker_report w1 = (w2, [ToPeer f 80])"
    using w1 by (fastforce simp: worker_report_def case_prod_beta)
  have "key_id f = 7"
    using worker_step_identity(5) [of xor_code w1 ReportTick w2 "[ToPeer f 80]" f] r id by simp
  moreover have "([9], ToPeer f 80) \<in> set (snd (server_loop sum_crypto xor_code sample_server sample_server_events))"
    using p r sample_server_recv by (simp add: sample_server_events_def session_run_def session_start_def)
  ultimately show ?thesis by blast
qed

theorem server_tenant_keys_witness:
  "\<exists>f. ([9], ToPeer f 80) \<in> set (snd (server_loop sum_crypto xor_code sample_server sample_server_events)) \<and>
     version f = VERSION_V3 \<and> (key_id f, [9 :: u8]) \<in> set [(7 :: u64, [9])]"
  using sample_server_sends server_tenant_keys [OF sample_server_new] by blast

text \<open>C7: a packet affects at most the device that authenticated it.  A packet that does not authenticate
  changes nothing at all; an authentic one leaves the sessions of every other device exactly as they were.\<close>

theorem server_packet_isolated:
  "(case decode_server_frame c buf (srv_selectors srv) of
      Inl _ \<Rightarrow> server_recv c now srv buf peer = srv
    | Inr (f, k) \<Rightarrow> \<forall>kid ses. kid = key_id f \<or>
        map_of (srv_sessions (server_recv c now srv buf peer)) (kid, ses) = map_of (srv_sessions srv) (kid, ses))"
  using server_recv_other [of c buf srv] by (auto simp: server_recv_def split: sum.split)

text \<open>C23: session takeover, exactly.  A frame of a session that is not in the table, of a device that has
  another session, replaces that session when its sequence number is at most 32, whatever the sequence
  number of the live session; otherwise it is dropped and the table is unchanged.  A recorded early frame
  of an earlier session therefore ends the live session: frames of different sessions are not checked
  for replay.\<close>

theorem session_takeover:
  assumes "server_ok c rs srv" and "decode_server_frame c buf (srv_selectors srv) = Inr (f, k)"
    and "map_of (srv_sessions srv) (key_id f, live) = Some e" and "live \<noteq> session f"
  shows "srv_sessions (server_recv c now srv buf peer) =
    (if sequence f \<le> SESSION_TAKEOVER_MAX_SEQUENCE
     then filter (\<lambda>x. fst (fst x) \<noteq> key_id f) (srv_sessions srv) @
       [((key_id f, session f), (session_start srv (now 0) f k)\<lparr>s_last_seen := now 1, s_queue := [(f, peer)]\<rparr>)]
     else srv_sessions srv)"
proof -
  let ?ss = "srv_sessions srv" and ?sk = "(key_id f, session f)"
  let ?rest = "filter (\<lambda>x. fst (fst x) \<noteq> key_id f) ?ss"
  have tab: "distinct (map fst (keys ?ss))" "length ?ss \<le> srv_max srv"
    using assms(1) by (auto simp: server_ok_def table_ok_def)
  have live: "((key_id f, live), e) \<in> set ?ss" using assms(3) by (rule map_of_SomeD)
  have "map_of ?ss ?sk = None"
  proof (rule ccontr)
    assume "map_of ?ss ?sk \<noteq> None"
    then obtain e' where "(?sk, e') \<in> set ?ss" using map_of_SomeD by fastforce
    then show False using tab(1) live assms(4) by (fastforce simp: distinct_map inj_on_def)
  qed
  note cases = open_session_cases [OF server_frame_v3(1) [OF assms(2)] this, of "now 0" k]
  have "length ?rest < srv_max srv"
    using tab(2) live length_filter_less [of "((key_id f, live), e)" ?ss "\<lambda>x. fst (fst x) \<noteq> key_id f"] by simp
  moreover have "?sk \<notin> set (keys ?rest)" by auto
  moreover have "key_id f \<in> fst ` set (keys ?ss)" using live by force
  moreover have "AList.update ?sk v (?rest @ [(?sk, u)]) = ?rest @ [(?sk, v)]" for u v
    by (intro update_last) auto
  moreover have "map_of ?rest ?sk = None" by (simp add: map_of_None_keys image_iff)
  ultimately show ?thesis
    using assms(2)
    by (auto simp: server_recv_def cases try_send_def session_start_def SESSION_QUEUE_def not_le map_add_def split: option.split)
qed

text \<open>The clean-up removes exactly the sessions whose task has finished or that have been idle for the
  configured time, and touches no other.\<close>

theorem server_cleanup_exact:
  assumes "server_ok c rs srv"
  shows "map_of (srv_sessions (server_cleanup now srv)) sk =
     (case map_of (srv_sessions srv) sk of
        None \<Rightarrow> None
      | Some e \<Rightarrow> if s_finished e \<or> now - s_last_seen e \<ge> srv_idle srv then None else Some e)"
proof -
  let ?ss = "srv_sessions srv"
  have d: "distinct (keys ?ss)" using assms table_ok_distinct by (auto simp: server_ok_def)
  have flt: "map_of (filter (\<lambda>x. fst x \<notin> S) m) sk = (if sk \<in> S then None else map_of m sk)"
    for S and m :: session_table
    by (induction m) auto
  have "sk \<in> fst ` {x \<in> set ?ss. case x of (_, e) \<Rightarrow> session_expired (srv_idle srv) now e} \<longleftrightarrow>
      (\<exists>e. map_of ?ss sk = Some e \<and> session_expired (srv_idle srv) now e)"
    using map_of_eq_Some_iff [OF d] by (cases sk) (auto simp: image_iff)
  then show ?thesis
    by (auto simp: server_cleanup_def Let_def remove_all_filter flt session_expired_def split: option.split)
qed

definition live_server :: server_state where
  "live_server = sample_server\<lparr>srv_sessions :=
     [((7, 11), (session_start sample_server 5 ((sample_frame VERSION_V3 7)\<lparr>session := 11\<rparr>) [9]))]\<rparr>"

lemma live_server_ok: "server_ok sum_crypto xor_code live_server"
  using session_start_ok [of "(sample_frame VERSION_V3 7)\<lparr>session := 11\<rparr>" "srv_selectors sample_server" sum_crypto "[9]"]
  by (simp add: live_server_def sample_server_def server_ok_def table_ok_def sample_frame_def)

theorem session_takeover_witness:
  "keys (srv_sessions (server_recv sum_crypto (\<lambda>_. 6) live_server sample_packet 666)) = [(7, 7)]"
proof -
  have d: "decode_server_frame sum_crypto sample_packet (srv_selectors live_server) = Inr (sample_frame VERSION_V3 7, [9])"
    using sample_packet_decodes by (simp add: live_server_def sample_server_def)
  show ?thesis
    by (subst session_takeover [OF live_server_ok d, of 11])
      (simp_all add: live_server_def sample_frame_def SESSION_TAKEOVER_MAX_SEQUENCE_def)
qed

theorem server_cleanup_exact_witness:
  "map_of (srv_sessions (server_cleanup 60000000005 live_server)) (7, 11) = None \<and>
   map_of (srv_sessions (server_cleanup 60000000004 live_server)) (7, 11) \<noteq> None"
  unfolding server_cleanup_exact [OF live_server_ok]
  by (simp add: live_server_def sample_server_def session_start_def)

end
