(* ===== verification/Session_Registry.thy ===== *)
theory Session_Registry
  imports Server_Sessions
begin

text \<open>
  What the session table of the server promises, without queues, clocks, keys, tasks and packets: a
  register that maps a device to its session.  The server of \<open>Server_Sessions\<close> is shown to refine it.
\<close>

section \<open>Specification\<close>

type_synonym registry = "u64 \<rightharpoonup> u64"

text \<open>What the register sees of an event: an authentic frame of a device, of one of its sessions and with a sequence
  number; devices that expire; nothing.\<close>

datatype registry_event = is_Hello: Hello u64 u64 u64 | Expire "u64 list" | Quiet

text \<open>A device without a session joins as long as there is room; a device with another session is taken over by
  a frame of sequence number at most 32 and by no other; expired devices leave.\<close>

fun registry_step :: "nat \<Rightarrow> registry \<Rightarrow> registry_event \<Rightarrow> registry" where
  "registry_step m reg (Hello kid ses seq) =
     (case reg kid of
        None \<Rightarrow> if card (dom reg) < m then reg(kid \<mapsto> ses) else reg
      | Some live \<Rightarrow> if live \<noteq> ses \<and> seq \<le> 32 then reg(kid \<mapsto> ses) else reg)"
| "registry_step m reg (Expire kids) = reg |` (- set kids)"
| "registry_step m reg Quiet = reg"

section \<open>Abstraction\<close>

definition registry_of :: "session_table \<Rightarrow> registry" where
  "registry_of ss = map_of (keys ss)"

fun registry_view :: "crypto \<Rightarrow> server_state \<Rightarrow> server_event \<Rightarrow> registry_event" where
  "registry_view c srv (ServerRecv now buf peer) =
     (case decode_server_frame c buf (srv_selectors srv) of
        Inl _ \<Rightarrow> Quiet | Inr (f, k) \<Rightarrow> Hello (key_id f) (session f) (sequence f))"
| "registry_view c srv (Cleanup now) =
     Expire (map (fst \<circ> fst) (filter (\<lambda>(_, e). session_expired (srv_idle srv) now e) (srv_sessions srv)))"
| "registry_view c srv (SessionTurn sk ev) = Quiet"

lemma registry_of_update_present:
  "map_of ss sk \<noteq> None \<Longrightarrow> registry_of (AList.update sk e ss) = registry_of ss"
  by (simp add: registry_of_def AList.update_keys map_of_eq_None_iff)

lemma registry_of_Some: "distinct (map fst (keys ss)) \<Longrightarrow> registry_of ss kid = Some ses \<longleftrightarrow> (kid, ses) \<in> set (keys ss)"
  by (simp add: registry_of_def)

lemma registry_of_None: "registry_of ss kid = None \<longleftrightarrow> kid \<notin> fst ` set (keys ss)"
  by (simp add: registry_of_def map_of_eq_None_iff)

lemma registry_card: "distinct (map fst (keys ss)) \<Longrightarrow> card (dom (registry_of ss)) = length ss"
  using distinct_card [of "map fst (keys ss)"] by (simp add: registry_of_def dom_map_of_conv_image_fst image_comp)

lemma registry_of_filter: "registry_of (filter (\<lambda>x. P (fst (fst x))) ss) = registry_of ss |` {kid. P kid}"
  unfolding registry_of_def by (induction ss) (auto simp: fun_eq_iff restrict_map_def)

lemma registry_of_snoc: "kid \<notin> fst ` set (keys ss) \<Longrightarrow> registry_of (ss @ [((kid, ses), e)]) = (registry_of ss)(kid \<mapsto> ses)"
  using registry_of_None [of ss kid] by (simp add: registry_of_def map_add_def fun_eq_iff split: option.split)

section \<open>Refinement\<close>

lemma open_session_refines:
  assumes ok: "server_ok c rs srv" and f: "decode_server_frame c buf (srv_selectors srv) = Inr (f, k)"
  shows "registry_of (fst (open_session srv now f k)) =
     registry_step (srv_max srv) (registry_of (srv_sessions srv)) (Hello (key_id f) (session f) (sequence f))"
proof -
  let ?ss = "srv_sessions srv" and ?kid = "key_id f"
  let ?rest = "filter (\<lambda>x. fst (fst x) \<noteq> ?kid) ?ss"
  have tab: "distinct (map fst (keys ?ss))" "length ?ss \<le> srv_max srv" using ok by (auto simp: server_ok_def table_ok_def)
  show ?thesis
  proof (cases "map_of ?ss (?kid, session f) = None")
    case False
    then have "registry_of ?ss ?kid = Some (session f)"
      using registry_of_Some [OF tab(1)] by (simp add: map_of_eq_None_iff)
    then show ?thesis using False by (simp add: open_session_def Let_def)
  next
    case True
    note cases = open_session_cases [OF server_frame_v3(1) [OF f] True, of now k]
    have rest: "registry_of (?rest @ [((?kid, session f), e)]) = (registry_of ?ss)(?kid \<mapsto> session f)" for e
      by (subst registry_of_snoc) (auto simp: registry_of_filter [of "\<lambda>kid. kid \<noteq> ?kid"] restrict_map_def fun_eq_iff)
    show ?thesis
    proof (cases "registry_of ?ss ?kid")
      case None
      then have "?rest = ?ss" unfolding registry_of_None by (intro filter_True) force
      then show ?thesis
        using None None [unfolded registry_of_None] rest by (auto simp: cases registry_card [OF tab(1)])
    next
      case (Some live)
      have mem: "(?kid, live) \<in> set (keys ?ss)" using Some registry_of_Some [OF tab(1)] by simp
      then obtain e where "((?kid, live), e) \<in> set ?ss" by auto
      then have "length ?rest < srv_max srv"
        using tab(2) length_filter_less [of "((?kid, live), e)" ?ss "\<lambda>x. fst (fst x) \<noteq> ?kid"] by simp
      moreover have "live \<noteq> session f" using mem True by (auto simp: map_of_eq_None_iff)
      moreover have "?kid \<in> fst ` set (keys ?ss)" using mem by force
      ultimately show ?thesis
        using Some rest by (auto simp: cases SESSION_TAKEOVER_MAX_SEQUENCE_def not_le)
    qed
  qed
qed

lemma server_step_refines:
  assumes ok: "server_ok c rs srv"
  shows "registry_of (srv_sessions (fst (server_step c rs srv ev))) =
     registry_step (srv_max srv) (registry_of (srv_sessions srv)) (registry_view c srv ev)"
proof (cases ev)
  case (ServerRecv now buf peer)
  show ?thesis
  proof (cases "decode_server_frame c buf (srv_selectors srv)")
    case (Inl e)
    then show ?thesis using ServerRecv by (simp add: server_recv_def)
  next
    case (Inr r)
    obtain f k where r: "r = (f, k)" by fastforce
    have "registry_of (srv_sessions (server_recv c now srv buf peer)) = registry_of (fst (open_session srv (now 0) f k))"
      using Inr r by (auto simp: server_recv_def registry_of_update_present split: prod.split bool.split option.split)
    with open_session_refines [OF ok Inr [unfolded r]] show ?thesis using ServerRecv Inr r by simp
  qed
next
  case (Cleanup now)
  let ?ss = "srv_sessions srv" and ?old = "filter (\<lambda>(_, e). session_expired (srv_idle srv) now e) (srv_sessions srv)"
  have inj: "inj_on (fst \<circ> fst) (set ?ss)" using ok by (auto simp: server_ok_def table_ok_def distinct_map)
  have "fst x \<in> fst ` set ?old \<longleftrightarrow> (fst \<circ> fst) x \<in> (fst \<circ> fst) ` set ?old" if x: "x \<in> set ?ss" for x
  proof
    assume "(fst \<circ> fst) x \<in> (fst \<circ> fst) ` set ?old"
    then obtain y where y: "y \<in> set ?old" "(fst \<circ> fst) x = (fst \<circ> fst) y" by (rule imageE)
    have "x = y" by (rule inj_onD [OF inj y(2) x]) (use y(1) in simp)
    with y(1) show "fst x \<in> fst ` set ?old" by simp
  qed force
  then have "remove_all (keys ?old) ?ss = filter (\<lambda>x. fst (fst x) \<notin> (fst \<circ> fst) ` set ?old) ?ss"
    unfolding remove_all_filter by (intro filter_cong) simp_all
  then show ?thesis
    using Cleanup registry_of_filter [of "\<lambda>kid. kid \<notin> (fst \<circ> fst) ` set ?old" ?ss]
    by (simp add: server_cleanup_def Let_def Compl_eq del: o_apply image_comp)
next
  case (SessionTurn sk sev)
  then show ?thesis by (auto simp: registry_of_update_present split: option.split prod.split)
qed

interpretation server_registry: functional_refinement "\<lambda>srv ev. fst (server_step c rs srv ev)"
    "\<lambda>srv. server_ok c rs srv \<and> srv_max srv = m" "\<lambda>srv. registry_of (srv_sessions srv)" "registry_view c" "registry_step m" for c rs m
  by unfold_locales (simp_all only: server_step_ok server_step_config server_step_refines)

text \<open>The authentic frames among the packets of a run, as the register sees them.\<close>

definition authentic :: "crypto \<Rightarrow> (bytes \<times> (u64 \<times> bytes)) list \<Rightarrow> server_event \<Rightarrow> registry_event list" where
  "authentic c sel ev = (case ev of
     ServerRecv now buf peer \<Rightarrow> (case decode_server_frame c buf sel of
       Inl _ \<Rightarrow> [] | Inr (f, k) \<Rightarrow> [Hello (key_id f) (session f) (sequence f)])
   | _ \<Rightarrow> [])"

lemma authentic_views:
  "filter is_Hello (views (\<lambda>srv ev. fst (server_step c rs srv ev)) (registry_view c) srv evs) =
     concat (map (authentic c (srv_selectors srv)) evs)"
proof (induction evs arbitrary: srv)
  case Nil
  then show ?case by simp
next
  case (Cons ev evs)
  have "filter is_Hello [registry_view c srv ev] = authentic c (srv_selectors srv) ev"
    by (cases ev) (auto simp: authentic_def split: sum.split)
  then show ?case using Cons [of "fst (server_step c rs srv ev)"] by (auto simp: server_step_config split: if_splits)
qed

section \<open>Properties\<close>

text \<open>C8: the server refines its specification.  Over any run, whatever packets arrive and however they interleave with the
  clean-up timer and the work of the sessions, the devices and their sessions are those of the register, driven by
  exactly the authentic frames in their order of arrival and by the sessions that expire: nothing else opens,
  replaces or ends a session.\<close>

theorem server_refines_spec:
  assumes "server_new c legacy_key keyring max_sessions idle_secs forced = Inr srv0"
  shows "\<exists>trace. registry_of (srv_sessions (fst (server_loop c rs srv0 events))) = foldl (registry_step max_sessions) Map.empty trace \<and>
     filter is_Hello trace = concat (map (authentic c (srv_selectors srv0)) events) \<and> length trace = length events \<and>
     (\<forall>i < length events. trace ! i = registry_view c (fst (server_loop c rs srv0 (take i events))) (events ! i))"
proof -
  let ?trace = "views (\<lambda>srv ev. fst (server_step c rs srv ev)) (registry_view c) srv0 events"
  have m: "srv_max srv0 = max_sessions" "srv_sessions srv0 = []"
    using assms by (auto simp: server_new_def rbind_eq_Inr_iff split: if_splits)
  have "registry_of (srv_sessions (fst (server_loop c rs srv0 events))) = foldl (registry_step max_sessions) Map.empty ?trace"
    unfolding server_loop_state
    using server_registry.run_refines [of c rs srv0 max_sessions events] server_new_ok [OF assms] m by (simp add: registry_of_def)
  moreover have "?trace ! i = registry_view c (fst (server_loop c rs srv0 (take i events))) (events ! i)" if "i < length events" for i
    unfolding server_loop_state by (rule views_nth [OF that])
  ultimately show ?thesis by (intro exI [of _ ?trace]) (simp add: authentic_views)
qed

text \<open>A device joins and works; the clean-up finds nothing to expire.\<close>

theorem server_refines_spec_witness:
  "\<exists>trace. registry_of (srv_sessions (fst (server_loop sum_crypto xor_code sample_server sample_server_events))) =
       foldl (registry_step 4) Map.empty trace \<and> filter is_Hello trace = [Hello 7 7 2]"
proof -
  have "concat (map (authentic sum_crypto (srv_selectors sample_server)) sample_server_events) = [Hello 7 7 2]"
    using sample_packet_decodes
    by (simp add: authentic_def sample_server_events_def sample_server_def sample_frame_def)
  then show ?thesis
    using server_refines_spec [OF sample_server_new, of xor_code sample_server_events] by auto
qed

end
