(* ===== verification/Tenant_Isolation.thy ===== *)
theory Tenant_Isolation
  imports Server_Sessions
begin

text \<open>
  Isolation of the devices on a shared server: what a device's sessions do does not depend on the other
  devices.  The one resource they share is the number of sessions; as a device has at most one, it
  does not run out when the keyring is no larger than \<open>max_sessions\<close>.
\<close>

section \<open>The view of a device\<close>

definition device_view :: "u64 \<Rightarrow> server_state \<Rightarrow> u64 \<rightharpoonup> session_entry" where
  "device_view kid srv = (\<lambda>ses. map_of (srv_sessions srv) (kid, ses))"

text \<open>The events of a device: the packets that authenticate as it, the turns of its sessions, and the clean-up, which is
  everybody's.\<close>

definition concerns :: "crypto \<Rightarrow> (bytes \<times> (u64 \<times> bytes)) list \<Rightarrow> u64 \<Rightarrow> server_event \<Rightarrow> bool" where
  "concerns c sel kid ev = (case ev of
     ServerRecv now buf peer \<Rightarrow> (case decode_server_frame c buf sel of Inl _ \<Rightarrow> False | Inr (f, _) \<Rightarrow> key_id f = kid)
   | Cleanup now \<Rightarrow> True
   | SessionTurn sk sev \<Rightarrow> fst sk = kid)"

text \<open>What a packet of a device does to its view.\<close>

definition receive_view ::
  "nat option \<Rightarrow> (nat \<Rightarrow> instant) \<Rightarrow> frame \<Rightarrow> bytes \<Rightarrow> addr \<Rightarrow> (u64 \<rightharpoonup> session_entry) \<Rightarrow> (u64 \<rightharpoonup> session_entry)" where
  "receive_view forced now f k peer view =
     (case view (session f) of
        Some e \<Rightarrow> view(session f \<mapsto> try_send (e\<lparr>s_last_seen := now 1\<rparr>) (f, peer))
      | None \<Rightarrow>
          if sequence f > SESSION_TAKEOVER_MAX_SEQUENCE \<and> view \<noteq> Map.empty then view
          else [session f \<mapsto> try_send \<lparr>s_key = k, s_queue = [], s_last_seen = now 1, s_finished = False,
                  s_worker = worker_new (session f) (version f) (key_id f) forced\<rparr> (f, peer)])"

lemma device_view_empty: "device_view kid srv = Map.empty \<longleftrightarrow> kid \<notin> fst ` set (keys (srv_sessions srv))"
  by (force simp: device_view_def fun_eq_iff map_of_eq_None_iff image_iff)

section \<open>Capacity\<close>

lemma table_devices:
  assumes "table_ok (entry_ok c rs sel) m ss" and "sk \<in> set (keys ss)"
  shows "fst sk \<in> fst ` snd ` set sel"
proof -
  obtain e where "(sk, e) \<in> set ss" using assms(2) by auto
  then have "map_of sel (v3_selector_prefix c (fst sk)) = Some (fst sk, s_key e)"
    using assms(1) by (auto simp: table_ok_def entry_ok_def)
  then show ?thesis by (force dest: map_of_SomeD)
qed

lemma room_for_device:
  assumes ok: "server_ok c rs srv" and sel: "length (srv_selectors srv) \<le> srv_max srv"
    and kid: "map_of (srv_selectors srv) (v3_selector_prefix c kid) = Some (kid, k)"
  shows "length (filter (\<lambda>x. fst (fst x) \<noteq> kid) (srv_sessions srv)) < srv_max srv"
proof -
  let ?sel = "srv_selectors srv" and ?rest = "filter (\<lambda>x. fst (fst x) \<noteq> kid) (srv_sessions srv)"
  let ?D = "fst ` snd ` set ?sel"
  have tab: "table_ok (entry_ok c rs ?sel) (srv_max srv) ?rest" using ok by (simp add: server_ok_def table_ok_filter)
  then have "distinct (map fst (keys ?rest))" by (simp only: table_ok_def)
  from distinct_card [OF this] have "length ?rest = card (set (map fst (keys ?rest)))" by simp
  also have "\<dots> \<le> card (?D - {kid})"
  proof (rule card_mono)
    have "fst sk \<in> ?D - {kid}" if "sk \<in> set (keys ?rest)" for sk
      using table_devices [OF tab that] that by auto
    then show "set (map fst (keys ?rest)) \<subseteq> ?D - {kid}" by (simp only: set_map) (rule image_subsetI)
  qed simp
  also have "\<dots> < card ?D" using map_of_SomeD [OF kid] by (intro card_Diff1_less) force+
  also have "\<dots> \<le> length ?sel" using card_length [of "map (\<lambda>x. fst (snd x)) ?sel"] by (simp add: image_image)
  finally show ?thesis using sel by simp
qed

section \<open>Unwinding\<close>

lemma receive_own:
  assumes ok: "server_ok c rs srv" and sel: "length (srv_selectors srv) \<le> srv_max srv"
    and dec: "decode_server_frame c buf (srv_selectors srv) = Inr (f, k)"
  shows "device_view (key_id f) (server_recv c now srv buf peer) = receive_view (srv_forced srv) now f k peer (device_view (key_id f) srv)"
proof (cases "map_of (srv_sessions srv) (key_id f, session f)")
  case (Some e)
  then have "open_session srv (now 0) f k = (srv_sessions srv, True)" by (simp add: open_session_def Let_def)
  then show ?thesis
    using Some dec by (auto simp: server_recv_def device_view_def receive_view_def update_conv' fun_eq_iff)
next
  case None
  let ?rest = "filter (\<lambda>x. fst (fst x) \<noteq> key_id f) (srv_sessions srv)"
  have room: "length ?rest < srv_max srv" by (rule room_for_device [OF ok sel server_frame_v3(2) [OF dec]])
  note cases = open_session_cases [OF server_frame_v3(1) [OF dec] None, of "now 0" k]
  have gone: "map_of ?rest (key_id f, ses) = None" for ses by (auto simp: map_of_eq_None_iff)
  show ?thesis
    using dec room None gone device_view_empty [of "key_id f" srv]
    by (auto simp: server_recv_def cases device_view_def receive_view_def update_conv' fun_eq_iff map_add_def session_start_def)
qed

definition alike :: "crypto \<Rightarrow> rs_code \<Rightarrow> (bytes \<times> (u64 \<times> bytes)) list \<Rightarrow> u64 \<Rightarrow> server_state \<Rightarrow> server_state \<Rightarrow> bool" where
  "alike c rs sel kid s t \<longleftrightarrow> server_ok c rs s \<and> server_ok c rs t \<and> srv_selectors s = sel \<and> srv_selectors t = sel \<and>
     length sel \<le> srv_max s \<and> length sel \<le> srv_max t \<and> srv_idle s = srv_idle t \<and> srv_forced s = srv_forced t \<and>
     device_view kid s = device_view kid t"

lemma server_step_settings:
  "srv_idle (fst (server_step c rs srv ev)) = srv_idle srv" "srv_forced (fst (server_step c rs srv ev)) = srv_forced srv"
  by (cases ev; auto simp: server_recv_def server_cleanup_def Let_def split: sum.split option.split prod.split bool.split)+

lemma cleanup_view:
  "server_ok c rs srv \<Longrightarrow> device_view kid (server_cleanup now srv) =
     (\<lambda>ses. case device_view kid srv ses of None \<Rightarrow> None | Some e \<Rightarrow> if session_expired (srv_idle srv) now e then None else Some e)"
  by (simp add: device_view_def server_cleanup_exact session_expired_def fun_eq_iff split: option.split)

lemma turn_view:
  assumes "device_view kid s = device_view kid t"
  shows "device_view kid (fst (server_step c rs s (SessionTurn (kid, ses) sev))) = device_view kid (fst (server_step c rs t (SessionTurn (kid, ses) sev)))"
    and "snd (server_step c rs s (SessionTurn (kid, ses) sev)) = snd (server_step c rs t (SessionTurn (kid, ses) sev))"
proof -
  have v: "map_of (srv_sessions s) (kid, x) = map_of (srv_sessions t) (kid, x)" for x
    using assms by (simp add: device_view_def fun_eq_iff)
  show "device_view kid (fst (server_step c rs s (SessionTurn (kid, ses) sev))) = device_view kid (fst (server_step c rs t (SessionTurn (kid, ses) sev)))"
    and "snd (server_step c rs s (SessionTurn (kid, ses) sev)) = snd (server_step c rs t (SessionTurn (kid, ses) sev))"
    by (auto simp: device_view_def v update_conv' fun_eq_iff split: option.split prod.split)
qed

lemma own_step:
  assumes "alike c rs sel kid s t" and "concerns c sel kid ev"
  shows "device_view kid (fst (server_step c rs s ev)) = device_view kid (fst (server_step c rs t ev)) \<and>
     snd (server_step c rs s ev) = snd (server_step c rs t ev)"
proof (cases ev)
  case (ServerRecv now buf peer)
  then obtain f k where dec: "decode_server_frame c buf sel = Inr (f, k)" and kid: "key_id f = kid"
    using assms(2) by (auto simp: concerns_def split: sum.splits)
  show ?thesis
    using receive_own [of c rs s buf f k] receive_own [of c rs t buf f k] assms(1) dec kid ServerRecv by (simp add: alike_def)
next
  case (Cleanup now)
  have "server_ok c rs s" "server_ok c rs t" "device_view kid s = device_view kid t" "srv_idle s = srv_idle t"
    using assms(1) by (simp_all add: alike_def)
  then show ?thesis using Cleanup by (simp add: cleanup_view fun_eq_iff split: option.split)
next
  case (SessionTurn sk sev)
  then obtain ses where "sk = (kid, ses)" using assms(2) by (cases sk) (simp add: concerns_def)
  with turn_view [of kid s t] SessionTurn assms(1) show ?thesis by (simp add: alike_def del: server_step.simps)
qed

lemma other_step:
  assumes "srv_selectors s = sel" and "\<not> concerns c sel kid ev"
  shows "device_view kid (fst (server_step c rs s ev)) = device_view kid s"
proof (cases ev)
  case (ServerRecv now buf peer)
  then show ?thesis
    using assms server_recv_other [of c buf s _ _ kid now peer]
    by (cases "decode_server_frame c buf sel") (auto simp: concerns_def device_view_def server_recv_def)
next
  case (SessionTurn sk sev)
  then have "fst sk \<noteq> kid" using assms(2) by (simp add: concerns_def)
  then show ?thesis using SessionTurn by (auto simp: device_view_def update_conv' fun_eq_iff split: option.split prod.split)
qed (use assms(2) in \<open>simp add: concerns_def\<close>)

lemma alike_step:
  assumes "alike c rs sel kid s t" and "device_view kid (fst (server_step c rs s ev)) = device_view kid t'"
    and "t' = t \<or> t' = fst (server_step c rs t ev)"
  shows "alike c rs sel kid (fst (server_step c rs s ev)) t'"
  using assms server_step_ok [of c rs s ev] server_step_ok [of c rs t ev]
  by (auto simp: alike_def server_step_config server_step_settings simp del: server_step.simps)

interpretation tenant: unwinding "server_step c rs" "concerns c sel kid" "alike c rs sel kid" for c rs sel kid
proof unfold_locales
  fix s t ev
  assume al: "alike c rs sel kid s t"
  show "alike c rs sel kid (fst (server_step c rs s ev)) (fst (server_step c rs t ev)) \<and> snd (server_step c rs s ev) = snd (server_step c rs t ev)"
    if "concerns c sel kid ev"
    using alike_step [OF al] own_step [OF al that] by blast
  show "alike c rs sel kid (fst (server_step c rs s ev)) t" if "\<not> concerns c sel kid ev"
    using alike_step [OF al] other_step [OF _ that] al by (auto simp: alike_def)
qed

section \<open>Properties\<close>


text \<open>Two tenants, 7 and 8, each with its packet.\<close>

definition tenant_keyring :: "(u64 \<times> bytes) list" where
  "tenant_keyring = [(7, [9]), (8, [10])]"

definition tenant_server :: server_state where
  "tenant_server = \<lparr>srv_selectors = [(v3_selector_prefix sum_crypto 7, (7, [9])), (v3_selector_prefix sum_crypto 8, (8, [10]))],
     srv_max = 4, srv_idle = 60000000000, srv_forced = Some 1, srv_sessions = []\<rparr>"

lemma tenant_selectors_differ: "v3_selector_prefix sum_crypto 7 \<noteq> v3_selector_prefix sum_crypto 8"
  by (simp add: v3_selector_prefix_def sum_crypto_def V3_SELECTOR_PREFIX_def be_bytes_def upt_rec)

lemma tenant_server_new: "server_new sum_crypto None (Some (Inr tenant_keyring)) 4 60 (Some 1) = Inr tenant_server"
  using tenant_selectors_differ by (simp add: server_new_def tenant_server_def tenant_keyring_def)

definition tenant_packet :: "u64 \<Rightarrow> bytes \<Rightarrow> bytes" where
  "tenant_packet kid k = (case encode_wire sum_crypto (sample_frame VERSION_V3 kid) k (replicate 24 5) (replicate 4 6) of
     Inr buf \<Rightarrow> buf | Inl _ \<Rightarrow> [])"

lemma tenant_packet_decodes:
  assumes "map_of (srv_selectors tenant_server) (v3_selector_prefix sum_crypto kid) = Some (kid, k)"
  shows "decode_server_frame sum_crypto (tenant_packet kid k) (srv_selectors tenant_server) = Inr (sample_frame VERSION_V3 kid, k)"
proof -
  obtain buf where "encode_wire sum_crypto (sample_frame VERSION_V3 kid) k (replicate 24 5) (replicate 4 6) = Inr buf"
    "decode_server_frame sum_crypto buf (srv_selectors tenant_server) = Inr (sample_frame VERSION_V3 kid, k)"
    using wire_accepted [OF hash_ok_sum_crypto aead_ok_sum_crypto, of "sample_frame VERSION_V3 kid" "replicate 24 5"
        "replicate 4 6" "srv_selectors tenant_server" k] sample_selector_not_magic assms
    by (auto simp: sample_frame_def V3_NONCE_def V3_SELECTOR_PREFIX_def)
  then show ?thesis by (simp add: tenant_packet_def)
qed

definition tenant_own :: "server_event list" where
  "tenant_own = [ServerRecv (\<lambda>_. 5) (tenant_packet 7 [9]) 80, SessionTurn (7, 7) (SessionPacket (\<lambda>_. 6)),
     SessionTurn (7, 7) SessionReport, Cleanup 7]"

definition tenant_events :: "server_event list" where
  "tenant_events = ServerRecv (\<lambda>_. 4) (tenant_packet 8 [10]) 90 # ServerRecv (\<lambda>_. 4) [] 91 # hd tenant_own #
     SessionTurn (8, 7) (SessionPacket (\<lambda>_. 5)) # tl tenant_own"

lemma tenant_events_own: "filter (concerns sum_crypto (srv_selectors tenant_server) 7) tenant_events = tenant_own"
  using tenant_packet_decodes [of 7 "[9]"] tenant_packet_decodes [of 8 "[10]"] tenant_selectors_differ
  by (simp add: tenant_events_def tenant_own_def concerns_def tenant_server_def sample_frame_def
      decode_server_frame_def [of _ "[]"] V3_SELECTOR_def)


end
