(* ===== verification/Tunnel_End_To_End.thy ===== *)
theory Tunnel_End_To_End
  imports Server_Sessions
begin

text \<open>
  The tunnel as a whole: what the client's application sends comes out at the upstream of the server.
  The theories of the parts are composed along the path of a datagram: the client's loop, the wire
  format, the server's dispatch, the session's queue, its task and its decoder.
\<close>

section \<open>The network\<close>

text \<open>A datagram that carries a frame, whatever random numbers were drawn for it.\<close>

definition on_wire :: "crypto \<Rightarrow> bytes \<Rightarrow> frame \<Rightarrow> bytes \<Rightarrow> bool" where
  "on_wire c k f buf \<longleftrightarrow> (\<exists>nonce suffix. length nonce = V3_NONCE \<and> length suffix = V3_SELECTOR_PREFIX \<and> encode_wire c f k nonce suffix = Inr buf)"

text \<open>Of the frames \<open>fs\<close> the frames \<open>hs\<close> arrive, each once and in any order, and of every group at least as many
  as it has data shards.\<close>

definition survives :: "frame list \<Rightarrow> frame list \<Rightarrow> bool" where
  "survives fs hs \<longleftrightarrow> distinct hs \<and> set hs \<subseteq> set fs \<and>
     (\<forall>f \<in> set fs. unat (data f) \<le> length (filter (\<lambda>h. group h = group f) hs))"

text \<open>A clock that stays within the life time of a group.\<close>

definition timely :: "instant \<Rightarrow> (nat \<Rightarrow> instant) \<Rightarrow> bool" where
  "timely t0 now \<longleftrightarrow> (\<forall>i. t0 \<le> now i \<and> now i < t0 + GROUP_TTL)"

text \<open>A decoder that has started, holds nothing and has not seen the sequence numbers of the frames.\<close>

definition awaits :: "decoder \<Rightarrow> u64 \<Rightarrow> frame list \<Rightarrow> bool" where
  "awaits d ses fs \<longleftrightarrow> d_session d = ses \<and> groups d = [] \<and> packets d = [] \<and> \<not> fresh_window d \<and>
     (\<forall>f \<in> set fs. sequence f \<notin> spent_sequences d)"

text \<open>An encoder of a V3 identity with no shards waiting.\<close>

definition sends_as :: "encoder \<Rightarrow> u64 \<Rightarrow> u64 \<Rightarrow> bool" where
  "sends_as e kid ses \<longleftrightarrow> encoder_inv e \<and> en_shards e = [] \<and> en_version e = VERSION_V3 \<and> en_key_id e = kid \<and> en_session e = ses"

text \<open>The frames of a burst carry the identity of their encoder and decode to themselves at both ends.\<close>

lemma burst_sent_by:
  assumes "sends_as e kid ses" and "rs_supports rs (parity_level e)" and "\<forall>pl \<in> set pls. length pl \<le> 65535"
    and "encode_run rs e pls = (e', Inr fs)" and "f \<in> set fs"
  shows "sent_by (e\<lparr>en_packet := en_packet e + of_nat (length pls)\<rparr>) f"
  using encode_run_emits [OF _ assms(2,3)] assms(1,4,5) by (auto simp: emits_def sends_as_def)

lemma burst_frame_fields:
  assumes "sends_as e kid ses" and "rs_supports rs (parity_level e)" and "\<forall>pl \<in> set pls. length pl \<le> 65535"
    and "encode_run rs e pls = (e', Inr fs)" and "f \<in> set fs"
  shows "version f = VERSION_V3" "key_id f = kid" "session f = ses" "kind f \<noteq> KIND_REPORT" "length (payload f) < 65536"
    and "length (payload f) \<le> 1340"
  using burst_sent_by [OF assms] assms(1)
  by (simp_all add: sends_as_def sent_by_def SHARD_def KIND_DATA_def KIND_PARITY_def KIND_REPORT_def)

lemma wire_decodes:
  assumes "hash_ok c" and "aead_ok c" and "on_wire c k f buf" and "version f = VERSION_V3" and "length (payload f) < 65536"
    and "map_of sel (v3_selector_prefix c (key_id f)) = Some (key_id f, k)" and "v3_selector_prefix c (key_id f) \<noteq> be_bytes 4 MAGIC"
  shows "decode_server_frame c buf sel = Inr (f, k)" and "decode_client_frame c buf (key_id f) k = Inr f"
proof -
  obtain nonce suffix where w: "length nonce = V3_NONCE" "length suffix = V3_SELECTOR_PREFIX" "encode_wire c f k nonce suffix = Inr buf"
    using assms(3) by (auto simp: on_wire_def)
  from wire_accepted [OF assms(1,2,4,5) w(1,2) assms(6,7)] w(3)
  show "decode_server_frame c buf sel = Inr (f, k)" and "decode_client_frame c buf (key_id f) k = Inr f" by simp_all
qed

lemma burst_decoded:
  assumes "sends_as e kid ses" and "rs_supports rs (parity_level e)" and "rs_shape rs" and "\<forall>pl \<in> set pls. length pl \<le> 65535"
    and "encode_run rs e pls = (e', Inr fs)" and "length fs \<le> MAX_GROUPS" and "awaits d ses fs"
    and "survives fs (map snd xs)" and "\<forall>(now, f) \<in> set xs. timely t0 now"
  shows "\<exists>d' outs. decoder_run rs d xs = (d', map Inr outs) \<and> mset (concat outs) = mset pls"
proof (rule fec_delivers [OF _ _ assms(2-6)])
  show "distinct (map snd xs)" "snd ` set xs \<subseteq> set fs"
    "\<forall>f \<in> set fs. unat (data f) \<le> length (filter (\<lambda>h. group h = group f) (map snd xs))"
    using assms(8) by (simp_all add: survives_def)
  show "\<forall>(now, f) \<in> set xs. \<forall>k. t0 \<le> now k \<and> now k < t0 + GROUP_TTL" using assms(9) by (simp add: timely_def)
qed (use assms(1,7) in \<open>simp_all add: sends_as_def awaits_def\<close>)

section \<open>The client's half\<close>

fun client_frames :: "client_action list \<Rightarrow> frame list" where
  "client_frames [] = []"
| "client_frames (ToServer f # acts) = f # client_frames acts"
| "client_frames (ToApp g p # acts) = client_frames acts"

lemma client_frames_append [simp]: "client_frames (xs @ ys) = client_frames xs @ client_frames ys"
  by (induction xs rule: client_frames.induct) simp_all

lemma client_frames_ToServer [simp]: "client_frames (map ToServer fs) = fs"
  by (induction fs) simp_all

text \<open>A burst of application datagrams followed by a tick of the flush timer sends the frames of the encoder.\<close>

lemma client_burst:
  assumes "encode_run rs (c_encoder cl) pls = (e', Inr fs)"
  shows "\<exists>cl' acts. client_loop c rs cl (map (\<lambda>pl. Local pl app) pls @ [ClientFlush]) = (cl', Inr acts) \<and> client_frames acts = fs"
  using assms
proof (induction pls arbitrary: cl fs)
  case Nil
  then show ?case by (auto simp: client_flush_def)
next
  case (Cons pl pls)
  obtain e1 fs1 where e1: "encode_datagram rs (c_encoder cl) pl = (e1, Inr fs1)"
    using Cons.prems by (auto split: prod.splits sum.splits)
  obtain fs2 where e2: "encode_run rs e1 pls = (e', Inr fs2)" "fs = fs1 @ fs2"
    using Cons.prems e1 by (auto split: prod.splits sum.splits)
  let ?cl = "cl\<lparr>c_app_peer := Some app, c_encoder := e1\<rparr>"
  obtain cl' acts where "client_loop c rs ?cl (map (\<lambda>pl. Local pl app) pls @ [ClientFlush]) = (cl', Inr acts)" "client_frames acts = fs2"
    using Cons.IH [of ?cl fs2] e2(1) by auto
  then show ?case using e1 e2(2) by (simp add: client_local_def)
qed

lemma burst_sequences:
  assumes "encoder_inv (c_encoder cl)" and "rs_supports rs (parity_level (c_encoder cl))" and "\<forall>pl \<in> set pls. length pl \<le> 65535"
    and "client_loop c rs cl (map (\<lambda>pl. Local pl app) pls @ [ClientFlush]) = (cl', Inr acts)"
    and "length (client_frames acts) \<le> MAX_GROUPS" and "en_sequence (c_encoder cl) = 2"
  shows "\<forall>f \<in> set (client_frames acts). sequence f \<notin> {0, 1}"
proof -
  obtain e' fs where run: "encode_run rs (c_encoder cl) pls = (e', Inr fs)" and
    em: "emits rs ((c_encoder cl)\<lparr>en_packet := en_packet (c_encoder cl) + of_nat (length pls)\<rparr>)
      (burst_fragments (en_packet (c_encoder cl)) pls) fs e'"
    using encode_run_emits [OF assms(1-3)] by blast
  have fs: "client_frames acts = fs" using client_burst [OF run, of c app] assms(4) by auto
  have "sequence (fs ! i) \<notin> {0, 1}" if "i < length fs" for i
  proof -
    have "sequence (fs ! i) = 2 + of_nat i" using em that assms(6) by (simp add: emits_def)
    then have "sequence (fs ! i) = of_nat (2 + i)" by simp
    then have "unat (sequence (fs ! i)) = (2 + i) mod 2 ^ 64" by (simp only: unat_of_nat) simp
    then have "unat (sequence (fs ! i)) = 2 + i" using that assms(5) fs by (simp add: MAX_GROUPS_def)
    then show ?thesis by auto
  qed
  then show ?thesis by (metis fs in_set_conv_nth)
qed

section \<open>The server's half\<close>

text \<open>A session at work: filed in the table, with the frames \<open>q\<close> in its queue, heard of since \<open>t1\<close>.\<close>

definition serving :: "server_state \<Rightarrow> u64 \<Rightarrow> u64 \<Rightarrow> bytes \<Rightarrow> frame list \<Rightarrow> decoder \<Rightarrow> instant \<Rightarrow> bool" where
  "serving srv kid ses k q d t1 \<longleftrightarrow> (\<exists>e. map_of (srv_sessions srv) (kid, ses) = Some e \<and> map fst (s_queue e) = q \<and> \<not> s_finished e \<and>
     s_key e = k \<and> w_session (s_worker e) = ses \<and> w_version (s_worker e) = VERSION_V3 \<and> w_key_id (s_worker e) = kid \<and>
     w_decoder (s_worker e) = d \<and> t1 \<le> s_last_seen e)"

text \<open>What may happen around a burst, in any order and number: packets that carry its frames; packets that do not authenticate, and
  packets of other devices; clean-ups before the session is idle for too long; turns of other sessions; and of the
  session itself turns that take a packet, answer the upstream or flush.\<close>

definition benign ::
  "crypto \<Rightarrow> (bytes \<times> (u64 \<times> bytes)) list \<Rightarrow> nat \<Rightarrow> u64 \<Rightarrow> u64 \<Rightarrow> bytes \<Rightarrow> frame list \<Rightarrow> instant \<Rightarrow> instant \<Rightarrow> server_event \<Rightarrow> bool" where
  "benign c sel idle kid ses k fs t0 t1 ev = (case ev of
     ServerRecv now buf peer \<Rightarrow> t1 \<le> now 1 \<and>
       ((\<exists>f \<in> set fs. on_wire c k f buf) \<or>
        (case decode_server_frame c buf sel of Inl _ \<Rightarrow> True | Inr (f, _) \<Rightarrow> key_id f \<noteq> kid))
   | Cleanup now \<Rightarrow> now < t1 + idle
   | SessionTurn sk sev \<Rightarrow> sk \<noteq> (kid, ses) \<or> (case sev of
       SessionPacket now \<Rightarrow> timely t0 now | SessionUpstream _ now \<Rightarrow> t1 \<le> now | SessionFlush \<Rightarrow> True | _ \<Rightarrow> False))"

text \<open>The frames the task of a session takes from its queue during a run, with the clocks of its turns; a full queue drops.\<close>

fun processed :: "crypto \<Rightarrow> (bytes \<times> (u64 \<times> bytes)) list \<Rightarrow> u64 \<times> u64 \<Rightarrow> frame list \<Rightarrow> server_event list \<Rightarrow> ((nat \<Rightarrow> instant) \<times> frame) list" where
  "processed c sel sk q [] = []"
| "processed c sel sk q (ServerRecv now buf peer # evs) =
     (case decode_server_frame c buf sel of
        Inl _ \<Rightarrow> processed c sel sk q evs
      | Inr (f, _) \<Rightarrow> processed c sel sk (if (key_id f, session f) = sk \<and> length q < SESSION_QUEUE then q @ [f] else q) evs)"
| "processed c sel sk q (SessionTurn sk' (SessionPacket now) # evs) =
     (if sk' = sk \<and> q \<noteq> [] then (now, hd q) # processed c sel sk (tl q) evs else processed c sel sk q evs)"
| "processed c sel sk q (ev # evs) = processed c sel sk q evs"

text \<open>What a session sends to its upstream during a run.\<close>

definition upstream_sent :: "(bytes \<times> action) list \<Rightarrow> bytes list" where
  "upstream_sent out = List.map_filter (\<lambda>(_, a). case a of ToUpstream g \<Rightarrow> Some g | ToPeer f p \<Rightarrow> None) out"

fun turn_of :: "u64 \<times> u64 \<Rightarrow> server_event \<Rightarrow> bool" where
  "turn_of sk (SessionTurn sk' ev) = (sk' = sk)"
| "turn_of sk ev = False"

fun session_upstream :: "crypto \<Rightarrow> rs_code \<Rightarrow> u64 \<times> u64 \<Rightarrow> server_state \<Rightarrow> server_event list \<Rightarrow> bytes list" where
  "session_upstream c rs sk srv [] = []"
| "session_upstream c rs sk srv (ev # evs) =
     (case server_step c rs srv ev of
        (srv1, out) \<Rightarrow> (if turn_of sk ev then upstream_sent out else []) @ session_upstream c rs sk srv1 evs)"

lemma upstream_sent_simps [simp]:
  "upstream_sent (map (Pair k \<circ> ToUpstream) gs) = gs" "upstream_sent (map (Pair k \<circ> (\<lambda>f. ToPeer f peer)) fs) = []" "upstream_sent [] = []"
  by (induction gs) (auto simp: upstream_sent_def map_filter_def filter_empty_conv)

lemma serving_update:
  "serving (srv\<lparr>srv_sessions := AList.update sk e' (srv_sessions srv)\<rparr>) kid ses k q d t1 \<longleftrightarrow>
     (if sk = (kid, ses) then map fst (s_queue e') = q \<and> \<not> s_finished e' \<and> s_key e' = k \<and> w_session (s_worker e') = ses \<and>
        w_version (s_worker e') = VERSION_V3 \<and> w_key_id (s_worker e') = kid \<and> w_decoder (s_worker e') = d \<and> t1 \<le> s_last_seen e'
      else serving srv kid ses k q d t1)"
  by (auto simp: serving_def update_conv')

text \<open>A frame of the session enters its queue; every other packet passes it by.\<close>

lemma serving_packet:
  assumes srv: "serving srv kid ses k q d t1" and dec: "decode_server_frame c buf (srv_selectors srv) = Inr (f, k')"
    and f: "key_id f = kid" "session f = ses" and "t1 \<le> now 1"
  shows "serving (server_recv c now srv buf peer) kid ses k (if length q < SESSION_QUEUE then q @ [f] else q) d t1"
proof -
  obtain e where e: "map_of (srv_sessions srv) (kid, ses) = Some e" "map fst (s_queue e) = q" "\<not> s_finished e" "s_key e = k"
    "w_session (s_worker e) = ses" "w_version (s_worker e) = VERSION_V3" "w_key_id (s_worker e) = kid" "w_decoder (s_worker e) = d"
    using srv by (auto simp: serving_def)
  have "open_session srv (now 0) f k' = (srv_sessions srv, True)" using e(1) f by (simp add: open_session_def Let_def)
  then have "server_recv c now srv buf peer =
      srv\<lparr>srv_sessions := AList.update (kid, ses) (try_send (e\<lparr>s_last_seen := now 1\<rparr>) (f, peer)) (srv_sessions srv)\<rparr>"
    using dec e(1) f by (simp add: server_recv_def)
  moreover have "length (s_queue e) = length q" using e(2) by auto
  ultimately show ?thesis using e assms(5) by (auto simp: serving_update try_send_def)
qed

lemma serving_other_packet:
  assumes "serving srv kid ses k q d t1" and "case decode_server_frame c buf (srv_selectors srv) of Inl _ \<Rightarrow> True | Inr (f, _) \<Rightarrow> key_id f \<noteq> kid"
  shows "serving (server_recv c now srv buf peer) kid ses k q d t1"
proof (cases "decode_server_frame c buf (srv_selectors srv)")
  case (Inl e)
  then show ?thesis using assms(1) by (simp add: server_recv_def)
next
  case (Inr r)
  obtain f k' where r: "r = (f, k')" by fastforce
  then have "kid \<noteq> key_id f" using assms(2) Inr by auto
  from server_recv_other [OF Inr [unfolded r] this] assms(1) show ?thesis by (simp add: serving_def)
qed

lemma serving_cleanup:
  assumes "server_ok c rs srv" and "serving srv kid ses k q d t1" and "now < t1 + srv_idle srv" and "0 < srv_idle srv"
  shows "serving (server_cleanup now srv) kid ses k q d t1"
proof -
  obtain e where e: "map_of (srv_sessions srv) (kid, ses) = Some e" "\<not> s_finished e" "t1 \<le> s_last_seen e"
    using assms(2) by (auto simp: serving_def)
  then have "\<not> (s_finished e \<or> now - s_last_seen e \<ge> srv_idle srv)" using assms(3,4) by auto
  then have "map_of (srv_sessions (server_cleanup now srv)) (kid, ses) = map_of (srv_sessions srv) (kid, ses)"
    using server_cleanup_exact [OF assms(1), of now "(kid, ses)"] e(1) by simp
  then show ?thesis using assms(2) by (simp add: serving_def)
qed

text \<open>A turn of the session itself.\<close>

lemma serving_turn:
  assumes srv: "serving srv kid ses k q d t1" and "rs_shape rs"
    and "case sev of SessionPacket now \<Rightarrow> True | SessionUpstream _ now \<Rightarrow> t1 \<le> now | SessionFlush \<Rightarrow> True | _ \<Rightarrow> False"
    and q: "\<forall>f \<in> set q. version f = VERSION_V3 \<and> key_id f = kid \<and> session f = ses \<and> kind f \<noteq> KIND_REPORT"
    and d: "case sev of SessionPacket now \<Rightarrow> q = [] \<and> d' = d \<and> gs = [] \<or> q \<noteq> [] \<and> decoder_frame rs now d (hd q) = (d', Inr gs) | _ \<Rightarrow> d' = d \<and> gs = []"
  shows "\<exists>srv' out. server_step c rs srv (SessionTurn (kid, ses) sev) = (srv', out) \<and> upstream_sent out = gs \<and>
     serving srv' kid ses k (case sev of SessionPacket _ \<Rightarrow> tl q | _ \<Rightarrow> q) d' t1"
proof -
  obtain e where e: "map_of (srv_sessions srv) (kid, ses) = Some e" "map fst (s_queue e) = q" "\<not> s_finished e" "s_key e = k"
    "w_session (s_worker e) = ses" "w_version (s_worker e) = VERSION_V3" "w_key_id (s_worker e) = kid" "w_decoder (s_worker e) = d"
    "t1 \<le> s_last_seen e"
    using srv by (auto simp: serving_def)
  show ?thesis
  proof (cases sev)
    case (SessionPacket now)
    show ?thesis
    proof (cases "s_queue e")
      case Nil
      then show ?thesis using e d SessionPacket by (auto simp: serving_update)
    next
      case (Cons x xs)
      obtain f peer where x: "x = (f, peer)" by fastforce
      have f: "hd q = f" "f \<in> set q" using e(2) Cons x by auto
      have "decoder_frame rs now d f = (d', Inr gs)" using d SessionPacket f e(2) Cons by auto
      then have "worker_packet rs now (s_worker e) f peer = ((s_worker e)\<lparr>w_peer := Some peer, w_decoder := d'\<rparr>, map ToUpstream gs)"
        using e q f(2) by (simp add: worker_packet_def Let_def)
      then show ?thesis using e Cons x SessionPacket by (auto simp: session_run_def serving_update)
    qed
  next
    case (SessionUpstream datagram now)
    then show ?thesis
      using e d assms(3) by (auto simp: session_run_def worker_upstream_def serving_update split: option.split prod.split sum.split)
  next
    case SessionFlush
    then show ?thesis
      using e d by (auto simp: session_run_def worker_flush_def serving_update split: option.split prod.split sum.split)
  qed (use assms(3) in simp_all)
qed

section \<open>Runs\<close>

lemma server_step_idle: "srv_idle (fst (server_step c rs srv ev)) = srv_idle srv"
  by (cases ev) (auto simp: server_recv_def server_cleanup_def Let_def split: sum.split option.split prod.split bool.split)

lemma passing_event:
  assumes "hash_ok c" and "aead_ok c" and "server_ok c rs srv" and "0 < srv_idle srv" and "serving srv kid ses k q d t1" and "set q \<subseteq> set fs"
    and fs: "\<forall>f \<in> set fs. version f = VERSION_V3 \<and> key_id f = kid \<and> session f = ses \<and> kind f \<noteq> KIND_REPORT \<and> length (payload f) < 65536"
    and sel: "map_of (srv_selectors srv) (v3_selector_prefix c kid) = Some (kid, k)" "v3_selector_prefix c kid \<noteq> be_bytes 4 MAGIC"
    and ben: "benign c (srv_selectors srv) (srv_idle srv) kid ses k fs t0 t1 ev" and "\<not> turn_of (kid, ses) ev"
  shows "\<exists>q'. serving (fst (server_step c rs srv ev)) kid ses k q' d t1 \<and> set q' \<subseteq> set fs \<and>
     processed c (srv_selectors srv) (kid, ses) q (ev # evs) = processed c (srv_selectors srv) (kid, ses) q' evs"
proof (cases ev)
  case (ServerRecv now buf peer)
  show ?thesis
  proof (cases "\<exists>f \<in> set fs. on_wire c k f buf")
    case True
    then obtain f where f: "f \<in> set fs" "on_wire c k f buf" by blast
    have dec: "decode_server_frame c buf (srv_selectors srv) = Inr (f, k)"
      using wire_decodes(1) [OF assms(1,2) f(2)] fs f(1) sel by simp
    have "t1 \<le> now 1" using ben ServerRecv by (simp add: benign_def)
    from serving_packet [OF assms(5) dec, of now] this show ?thesis
      using ServerRecv dec fs f(1) assms(6) by (intro exI [of _ "if length q < SESSION_QUEUE then q @ [f] else q"]) auto
  next
    case False
    then have other: "case decode_server_frame c buf (srv_selectors srv) of Inl _ \<Rightarrow> True | Inr (f, _) \<Rightarrow> key_id f \<noteq> kid"
      using ben ServerRecv by (simp add: benign_def)
    then show ?thesis
      using serving_other_packet [OF assms(5) other] ServerRecv assms(6) by (auto split: sum.splits)
  qed
next
  case (Cleanup now)
  then show ?thesis
    using serving_cleanup [OF assms(3,5) _ assms(4)] ben assms(6) by (auto simp: benign_def)
next
  case (SessionTurn sk sev)
  then have "sk \<noteq> (kid, ses)" using assms(11) by simp
  then have "processed c (srv_selectors srv) (kid, ses) q (ev # evs) = processed c (srv_selectors srv) (kid, ses) q evs"
    using SessionTurn by (cases sev) simp_all
  moreover have "serving (fst (server_step c rs srv ev)) kid ses k q d t1"
    using SessionTurn \<open>sk \<noteq> (kid, ses)\<close> assms(5) by (auto simp: serving_update split: option.split prod.split)
  ultimately show ?thesis using assms(6) by blast
qed

lemma decoder_turn:
  assumes "decoder_run rs d (processed c sel sk q (SessionTurn sk sev # evs)) = (d', map Inr outs)"
  obtains d1 gs outs' where "case sev of SessionPacket now \<Rightarrow> q = [] \<and> d1 = d \<and> gs = [] \<or> q \<noteq> [] \<and> decoder_frame rs now d (hd q) = (d1, Inr gs)
        | _ \<Rightarrow> d1 = d \<and> gs = []"
    and "decoder_run rs d1 (processed c sel sk (case sev of SessionPacket _ \<Rightarrow> tl q | _ \<Rightarrow> q) evs) = (d', map Inr outs')"
    and "concat outs = gs @ concat outs'"
proof (cases "\<exists>now. sev = SessionPacket now \<and> q \<noteq> []")
  case True
  then obtain now where sev: "sev = SessionPacket now" "q \<noteq> []" by blast
  then obtain d1 gs outs' where "decoder_frame rs now d (hd q) = (d1, Inr gs)" "outs = gs # outs'"
    "decoder_run rs d1 (processed c sel sk (tl q) evs) = (d', map Inr outs')"
    using assms by (cases outs) (auto split: prod.splits)
  then show thesis using sev by (intro that [of d1 gs outs']) simp_all
next
  case False
  then show thesis using assms by (intro that [of d "[]" outs]) (auto split: session_event.splits)
qed

lemma server_loop_idle: "srv_idle (fst (server_loop c rs srv evs)) = srv_idle srv"
  by (induction evs arbitrary: srv) (simp_all add: case_prod_beta Let_def server_step_idle)

text \<open>Whatever else happens, a session hands the frames it processes to its decoder and the decoder's output to the upstream.\<close>

lemma session_upstream_run:
  assumes "hash_ok c" and "aead_ok c" and "rs_shape rs" and "server_ok c rs srv" and "0 < srv_idle srv"
    and "serving srv kid ses k q d t1" and "set q \<subseteq> set fs" and "\<forall>ev \<in> set evs. benign c (srv_selectors srv) (srv_idle srv) kid ses k fs t0 t1 ev"
    and fs: "\<forall>f \<in> set fs. version f = VERSION_V3 \<and> key_id f = kid \<and> session f = ses \<and> kind f \<noteq> KIND_REPORT \<and> length (payload f) < 65536"
    and sel: "map_of (srv_selectors srv) (v3_selector_prefix c kid) = Some (kid, k)" "v3_selector_prefix c kid \<noteq> be_bytes 4 MAGIC"
    and "decoder_run rs d (processed c (srv_selectors srv) (kid, ses) q evs) = (d', map Inr outs)"
  shows "session_upstream c rs (kid, ses) srv evs = concat outs"
  using assms(4-8,12) sel
proof (induction evs arbitrary: srv q d outs)
  case Nil
  then show ?case by simp
next
  case (Cons ev evs)
  let ?srv = "fst (server_step c rs srv ev)"
  have keep: "server_ok c rs ?srv" "srv_idle ?srv = srv_idle srv" "srv_selectors ?srv = srv_selectors srv"
    using server_step_ok [OF Cons.prems(1), of ev] server_step_idle server_step_config by simp_all
  have rest: "\<forall>ev \<in> set evs. benign c (srv_selectors ?srv) (srv_idle ?srv) kid ses k fs t0 t1 ev"
    using Cons.prems(5) unfolding keep(2,3) by simp
  have IH: "session_upstream c rs (kid, ses) ?srv evs = concat outs'"
    if "serving ?srv kid ses k q' d1 t1" "set q' \<subseteq> set fs" "decoder_run rs d1 (processed c (srv_selectors srv) (kid, ses) q' evs) = (d', map Inr outs')"
    for q' d1 outs'
    using Cons.IH [OF keep(1) _ that(1,2) rest] that(3) Cons.prems(2,7,8) keep(2,3) by simp
  have ben: "benign c (srv_selectors srv) (srv_idle srv) kid ses k fs t0 t1 ev" using Cons.prems(5) by simp
  show ?case
  proof (cases "turn_of (kid, ses) ev")
    case False
    have "\<exists>q'. serving ?srv kid ses k q' d t1 \<and> set q' \<subseteq> set fs \<and>
        processed c (srv_selectors srv) (kid, ses) q (ev # evs) = processed c (srv_selectors srv) (kid, ses) q' evs"
      by (rule passing_event [OF assms(1,2) Cons.prems(1-4) fs Cons.prems(7,8) ben False])
    then show ?thesis using IH Cons.prems(6) False by (auto simp: case_prod_beta)
  next
    case True
    then obtain sev where ev: "ev = SessionTurn (kid, ses) sev" by (cases ev) auto
    obtain d1 gs outs' where st: "case sev of SessionPacket now \<Rightarrow> q = [] \<and> d1 = d \<and> gs = [] \<or> q \<noteq> [] \<and> decoder_frame rs now d (hd q) = (d1, Inr gs)
        | _ \<Rightarrow> d1 = d \<and> gs = []"
      and run: "decoder_run rs d1 (processed c (srv_selectors srv) (kid, ses) (case sev of SessionPacket _ \<Rightarrow> tl q | _ \<Rightarrow> q) evs) = (d', map Inr outs')"
      and outs: "concat outs = gs @ concat outs'"
      by (rule decoder_turn [OF Cons.prems(6) [unfolded ev]])
    have "case sev of SessionPacket now \<Rightarrow> True | SessionUpstream _ now \<Rightarrow> t1 \<le> now | SessionFlush \<Rightarrow> True | _ \<Rightarrow> False"
      using ben ev by (auto simp: benign_def split: session_event.splits)
    from serving_turn [OF Cons.prems(3) assms(3) this _ st, of c] Cons.prems(4) fs obtain srv' out where
      "server_step c rs srv ev = (srv', out)" "upstream_sent out = gs" "serving srv' kid ses k (case sev of SessionPacket _ \<Rightarrow> tl q | _ \<Rightarrow> q) d1 t1"
      using ev by blast
    moreover have "set (case sev of SessionPacket _ \<Rightarrow> tl q | _ \<Rightarrow> q) \<subseteq> set fs"
      using Cons.prems(4) by (cases q) (auto split: session_event.split)
    ultimately show ?thesis using IH [OF _ _ run] True outs by simp
  qed
qed

lemma processed_clock: "(now, f) \<in> set (processed c sel sk q evs) \<Longrightarrow> SessionTurn sk (SessionPacket now) \<in> set evs"
proof (induction c sel sk q evs rule: processed.induct)
  case (2 c sel sk q now' buf peer evs)
  then show ?case by (auto split: sum.splits)
next
  case (3 c sel sk q sk' now' evs)
  then show ?case by (auto split: if_splits)
qed auto

lemma session_upstream_append:
  "session_upstream c rs sk srv (xs @ ys) = session_upstream c rs sk srv xs @ session_upstream c rs sk (fst (server_loop c rs srv xs)) ys"
  by (induction xs arbitrary: srv) (simp_all add: case_prod_beta Let_def)

text \<open>A burst into an established session.  The frames the client sends are encrypted and cross the network, which may lose,
  reorder, duplicate and delay them; of every group the session processes at least as many as it has data shards.\<close>

lemma uplink_delivers:
  assumes "hash_ok c" and "aead_ok c" and "rs_supports rs (parity_level (c_encoder cl))" and "rs_shape rs"
    and cl: "sends_as (c_encoder cl) kid ses" and pls: "\<forall>pl \<in> set pls. length pl \<le> 65535"
    and sent: "client_loop c rs cl (map (\<lambda>pl. Local pl app) pls @ [ClientFlush]) = (cl', Inr acts)" "length (client_frames acts) \<le> MAX_GROUPS"
    and srv: "server_ok c rs srv" "0 < srv_idle srv" "serving srv kid ses (c_key cl) [] d t1"
      "map_of (srv_selectors srv) (v3_selector_prefix c kid) = Some (kid, c_key cl)" "v3_selector_prefix c kid \<noteq> be_bytes 4 MAGIC"
      "awaits d ses (client_frames acts)"
    and net: "\<forall>ev \<in> set evs. benign c (srv_selectors srv) (srv_idle srv) kid ses (c_key cl) (client_frames acts) t0 t1 ev"
      "survives (client_frames acts) (map snd (processed c (srv_selectors srv) (kid, ses) [] evs))"
  shows "mset (session_upstream c rs (kid, ses) srv evs) = mset pls"
proof -
  let ?xs = "processed c (srv_selectors srv) (kid, ses) [] evs"
  obtain e' fs where run: "encode_run rs (c_encoder cl) pls = (e', Inr fs)"
    using encode_run_emits [OF _ assms(3) pls] cl by (auto simp: sends_as_def)
  have fs: "client_frames acts = fs" using client_burst [OF run, of c app] sent(1) by auto
  note bf = burst_frame_fields [OF cl assms(3) pls run]
  have "timely t0 now" if "(now, f) \<in> set ?xs" for now f
    using bspec [OF net(1) processed_clock [OF that]] by (simp add: benign_def)
  then have "\<forall>(now, f) \<in> set ?xs. timely t0 now" by blast
  then obtain d' outs where "decoder_run rs d ?xs = (d', map Inr outs)" "mset (concat outs) = mset pls"
    using burst_decoded [OF cl assms(3,4) pls run sent(2) [unfolded fs] srv(6) [unfolded fs] net(2) [unfolded fs]] by blast
  moreover have "session_upstream c rs (kid, ses) srv evs = concat outs"
    by (rule session_upstream_run [OF assms(1,2,4) srv(1-3) _ net(1) _ srv(4,5) calculation(1)]) (use bf fs in auto)
  ultimately show ?thesis by simp
qed

section \<open>From the start\<close>

text \<open>The first frame a client sends is a report: the report timer fires at once.\<close>

definition start_frame :: "u64 \<Rightarrow> u64 \<Rightarrow> frame" where
  "start_frame kid ses = snd (report_frame (with_identity ses VERSION_V3 kid None) LOSS_SAMPLE_UNAVAILABLE)"

lemma start_frame_fields [simp]:
  "version (start_frame kid ses) = VERSION_V3" "key_id (start_frame kid ses) = kid" "session (start_frame kid ses) = ses"
  "kind (start_frame kid ses) = KIND_REPORT" "sequence (start_frame kid ses) = 1" "length (payload (start_frame kid ses)) = 4"
  by (simp_all add: start_frame_def report_frame_def with_identity_def)

lemma client_starts:
  assumes "client_new k (Some kid) ses forced = Inr cl"
  shows "\<exists>cl1. client_step c rs cl ClientReport = (cl1, Inr [ToServer (start_frame kid ses)]) \<and> c_key cl1 = k \<and>
     sends_as (c_encoder cl1) kid ses \<and> en_sequence (c_encoder cl1) = 2 \<and>
     parity_level (c_encoder cl1) = parity_level (c_encoder cl)"
proof -
  let ?e = "with_identity ses VERSION_V3 kid forced"
  have cl: "cl = \<lparr>c_key_id = kid, c_key = k, c_session = ses, c_decoder = decoder_new ses, c_encoder = ?e, c_app_peer = None\<rparr>"
    using assms by (simp add: client_new_def split: if_splits)
  have "sequence_report (decoder_new ses) = (decoder_new ses, None)"
    by (simp add: sequence_report_def decoder_new_def sat_sub_def REORDER_WINDOW_def Let_def)
  then have "client_step c rs cl ClientReport =
      (cl\<lparr>c_decoder := decoder_new ses, c_encoder := fst (report_frame ?e LOSS_SAMPLE_UNAVAILABLE)\<rparr>,
       Inr [ToServer (start_frame kid ses)])"
    by (simp add: client_report_def cl loss_sample_def start_frame_def report_frame_def with_identity_def)
  moreover have "encoder_inv (fst (report_frame ?e LOSS_SAMPLE_UNAVAILABLE))"
    by (intro encoder_inv_report_frame encoder_inv_with_identity)
  ultimately show ?thesis
    by (simp add: cl report_frame_def sends_as_def) (simp add: with_identity_def)
qed

text \<open>The decoder of a session that has seen the first report and nothing else.\<close>

definition started_decoder :: "u64 \<Rightarrow> decoder" where
  "started_decoder ses = (decoder_new ses)\<lparr>highest_sequence := 1, seen_sequences := {1}\<rparr>"

lemma started_decoder_fields [simp]:
  "d_session (started_decoder ses) = ses" "groups (started_decoder ses) = []" "packets (started_decoder ses) = []"
  "\<not> fresh_window (started_decoder ses)" "spent_sequences (started_decoder ses) = {0, 1}"
  by (auto simp: started_decoder_def decoder_new_def fresh_window_def spent_sequences_def)

definition first_contact :: "u64 \<times> u64 \<Rightarrow> (nat \<Rightarrow> instant) \<Rightarrow> (nat \<Rightarrow> instant) \<Rightarrow> bytes \<Rightarrow> addr \<Rightarrow> server_event list" where
  "first_contact sk now recv buf peer = [ServerRecv recv buf peer, SessionTurn sk (SessionPacket now)]"

lemma server_starts:
  assumes dec: "decode_server_frame c buf (srv_selectors srv) = Inr (start_frame kid ses, k)"
    and "map_of (srv_sessions srv) (kid, ses) = None"
    and "length (filter (\<lambda>x. fst (fst x) \<noteq> kid) (srv_sessions srv)) < srv_max srv" and "t1 \<le> recv 1"
  shows "serving (fst (server_loop c rs srv (first_contact (kid, ses) now recv buf peer))) kid ses k [] (started_decoder ses) t1 \<and>
     session_upstream c rs (kid, ses) srv (first_contact (kid, ses) now recv buf peer) = []"
proof -
  let ?f = "start_frame kid ses"
  define rest where "rest = filter (\<lambda>x. fst (fst x) \<noteq> kid) (srv_sessions srv)"
  define e where "e = session_start srv (recv 0) ?f k"
  have os: "open_session srv (recv 0) ?f k = (rest @ [((kid, ses), e)], True)"
    using open_session_cases [of ?f srv "recv 0" k] assms(2,3)
    by (simp add: SESSION_TAKEOVER_MAX_SEQUENCE_def rest_def e_def)
  have "map_of rest (kid, ses) = None" by (auto simp: rest_def map_of_eq_None_iff)
  then have m: "map_of (rest @ [((kid, ses), e)]) (kid, ses) = Some e" by (simp add: map_add_def)
  have w: "s_worker e = worker_new ses VERSION_V3 kid (srv_forced srv)" "s_key e = k" "\<not> s_finished e" "s_queue e = []"
    by (simp_all add: e_def session_start_def)
  have r: "server_recv c recv srv buf peer = srv\<lparr>srv_sessions :=
      AList.update (kid, ses) (e\<lparr>s_last_seen := recv 1, s_queue := [(?f, peer)]\<rparr>) (rest @ [((kid, ses), e)])\<rparr>"
    using dec os m w(3,4) by (simp add: server_recv_def try_send_def SESSION_QUEUE_def)
  have "observe_seq (decoder_new ses) 1 = (started_decoder ses, True)"
    by (simp add: observe_fresh fresh_window_def decoder_new_def started_decoder_def sat_sub_def)
  then obtain w1 where "worker_packet rs now (s_worker e) ?f peer = (w1, [])" "w_session w1 = ses" "w_version w1 = VERSION_V3"
    "w_key_id w1 = kid" "w_decoder w1 = started_decoder ses"
    using w(1) by (simp add: worker_packet_def worker_new_def Let_def)
  then show ?thesis
    using r w(2,3) assms(4) by (auto simp: first_contact_def session_run_def serving_def update_conv')
qed

section \<open>The way back\<close>

text \<open>The frames a list of server outputs puts on the wire.\<close>

fun peer_output :: "(bytes \<times> action) list \<Rightarrow> frame list" where
  "peer_output [] = []"
| "peer_output ((k, ToPeer f peer) # out) = f # peer_output out"
| "peer_output ((k, ToUpstream g) # out) = peer_output out"

lemma peer_output_append [simp]: "peer_output (xs @ ys) = peer_output xs @ peer_output ys"
  by (induction xs rule: peer_output.induct) simp_all

lemma peer_output_ToPeer [simp]: "peer_output (map (\<lambda>f. (k, ToPeer f peer)) fs) = fs"
  by (induction fs) simp_all

text \<open>Datagrams of the upstream and a tick of the flush timer, as turns of a session.\<close>

definition downlink :: "u64 \<times> u64 \<Rightarrow> (bytes \<times> instant) list \<Rightarrow> server_event list" where
  "downlink sk xs = map (\<lambda>(pl, now). SessionTurn sk (SessionUpstream pl now)) xs @ [SessionTurn sk SessionFlush]"

lemma server_burst:
  assumes "map_of (srv_sessions srv) sk = Some e" and "\<not> s_finished e" and "w_peer (s_worker e) = Some peer"
    and "encode_run rs (w_encoder (s_worker e)) (map fst xs) = (e', Inr fs)"
  shows "\<exists>srv'. server_loop c rs srv (downlink sk xs) = (srv', map (\<lambda>f. (s_key e, ToPeer f peer)) fs)"
  using assms
proof (induction xs arbitrary: srv e fs)
  case Nil
  then show ?case by (auto simp: downlink_def session_run_def worker_flush_def)
next
  case (Cons x xs)
  obtain pl now where x: "x = (pl, now)" by fastforce
  obtain e1 fs1 where e1: "encode_datagram rs (w_encoder (s_worker e)) pl = (e1, Inr fs1)"
    using Cons.prems(4) x by (auto split: prod.splits sum.splits)
  obtain fs2 where e2: "encode_run rs e1 (map fst xs) = (e', Inr fs2)" "fs = fs1 @ fs2"
    using Cons.prems(4) e1 x by (auto split: prod.splits sum.splits)
  let ?e = "e\<lparr>s_last_seen := now, s_worker := (s_worker e)\<lparr>w_encoder := e1\<rparr>\<rparr>"
  let ?srv = "srv\<lparr>srv_sessions := AList.update sk ?e (srv_sessions srv)\<rparr>"
  have st: "server_step c rs srv (SessionTurn sk (SessionUpstream pl now)) = (?srv, map (\<lambda>f. (s_key e, ToPeer f peer)) fs1)"
    using Cons.prems(1-3) e1 by (simp add: session_run_def worker_upstream_def comp_def)
  obtain srv' where "server_loop c rs ?srv (downlink sk xs) = (srv', map (\<lambda>f. (s_key ?e, ToPeer f peer)) fs2)"
    using Cons.IH [of ?srv ?e fs2] Cons.prems(2,3) e2(1) by (auto simp: update_conv')
  then show ?case using st x e2(2) by (simp add: downlink_def del: server_step.simps)
qed

text \<open>A client that is ready: its application has spoken, and its decoder is known.\<close>

definition client_ready :: "tunnel_client \<Rightarrow> u64 \<Rightarrow> u64 \<Rightarrow> bytes \<Rightarrow> addr \<Rightarrow> decoder \<Rightarrow> bool" where
  "client_ready cl kid ses k app d \<longleftrightarrow> c_key_id cl = kid \<and> c_session cl = ses \<and> c_key cl = k \<and> c_app_peer cl = Some app \<and> c_decoder cl = d"

lemma client_downlink_run:
  assumes "client_ready cl kid ses k app d"
    and "\<forall>((now, f), buf) \<in> set as. decode_client_frame c buf kid k = Inr f \<and>
       version f = VERSION_V3 \<and> key_id f = kid \<and> session f = ses \<and> kind f \<noteq> KIND_REPORT"
    and "decoder_run rs d (map fst as) = (d', map Inr outs)"
  shows "\<exists>cl'. client_loop c rs cl (map (\<lambda>((now, f), buf). Net now buf) as) = (cl', Inr (map (\<lambda>g. ToApp g app) (concat outs)))"
  using assms
proof (induction as arbitrary: cl d outs)
  case Nil
  then show ?case by simp
next
  case (Cons a as)
  obtain now f buf where a: "a = ((now, f), buf)" by (cases a) auto
  obtain d1 gs outs' where d1: "decoder_frame rs now d f = (d1, Inr gs)" "decoder_run rs d1 (map fst as) = (d', map Inr outs')" "outs = gs # outs'"
    using Cons.prems(3) a by (cases outs) (auto split: prod.splits)
  have f: "decode_client_frame c buf kid k = Inr f" "version f = VERSION_V3" "key_id f = kid" "session f = ses" "kind f \<noteq> KIND_REPORT"
    using Cons.prems(2) a by auto
  have st: "client_net c rs now cl buf = (cl\<lparr>c_decoder := d1\<rparr>, map (\<lambda>g. ToApp g app) gs)"
    using Cons.prems(1) f d1(1) by (simp add: client_net_def client_ready_def)
  have "client_ready (cl\<lparr>c_decoder := d1\<rparr>) kid ses k app d1" using Cons.prems(1) by (simp add: client_ready_def)
  from Cons.IH [OF this _ d1(2)] Cons.prems(2) obtain cl' where
    "client_loop c rs (cl\<lparr>c_decoder := d1\<rparr>) (map (\<lambda>((now, f), buf). Net now buf) as) = (cl', Inr (map (\<lambda>g. ToApp g app) (concat outs')))"
    by auto
  then show ?case using st a d1(3) by simp
qed

section \<open>Properties\<close>


text \<open>C3: the way back.  Datagrams of the upstream enter an established session and are flushed; the frames it sends to its
  peer cross the network, which may lose, reorder and delay them as above.  Then the client hands exactly these
  datagrams to its application, once each, and nothing else.\<close>

theorem tunnel_downlink_delivers:
  assumes "hash_ok c" and "aead_ok c" and "rs_supports rs (parity_level (w_encoder (s_worker e)))" and "rs_shape rs"
    and srv: "map_of (srv_sessions srv) (kid, ses) = Some e" "\<not> s_finished e" "s_key e = k" "w_peer (s_worker e) = Some peer"
      "sends_as (w_encoder (s_worker e)) kid ses"
    and xs: "\<forall>(pl, now) \<in> set xs. length pl \<le> 65535"
    and sent: "server_loop c rs srv (downlink (kid, ses) xs) = (srv', out)" "length (peer_output out) \<le> MAX_GROUPS"
    and cl: "client_ready cl kid ses k app d" "v3_selector_prefix c kid \<noteq> be_bytes 4 MAGIC" "awaits d ses (peer_output out)"
    and net: "survives (peer_output out) (map (snd \<circ> fst) as)" "\<forall>((now, f), buf) \<in> set as. timely t0 now \<and> on_wire c k f buf"
  shows "\<exists>cl' gs. client_loop c rs cl (map (\<lambda>((now, f), buf). Net now buf) as) = (cl', Inr (map (\<lambda>g. ToApp g app) gs)) \<and>
     mset gs = mset (map fst xs)"
proof -
  have pls: "\<forall>pl \<in> set (map fst xs). length pl \<le> 65535" using xs by auto
  obtain e' fs where run: "encode_run rs (w_encoder (s_worker e)) (map fst xs) = (e', Inr fs)"
    using encode_run_emits [OF _ assms(3) pls] srv(5) by (auto simp: sends_as_def)
  have fs: "peer_output out = fs" using server_burst [OF srv(1,2,4) run, of c] sent(1) by auto
  note bf = burst_frame_fields [OF srv(5) assms(3) pls run]
  have in_fs: "f \<in> set fs" if "((now, f), buf) \<in> set as" for now f buf
    using net(1) that fs by (force simp: survives_def)
  have "decode_client_frame c buf kid k = Inr f" if "((now, f), buf) \<in> set as" for now f buf
    using wire_decodes(2) [OF assms(1,2), of k f buf "[(v3_selector_prefix c kid, (kid, k))]"] net(2) bf [OF in_fs [OF that]] cl(2) that
    by auto
  then have "\<forall>((now, f), buf) \<in> set as. decode_client_frame c buf kid k = Inr f \<and>
       version f = VERSION_V3 \<and> key_id f = kid \<and> session f = ses \<and> kind f \<noteq> KIND_REPORT"
    using bf [OF in_fs] by auto
  moreover have "\<exists>d' outs. decoder_run rs d (map fst as) = (d', map Inr outs) \<and> mset (concat outs) = mset (map fst xs)"
    using net by (intro burst_decoded [OF srv(5) assms(3,4) pls run sent(2) [unfolded fs] cl(3) [unfolded fs], of _ t0]) (auto simp: fs)
  ultimately show ?thesis using client_downlink_run [OF cl(1)] by blast
qed

text \<open>The second data frame of a burst of two datagrams is lost, and the parity frame overtakes the first.\<close>

definition sample_client :: tunnel_client where
  "sample_client = \<lparr>c_key_id = 9, c_key = [9], c_session = 7, c_decoder = decoder_new 7,
     c_encoder = with_identity 7 VERSION_V3 9 (Some 1), c_app_peer = None\<rparr>"

definition idle_server :: server_state where
  "idle_server = \<lparr>srv_selectors = [(v3_selector_prefix sum_crypto 9, (9, [9]))], srv_max = 4, srv_idle = 60000000000,
     srv_forced = Some 1, srv_sessions = []\<rparr>"

definition sample_wire :: "frame \<Rightarrow> bytes" where
  "sample_wire f = (case encode_wire sum_crypto f [9] (replicate 24 5) (replicate 4 6) of Inr buf \<Rightarrow> buf | Inl _ \<Rightarrow> [])"

text \<open>The frames wait in the queue while garbage arrives and the clean-up runs.\<close>

definition sample_run :: "server_event list" where
  "sample_run = [ServerRecv (\<lambda>_. 5) (sample_wire (sample_frames ! 2)) 80, ServerRecv (\<lambda>_. 5) [1, 2, 3] 666,
     ServerRecv (\<lambda>_. 6) (sample_wire (sample_frames ! 0)) 80, Cleanup 7, SessionTurn (9, 7) (SessionPacket (\<lambda>_. 8)),
     SessionTurn (9, 7) SessionFlush, SessionTurn (9, 7) (SessionPacket (\<lambda>_. 8))]"

lemma sample_client_new: "client_new [9] (Some 9) 7 (Some 1) = Inr sample_client"
  by (simp add: client_new_def sample_client_def)

lemma idle_server_new: "server_new sum_crypto None (Some (Inr [(9, [9])])) 4 60 (Some 1) = Inr idle_server"
  by (simp add: server_new_def idle_server_def)

lemma sample_client_sends:
  "\<exists>cl' acts. client_loop sum_crypto xor_code sample_client (ClientReport # map (\<lambda>pl. Local pl 3) [[65], [66]] @ [ClientFlush]) =
     (cl', Inr acts) \<and> client_frames acts = start_frame 9 7 # sample_frames"
proof -
  let ?cl1 = "sample_client\<lparr>c_encoder := sample_encoder\<rparr>"
  have st: "client_step sum_crypto xor_code sample_client ClientReport = (?cl1, Inr [ToServer (start_frame 9 7)])"
    using client_starts [OF sample_client_new, of sum_crypto xor_code]
    by (auto simp: client_report_def sample_client_def sample_encoder_def report_frame_def case_prod_beta Let_def
        sequence_report_def decoder_new_def sat_sub_def REORDER_WINDOW_def)
  obtain e' where "encode_run xor_code (c_encoder ?cl1) [[65], [66]] = (e', Inr sample_frames)"
    using encode_sample by auto
  then obtain cl' acts where "client_loop sum_crypto xor_code ?cl1 (map (\<lambda>pl. Local pl 3) [[65], [66]] @ [ClientFlush]) = (cl', Inr acts)"
    "client_frames acts = sample_frames"
    using client_burst by blast
  then show ?thesis using st by (simp del: client_step.simps)
qed

lemma sample_wire_encodes:
  assumes "f = start_frame 9 7 \<or> f \<in> set sample_frames"
  shows "on_wire sum_crypto [9] f (sample_wire f)"
  unfolding on_wire_def
proof (intro exI conjI)
  have "version f = VERSION_V3" "length (payload f) < 65536"
    using assms by (auto simp: sample_frames_def shard_frame_def sample_encoder_eq shard_consts make_shard_def)
  then show "encode_wire sum_crypto f [9] (replicate 24 5) (replicate 4 6) = Inr (sample_wire f)"
    using wire_accepted [OF hash_ok_sum_crypto aead_ok_sum_crypto, of f "replicate 24 5" "replicate 4 6"
        "[(v3_selector_prefix sum_crypto (key_id f), (key_id f, [9]))]" "[9]"] sample_selector_not_magic
    by (auto simp: sample_wire_def V3_NONCE_def V3_SELECTOR_PREFIX_def)
qed (simp_all add: V3_NONCE_def V3_SELECTOR_PREFIX_def)

lemma sample_survives: "survives sample_frames [sample_frames ! 2, sample_frames ! 0]"
  using sample_frame_fields by (auto simp: survives_def)

lemma sample_decodes:
  assumes "f \<in> set sample_frames"
  shows "decode_server_frame sum_crypto (sample_wire f) (srv_selectors idle_server) = Inr (f, [9])" and "key_id f = 9" and "session f = 7"
proof -
  have f: "version f = VERSION_V3" "length (payload f) < 65536" "key_id f = 9"
    using assms by (auto simp: sample_frames_def shard_frame_def sample_encoder_eq shard_consts make_shard_def)
  show "decode_server_frame sum_crypto (sample_wire f) (srv_selectors idle_server) = Inr (f, [9])"
    using wire_decodes(1) [OF hash_ok_sum_crypto aead_ok_sum_crypto sample_wire_encodes f(1,2)] assms f(3) sample_selector_not_magic
    by (simp add: idle_server_def)
  show "key_id f = 9" "session f = 7"
    using assms by (auto simp: sample_frames_def shard_frame_def sample_encoder_eq)
qed

lemma sample_garbage: "\<exists>e. decode_server_frame sum_crypto [1, 2, 3] sel = Inl e"
  by (simp add: decode_server_frame_def starts_with_def MAGIC_def V3_SELECTOR_def)

lemma sample_processed:
  "processed sum_crypto (srv_selectors idle_server) (9, 7) [] sample_run = [(\<lambda>_. 8, sample_frames ! 2), (\<lambda>_. 8, sample_frames ! 0)]"
proof -
  have "sample_frames ! i \<in> set sample_frames" if "i < 3" for i using that sample_frame_fields(2) by simp
  note d = sample_decodes [OF this]
  obtain e where "decode_server_frame sum_crypto [1, 2, 3] (srv_selectors idle_server) = Inl e" using sample_garbage by blast
  then show ?thesis using d [of 2] d [of 0] by (simp add: sample_run_def SESSION_QUEUE_def)
qed


definition live_entry :: session_entry where
  "live_entry = \<lparr>s_key = [9], s_queue = [], s_last_seen = 4, s_finished = False,
     s_worker = (worker_new 7 VERSION_V3 9 (Some 1))\<lparr>w_encoder := sample_encoder, w_peer := Some 80\<rparr>\<rparr>"

definition sample_return :: "frame \<Rightarrow> ((nat \<Rightarrow> instant) \<times> frame) \<times> bytes" where
  "sample_return f = ((\<lambda>_. 5, f), sample_wire f)"

theorem tunnel_downlink_delivers_witness:
  "\<exists>cl' gs. client_loop sum_crypto xor_code (sample_client\<lparr>c_app_peer := Some 3, c_decoder := sample_decoder\<rparr>)
       (map (\<lambda>((now, f), buf). Net now buf) (map sample_return [sample_frames ! 2, sample_frames ! 0])) =
     (cl', Inr (map (\<lambda>g. ToApp g 3) gs)) \<and> mset gs = mset (map fst [([65], 1 :: instant), ([66], 2)])"
proof -
  let ?srv = "idle_server\<lparr>srv_sessions := [((9, 7), live_entry)]\<rparr>" and ?xs = "[([65], 1), ([66], 2)] :: (bytes \<times> instant) list"
  have e: "w_encoder (s_worker live_entry) = sample_encoder" by (simp add: live_entry_def)
  obtain e' where "encode_run xor_code (w_encoder (s_worker live_entry)) (map fst ?xs) = (e', Inr sample_frames)"
    using encode_sample by (auto simp: e)
  then obtain srv' where out: "server_loop sum_crypto xor_code ?srv (downlink (9, 7) ?xs) = (srv', map (\<lambda>f. ([9], ToPeer f 80)) sample_frames)"
    using server_burst [of ?srv "(9, 7)" live_entry 80 xor_code ?xs e' sample_frames sum_crypto] by (auto simp: live_entry_def)
  have mem: "sample_frames ! i \<in> set sample_frames" if "i < 3" for i
    using that sample_frame_fields(2) by simp
  show ?thesis
  proof (rule tunnel_downlink_delivers [OF hash_ok_sum_crypto aead_ok_sum_crypto _ rs_shape_xor _ _ _ _ _ _ out, where ?t0.0 = 5])
    show "rs_supports xor_code (parity_level (w_encoder (s_worker live_entry)))" "sends_as (w_encoder (s_worker live_entry)) 9 7"
      using rs_supports_xor sample_encoder_inv by (simp_all add: e sends_as_def sample_encoder_eq)
    show "client_ready (sample_client\<lparr>c_app_peer := Some 3, c_decoder := sample_decoder\<rparr>) 9 7 [9] 3 sample_decoder"
      by (simp add: client_ready_def sample_client_def)
    show "v3_selector_prefix sum_crypto 9 \<noteq> be_bytes 4 MAGIC" by (rule sample_selector_not_magic)
    show "survives (peer_output (map (\<lambda>f. ([9], ToPeer f 80)) sample_frames)) (map (snd \<circ> fst) (map sample_return [sample_frames ! 2, sample_frames ! 0]))"
      using sample_survives by (simp add: sample_return_def)
    show "\<forall>((now, f), buf) \<in> set (map sample_return [sample_frames ! 2, sample_frames ! 0]). timely 5 now \<and> on_wire sum_crypto [9] f buf"
      using sample_wire_encodes mem by (simp add: sample_return_def timely_def GROUP_TTL_def)
    show "awaits sample_decoder 7 (peer_output (map (\<lambda>f. ([9], ToPeer f 80)) sample_frames))"
      using sample_frame_fields(3) by (simp add: awaits_def sample_decoder_eq decoder_new_def fresh_window_def)
    show "length (peer_output (map (\<lambda>f. ([9], ToPeer f 80)) sample_frames)) \<le> MAX_GROUPS"
      using sample_frame_fields(2) by (simp add: MAX_GROUPS_def)
  qed (simp_all add: live_entry_def)
qed

end
