(* ===== verification/Quic_Carrier.thy ===== *)
theory Quic_Carrier
  imports Keyring
begin

text \<open>
  The QUIC carrier (\<open>src/quic_relay.rs\<close>): datagrams are cut into numbered fragments that fit a
  QUIC DATAGRAM (\<open>send_carrier\<close>) and put together again by \<open>CarrierReassembly::push\<close>; the
  alternative mode writes length-prefixed datagrams to a reliable stream.  What Quinn decides (the
  negotiated datagram size, whether a send succeeds) are arguments.
\<close>

section \<open>Constants and operations\<close>

definition MAX_DATAGRAM :: nat where "MAX_DATAGRAM = 65535"
definition CARRIER_HEADER :: nat where "CARRIER_HEADER = 12"
definition MAX_CARRIER_FRAGMENTS :: nat where "MAX_CARRIER_FRAGMENTS = 128"
definition MAX_CARRIER_GROUPS :: nat where "MAX_CARRIER_GROUPS = 2048"
definition CARRIER_TTL :: nat where "CARRIER_TTL = 3000000000"
definition CARRIER_PING :: bytes where "CARRIER_PING = map of_char ''SFT-Q-PING-1''"
definition CARRIER_PONG :: bytes where "CARRIER_PONG = map of_char ''SFT-Q-PONG-1''"

lemmas carrier_consts = MAX_DATAGRAM_def CARRIER_HEADER_def MAX_CARRIER_FRAGMENTS_def
  MAX_CARRIER_GROUPS_def CARRIER_TTL_def

record carrier_group =
  cg_created :: instant
  cg_parts :: "bytes option list"

type_synonym carrier = "(u64 \<times> carrier_group) list"

text \<open>\<open>Option::get_or_insert_with\<close> on a slot keeps the part that is already there.\<close>

definition get_or_insert :: "nat \<Rightarrow> 'a \<Rightarrow> 'a option list \<Rightarrow> 'a option list" where
  "get_or_insert i x parts = (case parts ! i of None \<Rightarrow> parts[i := Some x] | Some _ \<Rightarrow> parts)"

definition carrier_header :: "bytes \<Rightarrow> (u64 \<times> nat \<times> nat) result" where
  "carrier_header frame =
     (if length frame < CARRIER_HEADER then Inl (Bail ''short QUIC carrier fragment'')
      else rbind (slice 0 8 frame) (\<lambda>m. rbind (slice 8 10 frame) (\<lambda>i. rbind (slice 10 12 frame) (\<lambda>n.
        let message = from_be m; ix = unat (from_be i :: u16); cnt = unat (from_be n :: u16) in
        if cnt = 0 \<or> cnt > MAX_CARRIER_FRAGMENTS \<or> ix \<ge> cnt then Inl (Bail ''invalid QUIC carrier dimensions'')
        else Inr (message, ix, cnt)))))"

definition carrier_retain :: "instant \<Rightarrow> carrier \<Rightarrow> carrier" where
  "carrier_retain now cr = filter (\<lambda>(_, g). now - cg_created g \<le> CARRIER_TTL) cr"

definition carrier_push :: "instant \<Rightarrow> carrier \<Rightarrow> bytes \<Rightarrow> carrier \<times> bytes option result" where
  "carrier_push now cr frame =
     (case carrier_header frame of
        Inl e \<Rightarrow> (cr, Inl e)
      | Inr (message, ix, cnt) \<Rightarrow>
          (let cr1 = carrier_retain now cr in
           if map_of cr1 message = None \<and> length cr1 \<ge> MAX_CARRIER_GROUPS
           then (cr1, Inl (Bail ''QUIC carrier reassembly limit reached''))
           else
             (let g = (case map_of cr1 message of
                         None \<Rightarrow> \<lparr>cg_created = now, cg_parts = replicate cnt None\<rparr> | Some g \<Rightarrow> g);
                  cr2 = AList.update message g cr1 in
              if length (cg_parts g) \<noteq> cnt then (cr2, Inl (Bail ''inconsistent QUIC carrier fragment count''))
              else if ix \<ge> length (cg_parts g) then (cr2, Inl Panic)
              else
                (let parts = get_or_insert ix (drop CARRIER_HEADER frame) (cg_parts g);
                     cr3 = AList.update message (g\<lparr>cg_parts := parts\<rparr>) cr2 in
                 if None \<in> set parts then (cr3, Inr None)
                 else
                   (let pl = concat (map the parts) in
                    (AList.delete message cr3,
                     if length pl > MAX_DATAGRAM then Inl (Bail ''reassembled QUIC carrier datagram too large'')
                     else Inr (Some pl)))))))"

definition carrier_fragment :: "u64 \<Rightarrow> nat \<Rightarrow> nat \<Rightarrow> bytes \<Rightarrow> bytes" where
  "carrier_fragment message ix cnt part =
     be_bytes 8 message @ be_bytes 2 (of_nat ix :: u16) @ be_bytes 2 (of_nat cnt :: u16) @ part"

text \<open>
  \<open>maximum\<close> is what \<open>max_datagram_size\<close> returns and \<open>ok i\<close> whether sending datagram
  number \<open>i\<close> succeeds.  The result is the message counter afterwards, the datagrams handed to
  Quinn and the outcome.
\<close>

definition send_carrier :: "nat option \<Rightarrow> (nat \<Rightarrow> bool) \<Rightarrow> bytes \<Rightarrow> u64 \<Rightarrow> u64 \<times> bytes list \<times> unit result" where
  "send_carrier maximum ok pl message =
     (case maximum of
        None \<Rightarrow> (message, [], Inl (Bail ''peer did not negotiate QUIC DATAGRAM''))
      | Some m \<Rightarrow>
          if m \<le> CARRIER_HEADER then (message, [], Inl (Bail ''negotiated QUIC DATAGRAM size is too small''))
          else
            (let chunk = m - CARRIER_HEADER; cnt = div_ceil (max (length pl) 1) chunk in
             if cnt > MAX_CARRIER_FRAGMENTS then (message, [], Inl (Bail ''QUIC carrier requires too many fragments''))
             else
               (let message = message + 1;
                    frames = map (\<lambda>(ix, part). carrier_fragment message ix cnt part) (List.enumerate 0 (chunks chunk pl)) @
                      (if pl = [] then [carrier_fragment message 0 1 []] else []);
                    sent = length (takeWhile ok [0..<length frames]) in
                (message, take sent frames, if sent < length frames then Inl (Bail ''send datagram'') else Inr ()))))"

text \<open>Reliable streams.  \<open>read_exact\<close> on the bytes that are still to come before the stream ends.\<close>

definition read_exact :: "nat \<Rightarrow> bytes \<Rightarrow> (bytes \<times> bytes) result" where
  "read_exact n s = (if length s < n then Inl (Bail ''early eof'') else Inr (take n s, drop n s))"

definition write_stream_datagram :: "bytes \<Rightarrow> bytes result" where
  "write_stream_datagram pl =
     (if length pl > MAX_DATAGRAM then Inl (Bail ''stream carrier datagram is too large'')
      else Inr (be_bytes 4 (of_nat (length pl) :: u32) @ pl))"

definition read_stream_datagram :: "bytes \<Rightarrow> (bytes \<times> bytes) result" where
  "read_stream_datagram s =
     rbind (read_exact 4 s) (\<lambda>(header, s1).
       let size = unat (from_be header :: u32) in
       if size > MAX_DATAGRAM then Inl (Bail ''stream carrier datagram is too large'')
       else read_exact size s1)"

lemma read_exact_length: "read_exact n s = Inr (a, s') \<Longrightarrow> length s = n + length s'"
  by (auto simp: read_exact_def split: if_splits)

lemma read_stream_shorter: "read_stream_datagram s = Inr (a, s') \<Longrightarrow> length s' < length s"
  by (auto simp: read_stream_datagram_def rbind_eq_Inr_iff Let_def dest!: read_exact_length split: if_splits)

text \<open>A lane reader hands over one datagram after the other until the stream fails or ends.\<close>

function read_lane :: "bytes \<Rightarrow> bytes list \<times> error" where
  "read_lane s = (case read_stream_datagram s of Inl e \<Rightarrow> ([], e) | Inr (p, s') \<Rightarrow> (case read_lane s' of (ps, e) \<Rightarrow> (p # ps, e)))"
  by pat_completeness auto
termination
  by (relation "measure length") (auto dest: read_stream_shorter)

declare read_lane.simps [simp del]

definition MAX_STREAM_LANES :: nat where "MAX_STREAM_LANES = 1"

text \<open>The value of the environment variable, if it is set; a \<open>usize\<close> has 64 bits.\<close>

definition parse_stream_lanes :: "utext option \<Rightarrow> nat result" where
  "parse_stream_lanes v =
     (case v of
        None \<Rightarrow> Inr 0
      | Some text \<Rightarrow>
          (case parse_u64 text of
             None \<Rightarrow> Inl (Bail ''SMART_QUIC_STREAM_LANES must be an integer'')
           | Some lanes \<Rightarrow>
               if unat lanes \<noteq> MAX_STREAM_LANES
               then Inl (Bail ''SMART_QUIC_STREAM_LANES currently supports only 1'') else Inr (unat lanes)))"

section \<open>The slots of a message\<close>

interpretation keep_first: part_slots get_or_insert
  by unfold_locales (auto simp: get_or_insert_def split: option.split)

lemma length_get_or_insert [simp]: "length (get_or_insert i x s) = length s"
  by (rule keep_first.length_put)

section \<open>Fragments\<close>

lemma carrier_header_fragment:
  assumes "ix < cnt" and "cnt \<le> 128"
  shows "carrier_header (carrier_fragment message ix cnt part) = Inr (message, ix, cnt)"
proof -
  have "unat (of_nat ix :: u16) = ix" "unat (of_nat cnt :: u16) = cnt" using assms by simp_all
  then show ?thesis
    using assms by (simp add: carrier_header_def carrier_fragment_def carrier_consts Let_def)
qed

lemma carrier_fragment_inj:
  assumes "carrier_fragment message a n x = carrier_fragment message b n y" and "a < n" and "b < n" and "n \<le> 128"
  shows "a = b"
  using carrier_header_fragment [OF assms(2,4), of message x] carrier_header_fragment [OF assms(3,4), of message y] assms(1)
  by simp

text \<open>The heartbeats have no valid dimensions.\<close>

lemma carrier_header_ping:
  "carrier_header CARRIER_PING = Inl (Bail ''invalid QUIC carrier dimensions'')"
  "carrier_header CARRIER_PONG = Inl (Bail ''invalid QUIC carrier dimensions'')"
  by (simp_all add: carrier_header_def carrier_consts CARRIER_PING_def CARRIER_PONG_def Let_def from_be_def be_nat_def)

lemma drop_carrier_fragment: "drop CARRIER_HEADER (carrier_fragment message ix cnt part) = part"
  by (simp add: carrier_fragment_def carrier_consts)

text \<open>The parts a datagram is cut into, and the datagrams that carry them.\<close>

definition carrier_parts :: "nat \<Rightarrow> bytes \<Rightarrow> bytes list" where
  "carrier_parts m pl = (if pl = [] then [[]] else chunks (m - CARRIER_HEADER) pl)"

definition carrier_frames :: "u64 \<Rightarrow> bytes list \<Rightarrow> bytes list" where
  "carrier_frames message parts = map (\<lambda>ix. carrier_fragment message ix (length parts) (parts ! ix)) [0..<length parts]"

lemma length_carrier_parts:
  "CARRIER_HEADER < m \<Longrightarrow> length (carrier_parts m pl) = div_ceil (max (length pl) 1) (m - CARRIER_HEADER)"
proof (cases "pl = []")
  case True
  assume m: "CARRIER_HEADER < m"
  have "div_ceil 1 (m - CARRIER_HEADER) = 1"
    using m by (cases "m - CARRIER_HEADER = 1") (auto simp: div_ceil_def)
  then show ?thesis using True by (simp add: carrier_parts_def)
next
  case False
  assume m: "CARRIER_HEADER < m"
  have "max (length pl) 1 = length pl" using False by (cases pl) auto
  then show ?thesis using False m by (simp add: carrier_parts_def length_chunks)
qed

lemma concat_carrier_parts: "CARRIER_HEADER < m \<Longrightarrow> concat (carrier_parts m pl) = pl"
  by (simp add: carrier_parts_def concat_chunks)

lemma carrier_parts_fit: "x \<in> set (carrier_parts m pl) \<Longrightarrow> length x \<le> m - CARRIER_HEADER"
  by (auto simp: carrier_parts_def dest: chunks_length_le split: if_splits)

lemma map_enumerate_upt: "map (\<lambda>(i, x). f i x) (List.enumerate 0 xs) = map (\<lambda>i. f i (xs ! i)) [0..<length xs]"
  by (rule nth_equalityI) (simp_all add: nth_enumerate_eq)

lemma send_carrier_result:
  "send_carrier (Some m) ok pl message =
     (if m \<le> CARRIER_HEADER then (message, [], Inl (Bail ''negotiated QUIC DATAGRAM size is too small''))
      else if length (carrier_parts m pl) > MAX_CARRIER_FRAGMENTS
      then (message, [], Inl (Bail ''QUIC carrier requires too many fragments''))
      else let frames = carrier_frames (message + 1) (carrier_parts m pl); sent = length (takeWhile ok [0..<length frames]) in
        (message + 1, take sent frames, if sent < length frames then Inl (Bail ''send datagram'') else Inr ()))"
proof (cases "CARRIER_HEADER < m")
  case False
  then show ?thesis by (simp add: send_carrier_def)
next
  case True
  let ?parts = "carrier_parts m pl"
  have n: "div_ceil (max (length pl) 1) (m - CARRIER_HEADER) = length ?parts"
    using length_carrier_parts [OF True] by simp
  have fs: "map (\<lambda>(ix, part). carrier_fragment (message + 1) ix (length ?parts) part) (List.enumerate 0 (chunks (m - CARRIER_HEADER) pl)) @
      (if pl = [] then [carrier_fragment (message + 1) 0 1 []] else []) = carrier_frames (message + 1) ?parts"
    by (auto simp: carrier_frames_def carrier_parts_def map_enumerate_upt)
  show ?thesis
    unfolding send_carrier_def option.case Let_def n fs by (rule refl)
qed

lemma send_carrier_frames:
  assumes "send_carrier maximum ok pl message = (message', frames, Inr ())"
  shows "\<exists>m. maximum = Some m \<and> CARRIER_HEADER < m \<and> message' = message + 1 \<and>
     length (carrier_parts m pl) \<le> 128 \<and> frames = carrier_frames message' (carrier_parts m pl)"
proof -
  obtain m where "maximum = Some m"
    using assms by (auto simp: send_carrier_def split: option.splits)
  then show ?thesis
    using assms by (auto simp: send_carrier_result Let_def MAX_CARRIER_FRAGMENTS_def split: if_splits)
qed

lemma carrier_frames_mem:
  "f \<in> set (carrier_frames message parts) \<longleftrightarrow> (\<exists>ix < length parts. f = carrier_fragment message ix (length parts) (parts ! ix))"
  by (auto simp: carrier_frames_def)

lemma carrier_frames_header:
  assumes "f \<in> set (carrier_frames message parts)" and "length parts \<le> 128"
  shows "\<exists>ix. carrier_header f = Inr (message, ix, length parts)" and "f \<noteq> CARRIER_PING" and "f \<noteq> CARRIER_PONG"
proof -
  show h: "\<exists>ix. carrier_header f = Inr (message, ix, length parts)"
    using carrier_header_fragment [OF _ assms(2)] assms(1) by (auto simp: carrier_frames_mem)
  show "f \<noteq> CARRIER_PING" and "f \<noteq> CARRIER_PONG"
    using h carrier_header_ping by auto
qed

section \<open>Reassembly\<close>

definition carrier_group_ok :: "carrier_group \<Rightarrow> bool" where
  "carrier_group_ok g \<longleftrightarrow> length (cg_parts g) \<le> MAX_CARRIER_FRAGMENTS \<and> None \<in> set (cg_parts g)"

definition carrier_inv :: "carrier \<Rightarrow> bool" where
  "carrier_inv cr \<longleftrightarrow> distinct (keys cr) \<and> length cr \<le> MAX_CARRIER_GROUPS \<and> (\<forall>(m, g) \<in> set cr. carrier_group_ok g)"

lemma carrier_inv_retain: "carrier_inv cr \<Longrightarrow> carrier_inv (carrier_retain now cr)"
  using le_trans [OF length_filter_le] by (auto simp: carrier_inv_def carrier_retain_def distinct_keys_filter)

lemma carrier_inv_update:
  assumes "carrier_inv cr" and "carrier_group_ok g" and "map_of cr m = None \<Longrightarrow> length cr < MAX_CARRIER_GROUPS"
  shows "carrier_inv (AList.update m g cr)"
  using assms
  by (auto simp: carrier_inv_def length_alist_update AList.distinct_update map_of_None_keys dest!: in_alist_updateD)

lemma carrier_inv_delete: "carrier_inv cr \<Longrightarrow> carrier_inv (AList.delete m cr)"
  using le_trans [OF length_filter_le] by (auto simp: carrier_inv_def AList.delete_eq distinct_keys_filter)

text \<open>What a push does once its header is read and the table has room: one step on the slots of the message.\<close>

lemma carrier_push_eq:
  assumes "carrier_header f = Inr (message, ix, cnt)"
    and "map_of (carrier_retain now cr) message = None \<longrightarrow> length (carrier_retain now cr) < MAX_CARRIER_GROUPS"
  defines "g \<equiv> case map_of (carrier_retain now cr) message of
      None \<Rightarrow> \<lparr>cg_created = now, cg_parts = replicate cnt None\<rparr> | Some g \<Rightarrow> g"
  defines "parts \<equiv> get_or_insert ix (drop CARRIER_HEADER f) (cg_parts g)"
  shows "carrier_push now cr f =
    (if length (cg_parts g) \<noteq> cnt then
       (AList.update message g (carrier_retain now cr), Inl (Bail ''inconsistent QUIC carrier fragment count''))
     else if None \<in> set parts then (AList.update message (g\<lparr>cg_parts := parts\<rparr>) (carrier_retain now cr), Inr None)
     else (AList.delete message (carrier_retain now cr),
       if length (concat (map the parts)) > MAX_DATAGRAM then Inl (Bail ''reassembled QUIC carrier datagram too large'')
       else Inr (Some (concat (map the parts)))))"
proof -
  have "ix < cnt"
    using assms(1) by (auto simp: carrier_header_def rbind_eq_Inr_iff Let_def split: if_splits)
  moreover have "AList.update message a (AList.update message b m) = AList.update message a m" for a b and m :: carrier
    by (induction m) auto
  moreover have "AList.delete message (AList.update message b m) = AList.delete message m" for b and m :: carrier
    by (induction m) auto
  moreover have "\<not> (map_of (carrier_retain now cr) message = None \<and> MAX_CARRIER_GROUPS \<le> length (carrier_retain now cr))"
    using assms(2) by auto
  ultimately show ?thesis
    unfolding carrier_push_def assms(1) sum.case prod.case Let_def g_def [symmetric] parts_def [symmetric]
    by (simp add: parts_def)
qed

lemma carrier_push_inv:
  assumes inv: "carrier_inv cr"
  shows "carrier_inv (fst (carrier_push now cr f)) \<and> snd (carrier_push now cr f) \<noteq> Inl Panic \<and>
     (\<forall>pl. snd (carrier_push now cr f) = Inr (Some pl) \<longrightarrow> length pl \<le> MAX_DATAGRAM)"
proof (cases "carrier_header f")
  case (Inl e)
  then have "e \<noteq> Panic" by (auto simp: carrier_header_def carrier_consts rbind_eq_Inl_iff Let_def split: if_splits)
  then show ?thesis using Inl inv by (simp add: carrier_push_def)
next
  case (Inr h)
  obtain message ix cnt where h: "h = (message, ix, cnt)" by (cases h) auto
  let ?cr = "carrier_retain now cr"
  have cr: "carrier_inv ?cr" using inv by (rule carrier_inv_retain)
  have dims: "0 < cnt" "cnt \<le> MAX_CARRIER_FRAGMENTS"
    using Inr h by (auto simp: carrier_header_def rbind_eq_Inr_iff Let_def split: if_splits)
  show ?thesis
  proof (cases "map_of ?cr message = None \<and> length ?cr \<ge> MAX_CARRIER_GROUPS")
    case True
    then show ?thesis using Inr h cr by (auto simp: carrier_push_def Let_def)
  next
    case False
    define g where "g = (case map_of ?cr message of
      None \<Rightarrow> \<lparr>cg_created = now, cg_parts = replicate cnt None\<rparr> | Some g \<Rightarrow> g)"
    have "carrier_group_ok g"
    proof (cases "map_of ?cr message")
      case (Some g')
      then have "(message, g') \<in> set ?cr" by (rule map_of_SomeD)
      then show ?thesis using Some cr by (auto simp: g_def carrier_inv_def)
    qed (use dims in \<open>simp add: g_def carrier_group_ok_def\<close>)
    note gok = this
    define parts where "parts = get_or_insert ix (drop CARRIER_HEADER f) (cg_parts g)"
    have pok: "carrier_group_ok (g\<lparr>cg_parts := parts\<rparr>)" if "None \<in> set parts"
      using gok that by (simp add: carrier_group_ok_def parts_def)
    have room: "map_of ?cr message = None \<longrightarrow> length ?cr < MAX_CARRIER_GROUPS" using False by auto
    note eq = carrier_push_eq [OF Inr [unfolded h] room, folded g_def, folded parts_def]
    show ?thesis
      unfolding eq using carrier_inv_update [OF cr gok] carrier_inv_update [OF cr pok] carrier_inv_delete [OF cr] room
      by (simp split: if_splits)
  qed
qed

interpretation carrier_machine: invariant_machine "\<lambda>cr (now, f). fst (carrier_push now cr f)" carrier_inv
  by unfold_locales (use carrier_push_inv in auto)

section \<open>A message in progress\<close>

text \<open>\<open>S\<close> is the set of fragment numbers of the message that have arrived so far.\<close>

definition carrier_rel :: "u64 \<Rightarrow> bytes list \<Rightarrow> instant \<Rightarrow> nat set \<Rightarrow> carrier \<Rightarrow> bool" where
  "carrier_rel message parts t0 S cr \<longleftrightarrow>
     (case map_of cr message of
        None \<Rightarrow> S = {}
      | Some g \<Rightarrow> S \<noteq> {} \<and> t0 \<le> cg_created g \<and> length (cg_parts g) = length parts \<and>
          (\<forall>j < length parts. cg_parts g ! j = (if j \<in> S then Some (parts ! j) else None)))"

definition foreign :: "u64 \<Rightarrow> bytes \<Rightarrow> bool" where
  "foreign message f \<longleftrightarrow> (case carrier_header f of Inl _ \<Rightarrow> True | Inr (m, _, _) \<Rightarrow> m \<noteq> message)"

lemma map_of_retain:
  assumes "distinct (keys cr)"
  shows "map_of (carrier_retain now cr) message =
    (case map_of cr message of None \<Rightarrow> None | Some g \<Rightarrow> if now - cg_created g \<le> CARRIER_TTL then Some g else None)"
  unfolding carrier_retain_def by (rule map_of_filter_values [OF assms])

lemma carrier_rel_retain:
  assumes "carrier_inv cr" and "carrier_rel message parts t0 S cr" and "now \<le> t0 + CARRIER_TTL"
  shows "carrier_rel message parts t0 S (carrier_retain now cr)"
proof -
  have "distinct (keys cr)" using assms(1) by (simp add: carrier_inv_def)
  from map_of_retain [OF this, of now message] show ?thesis
    using assms(2,3) by (cases "map_of cr message") (auto simp: carrier_rel_def)
qed

lemma carrier_rel_map_of:
  "map_of cr' message = map_of cr message \<Longrightarrow> carrier_rel message parts t0 S cr \<Longrightarrow> carrier_rel message parts t0 S cr'"
  by (simp add: carrier_rel_def)

lemma length_carrier_push: "length (fst (carrier_push now cr f)) \<le> Suc (length cr)"
proof (cases "\<exists>m i n. carrier_header f = Inr (m, i, n) \<and>
    (map_of (carrier_retain now cr) m = None \<longrightarrow> length (carrier_retain now cr) < MAX_CARRIER_GROUPS)")
  case True
  then obtain m i n where h: "carrier_header f = Inr (m, i, n)"
    and room: "map_of (carrier_retain now cr) m = None \<longrightarrow> length (carrier_retain now cr) < MAX_CARRIER_GROUPS"
    by (elim exE conjE) (rule that)
  have "length (carrier_retain now cr) \<le> length cr" by (simp add: carrier_retain_def)
  moreover have "length (AList.delete m x) \<le> length x" for x :: carrier by (simp add: AList.delete_eq)
  ultimately show ?thesis
    unfolding carrier_push_eq [OF h room]
    using le_trans [of "length (AList.delete m (carrier_retain now cr))" "length (carrier_retain now cr)" "Suc (length cr)"]
    by (auto simp: length_alist_update)
next
  case False
  then have "fst (carrier_push now cr f) = cr \<or> fst (carrier_push now cr f) = carrier_retain now cr"
    by (cases "carrier_header f") (auto simp: carrier_push_def Let_def)
  moreover have "length (carrier_retain now cr) \<le> length cr" by (simp add: carrier_retain_def)
  ultimately show ?thesis by auto
qed

text \<open>Fragments of other messages and malformed datagrams leave the message alone.\<close>

lemma carrier_push_foreign:
  assumes inv: "carrier_inv cr" and rel: "carrier_rel message parts t0 S cr" and now: "now \<le> t0 + CARRIER_TTL"
    and f: "foreign message f"
  shows "carrier_rel message parts t0 S (fst (carrier_push now cr f))"
proof (cases "carrier_header f")
  case (Inl e)
  then show ?thesis using rel by (simp add: carrier_push_def)
next
  case (Inr h)
  obtain m i n where h: "h = (m, i, n)" by (cases h) auto
  have m: "m \<noteq> message" using f Inr h by (simp add: foreign_def)
  have rel': "carrier_rel message parts t0 S (carrier_retain now cr)" by (rule carrier_rel_retain [OF inv rel now])
  show ?thesis
  proof (cases "map_of (carrier_retain now cr) m = None \<longrightarrow> length (carrier_retain now cr) < MAX_CARRIER_GROUPS")
    case True
    show ?thesis
      unfolding carrier_push_eq [OF Inr [unfolded h] True]
      using m by (auto intro!: carrier_rel_map_of [OF _ rel'] simp: update_conv' delete_conv')
  next
    case False
    then have "fst (carrier_push now cr f) = carrier_retain now cr" using Inr h by (auto simp: carrier_push_def Let_def)
    then show ?thesis using rel' by simp
  qed
qed

text \<open>A fragment of the message fills its slot; the last one that was missing completes the datagram.\<close>

lemma carrier_push_own:
  assumes inv: "carrier_inv cr" and rel: "carrier_rel message parts t0 S cr" and now: "t0 \<le> now" "now \<le> t0 + CARRIER_TTL"
    and room: "length cr < MAX_CARRIER_GROUPS" and ix: "ix < length parts" and n: "length parts \<le> 128"
    and f: "f = carrier_fragment message ix (length parts) (parts ! ix)"
  shows "insert ix S \<noteq> {..<length parts} \<Longrightarrow> S \<subseteq> {..<length parts} \<Longrightarrow>
      \<exists>cr'. carrier_push now cr f = (cr', Inr None) \<and> carrier_rel message parts t0 (insert ix S) cr'"
    and "insert ix S = {..<length parts} \<Longrightarrow> length (concat parts) \<le> MAX_DATAGRAM \<Longrightarrow>
      \<exists>cr'. carrier_push now cr f = (cr', Inr (Some (concat parts))) \<and> map_of cr' message = None"
proof -
  let ?cr = "carrier_retain now cr"
  have h: "carrier_header f = Inr (message, ix, length parts)" using f carrier_header_fragment [OF ix n] by simp
  have rel': "carrier_rel message parts t0 S ?cr" by (rule carrier_rel_retain [OF inv rel now(2)])
  have "length ?cr < MAX_CARRIER_GROUPS" using room by (auto simp: carrier_retain_def intro: le_less_trans [OF length_filter_le])
  then have rm: "map_of ?cr message = None \<longrightarrow> length ?cr < MAX_CARRIER_GROUPS" by simp
  define g where "g = (case map_of ?cr message of
      None \<Rightarrow> \<lparr>cg_created = now, cg_parts = replicate (length parts) None\<rparr> | Some g \<Rightarrow> g)"
  have g: "t0 \<le> cg_created g" "length (cg_parts g) = length parts"
    "\<forall>j < length parts. cg_parts g ! j = (if j \<in> S then Some (parts ! j) else None)"
    using rel' now(1) by (auto simp: g_def carrier_rel_def split: option.splits)
  define ps where "ps = get_or_insert ix (parts ! ix) (cg_parts g)"
  have ps: "length ps = length parts" "\<forall>j < length parts. ps ! j = (if j \<in> insert ix S then Some (parts ! j) else None)"
    using keep_first.put_parts [OF g(2) ix g(3)] g(2) by (simp_all add: ps_def)
  have dr: "drop CARRIER_HEADER f = parts ! ix" using f by (simp add: drop_carrier_fragment)
  note eq = carrier_push_eq [OF h rm, folded g_def, unfolded dr, folded ps_def]
  show "\<exists>cr'. carrier_push now cr f = (cr', Inr None) \<and> carrier_rel message parts t0 (insert ix S) cr'"
    if "insert ix S \<noteq> {..<length parts}" "S \<subseteq> {..<length parts}"
  proof -
    have "insert ix S \<subset> {..<length parts}" using that ix by (simp add: psubset_eq)
    then obtain j where j: "j < length parts" "j \<notin> insert ix S" by (metis psubset_imp_ex_mem DiffD1 DiffD2 lessThan_iff)
    then have "None \<in> set ps" using ps by (metis nth_mem)
    then show ?thesis
      using g ps unfolding eq by (simp add: carrier_rel_def update_conv')
  qed
  show "\<exists>cr'. carrier_push now cr f = (cr', Inr (Some (concat parts))) \<and> map_of cr' message = None"
    if "insert ix S = {..<length parts}" "length (concat parts) \<le> MAX_DATAGRAM"
  proof -
    have "ps = map Some parts" by (rule nth_equalityI) (use ps that(1) in auto)
    then show ?thesis
      using g that(2) unfolding eq by (simp add: delete_conv' comp_def image_iff)
  qed
qed

fun carrier_run :: "carrier \<Rightarrow> (instant \<times> bytes) list \<Rightarrow> carrier \<times> bytes option result list" where
  "carrier_run cr [] = (cr, [])"
| "carrier_run cr ((now, f) # xs) =
     (case carrier_push now cr f of (cr1, r) \<Rightarrow> (case carrier_run cr1 xs of (cr2, rs) \<Rightarrow> (cr2, r # rs)))"

lemma carrier_run_append:
  "carrier_run cr (xs @ ys) =
     (case carrier_run cr xs of (cr1, rs) \<Rightarrow> (case carrier_run cr1 ys of (cr2, rs') \<Rightarrow> (cr2, rs @ rs')))"
  by (induction xs arbitrary: cr) (auto split: prod.split)

lemma carrier_run_in_progress:
  assumes "carrier_inv cr" and "carrier_rel message parts t0 S cr" and "length parts \<le> 128"
    and "\<forall>(now, f) \<in> set xs. t0 \<le> now \<and> now \<le> t0 + CARRIER_TTL \<and> (foreign message f \<or> f \<in> set (carrier_frames message parts))"
    and "length cr + length xs \<le> MAX_CARRIER_GROUPS"
    and "la < length parts" "la \<notin> S" "S \<subseteq> {..<length parts}"
    and "carrier_fragment message la (length parts) (parts ! la) \<notin> snd ` set xs"
    and "carrier_run cr xs = (cr', rs)"
  shows "carrier_inv cr' \<and> length cr' \<le> length cr + length xs \<and>
     (\<forall>i < length xs. foreign message (snd (xs ! i)) \<or> rs ! i = Inr None) \<and>
     carrier_rel message parts t0 (S \<union> {ix. ix < length parts \<and> carrier_fragment message ix (length parts) (parts ! ix) \<in> snd ` set xs}) cr'"
  using assms
proof (induction xs arbitrary: cr S rs)
  case Nil
  then show ?case by simp
next
  case (Cons x xs)
  obtain now f where x: "x = (now, f)" by fastforce
  let ?frag = "\<lambda>ix. carrier_fragment message ix (length parts) (parts ! ix)"
  obtain cr1 r where p: "carrier_push now cr f = (cr1, r)" by fastforce
  obtain rs' where run: "carrier_run cr1 xs = (cr', rs')" "rs = r # rs'"
    using Cons.prems(10) x p by (auto split: prod.splits)
  have inv1: "carrier_inv cr1" and len1: "length cr1 \<le> Suc (length cr)"
    using carrier_push_inv [OF Cons.prems(1), of now f] length_carrier_push [of now cr f] p by simp_all
  have now: "t0 \<le> now" "now \<le> t0 + CARRIER_TTL" using Cons.prems(4) x by auto
  have inj: "?frag a = ?frag b \<Longrightarrow> a < length parts \<Longrightarrow> b < length parts \<Longrightarrow> a = b" for a b
    using carrier_fragment_inj Cons.prems(3) by blast
  show ?case
  proof (cases "foreign message f")
    case True
    then have "?frag ix \<noteq> f" if "ix < length parts" for ix
      using carrier_header_fragment [OF that] Cons.prems(3) by (auto simp: foreign_def)
    then have same: "{ix. ix < length parts \<and> ?frag ix \<in> snd ` set (x # xs)} = {ix. ix < length parts \<and> ?frag ix \<in> snd ` set xs}"
      using x by auto
    have "carrier_rel message parts t0 S cr1"
      using carrier_push_foreign [OF Cons.prems(1,2) now(2) True] p by simp
    from Cons.IH [OF inv1 this Cons.prems(3) _ _ Cons.prems(6-8) _ run(1)] show ?thesis
      using Cons.prems(4,5,9) len1 run(2) x True unfolding same by (auto simp: nth_Cons split: nat.split)
  next
    case False
    then obtain ix where ix: "ix < length parts" "f = ?frag ix"
      using Cons.prems(4) x by (auto simp: carrier_frames_mem)
    have "ix \<noteq> la" using Cons.prems(9) x ix by auto
    then have S: "insert ix S \<noteq> {..<length parts}" "la \<notin> insert ix S" "insert ix S \<subseteq> {..<length parts}"
      using Cons.prems(6,7,8) ix(1) by auto
    have room: "length cr < MAX_CARRIER_GROUPS" using Cons.prems(5) by simp
    have push: "r = Inr None" "carrier_rel message parts t0 (insert ix S) cr1"
      using carrier_push_own(1) [OF Cons.prems(1,2) now room ix(1) Cons.prems(3) ix(2) S(1) Cons.prems(8)] p by auto
    have more: "insert ix S \<union> {j. j < length parts \<and> ?frag j \<in> snd ` set xs} = S \<union> {j. j < length parts \<and> ?frag j \<in> snd ` set (x # xs)}"
      using x ix inj by auto
    from Cons.IH [OF inv1 push(2) Cons.prems(3) _ _ Cons.prems(6) S(2,3) _ run(1)] show ?thesis
      using Cons.prems(4,5,9) len1 run(2) x push(1) unfolding more by (auto simp: nth_Cons split: nat.split)
  qed
qed

section \<open>Properties\<close>

lemma carrier_delivers:
  assumes "send_carrier maximum ok datagram message = (message', frames, Inr ())" and "length datagram \<le> MAX_DATAGRAM"
    and "carrier_inv cr" and "map_of cr message' = None" and "length cr + length xs < MAX_CARRIER_GROUPS"
    and "set frames \<subseteq> insert f (snd ` set xs)" and "f \<in> set frames" and "f \<notin> snd ` set xs"
    and "\<forall>(now, g) \<in> set (xs @ [(t, f)]). t0 \<le> now \<and> now \<le> t0 + CARRIER_TTL \<and> (foreign message' g \<or> g \<in> set frames)"
  shows "\<exists>cr' rs. carrier_run cr (xs @ [(t, f)]) = (cr', rs @ [Inr (Some datagram)]) \<and> length rs = length xs \<and>
     (\<forall>i < length xs. foreign message' (snd (xs ! i)) \<or> rs ! i = Inr None) \<and> map_of cr' message' = None"
proof -
  obtain m where m: "CARRIER_HEADER < m" and n: "length (carrier_parts m datagram) \<le> 128"
    and fs: "frames = carrier_frames message' (carrier_parts m datagram)"
    using send_carrier_frames [OF assms(1)] by blast
  define parts where "parts = carrier_parts m datagram"
  let ?frag = "\<lambda>ix. carrier_fragment message' ix (length parts) (parts ! ix)"
  have fs: "frames = carrier_frames message' parts" and n: "length parts \<le> 128" using fs n by (simp_all add: parts_def)
  obtain la where la: "la < length parts" "f = ?frag la"
    using assms(7) fs by (auto simp: carrier_frames_mem)
  obtain cr1 rs where run: "carrier_run cr xs = (cr1, rs)" by fastforce
  have len: "length rs = length xs" using run
    by (induction xs arbitrary: cr rs) (auto split: prod.splits)
  have rel0: "carrier_rel message' parts t0 {} cr" using assms(4) by (simp add: carrier_rel_def)
  note prog = carrier_run_in_progress [OF assms(3) rel0 n _ _ la(1) _ _ _ run]
  let ?S = "{ix. ix < length parts \<and> ?frag ix \<in> snd ` set xs}"
  have st: "carrier_inv cr1" "length cr1 \<le> length cr + length xs" "carrier_rel message' parts t0 ?S cr1"
    "\<forall>i < length xs. foreign message' (snd (xs ! i)) \<or> rs ! i = Inr None"
    using prog assms(5,8,9) la fs by auto
  have all: "?frag ix \<in> insert f (snd ` set xs)" if "ix < length parts" for ix
  proof -
    have "?frag ix \<in> set frames" using fs that by (auto simp: carrier_frames_mem)
    then show ?thesis using assms(6) by blast
  qed
  have only: "?frag ix = f \<Longrightarrow> ix = la" if "ix < length parts" for ix
    using carrier_fragment_inj [OF _ that la(1) n] la(2) by blast
  have full: "insert la ?S = {..<length parts}"
    using all only la(1) by (intro set_eqI) (metis (no_types, lifting) insert_iff lessThan_iff mem_Collect_eq)
  have t: "t0 \<le> t" "t \<le> t0 + CARRIER_TTL" using assms(9) by auto
  have conc: "concat parts = datagram" using concat_carrier_parts [OF m] by (simp add: parts_def)
  obtain cr2 where "carrier_push t cr1 f = (cr2, Inr (Some datagram))" "map_of cr2 message' = None"
    using carrier_push_own(2) [OF st(1,3) t _ la(1) n la(2) full] st(2) assms(2,5) conc by auto
  then show ?thesis
    using run st(4) len by (simp add: carrier_run_append)
qed

text \<open>The carrier delivers.  The fragments of a datagram arrive in any order, any number of times and mixed
  with any other datagrams, within three seconds; when the last missing fragment arrives, reassembly
  returns exactly the datagram that was sent, and nothing before that.\<close>

theorem carrier_roundtrip:
  assumes "send_carrier maximum ok datagram message = (message', frames, Inr ())" and "length datagram \<le> MAX_DATAGRAM"
    and "carrier_inv cr" and "map_of cr message' = None" and "length cr + length xs < MAX_CARRIER_GROUPS"
    and "set frames \<subseteq> insert f (snd ` set xs)" and "f \<in> set frames" and "f \<notin> snd ` set xs"
    and "\<forall>(now, g) \<in> set (xs @ [(t, f)]). t0 \<le> now \<and> now \<le> t0 + CARRIER_TTL \<and> (foreign message' g \<or> g \<in> set frames)"
  shows "\<exists>cr' rs. carrier_run cr (xs @ [(t, f)]) = (cr', rs @ [Inr (Some datagram)]) \<and> length rs = length xs \<and>
     (\<forall>i < length xs. foreign message' (snd (xs ! i)) \<or> rs ! i = Inr None) \<and> map_of cr' message' = None"
  by (rule carrier_delivers [OF assms])

definition sample_fragment :: "nat \<Rightarrow> bytes" where
  "sample_fragment ix = carrier_fragment 1 ix 2 ([[65, 66], [67]] ! ix)"

lemma sample_send: "send_carrier (Some 14) (\<lambda>_. True) [65, 66, 67] 0 = (1, [sample_fragment 0, sample_fragment 1], Inr ())"
  by (simp add: send_carrier_def carrier_consts div_ceil_def Let_def chunks.simps sample_fragment_def)
    (simp add: numeral_2_eq_2)

theorem carrier_roundtrip_witness:
  "\<exists>cr' rs. carrier_run [] [(5, sample_fragment 1), (6, CARRIER_PING), (7, sample_fragment 1), (8, sample_fragment 0)] =
     (cr', rs @ [Inr (Some [65, 66, 67])])"
proof -
  have ne: "sample_fragment 0 \<noteq> sample_fragment 1"
    using carrier_fragment_inj [of 1 0 2 _ 1] by (auto simp: sample_fragment_def)
  have h: "foreign 1 CARRIER_PING"
    by (simp add: foreign_def carrier_header_ping)
  have ping: "sample_fragment 0 \<noteq> CARRIER_PING"
    using carrier_header_fragment [of 0 2 1 "[65, 66]"] h by (auto simp: sample_fragment_def foreign_def)
  have "\<exists>cr' rs. carrier_run [] ([(5, sample_fragment 1), (6, CARRIER_PING), (7, sample_fragment 1)] @ [(8, sample_fragment 0)]) =
      (cr', rs @ [Inr (Some [65, 66, 67])]) \<and> length rs = length [(5 :: nat, sample_fragment 1), (6, CARRIER_PING), (7, sample_fragment 1)] \<and>
     (\<forall>i < length [(5 :: nat, sample_fragment 1), (6, CARRIER_PING), (7, sample_fragment 1)].
        foreign 1 (snd ([(5 :: nat, sample_fragment 1), (6, CARRIER_PING), (7, sample_fragment 1)] ! i)) \<or> rs ! i = Inr None) \<and>
     map_of cr' 1 = None"
    by (rule carrier_roundtrip [OF sample_send, where ?t0.0 = 5])
      (use ne ping h in \<open>auto simp: carrier_inv_def carrier_consts\<close>)
  then show ?thesis by auto
qed

text \<open>Whatever datagrams arrive, reassembly never panics, never holds more than 2048 messages of at most 128
  fragments each and never returns more than 65535 bytes.\<close>

theorem carrier_always_bounded:
  assumes "foldl (\<lambda>cr (now, f). fst (carrier_push now cr f)) [] events = cr"
  shows "length cr \<le> 2048 \<and> (\<forall>(m, g) \<in> set cr. length (cg_parts g) \<le> 128) \<and>
     snd (carrier_push now cr f) \<noteq> Inl Panic \<and> (\<forall>pl. snd (carrier_push now cr f) = Inr (Some pl) \<longrightarrow> length pl \<le> 65535)"
proof -
  have "carrier_inv []" by (simp add: carrier_inv_def)
  from carrier_machine.run_invar [OF this, of events] have "carrier_inv cr" using assms by simp
  with carrier_push_inv [OF this, of now f] show ?thesis
    by (auto simp: carrier_inv_def carrier_group_ok_def carrier_consts)
qed

theorem carrier_always_bounded_witness:
  "length (foldl (\<lambda>cr (now, f). fst (carrier_push now cr f)) [] [(5, sample_fragment 1), (6, CARRIER_PING)]) \<le> 2048"
  using carrier_always_bounded [OF refl, of "[(5, sample_fragment 1), (6, CARRIER_PING)]" 0 "[]"] by blast

text \<open>Every datagram \<open>send_carrier\<close> emits fits the negotiated size, carries the fresh message number, and is
  never mistaken for a heartbeat; a heartbeat is never accepted as a fragment.\<close>

theorem carrier_control_distinct:
  assumes "send_carrier (Some m) ok pl message = (message', frames, r)"
  shows "(\<forall>f \<in> set frames. length f \<le> m \<and> f \<noteq> CARRIER_PING \<and> f \<noteq> CARRIER_PONG) \<and> length frames \<le> 128 \<and>
     carrier_push now cr CARRIER_PING = (cr, Inl (Bail ''invalid QUIC carrier dimensions'')) \<and>
     carrier_push now cr CARRIER_PONG = (cr, Inl (Bail ''invalid QUIC carrier dimensions''))"
proof -
  note hd = carrier_header_ping
  have length_frames: "length (carrier_frames k ps) = length ps" for k ps by (simp add: carrier_frames_def)
  have "frames = [] \<or> CARRIER_HEADER < m \<and> length (carrier_parts m pl) \<le> 128 \<and>
      set frames \<subseteq> set (carrier_frames message' (carrier_parts m pl)) \<and> length frames \<le> length (carrier_parts m pl)"
    using send_carrier_result [of m ok pl message] assms length_frames
    by (auto simp: Let_def MAX_CARRIER_FRAGMENTS_def dest: in_set_takeD split: if_splits)
  moreover have "length f \<le> m \<and> f \<noteq> CARRIER_PING \<and> f \<noteq> CARRIER_PONG"
    if "f \<in> set (carrier_frames message' (carrier_parts m pl))" "CARRIER_HEADER < m" "length (carrier_parts m pl) \<le> 128" for f
  proof -
    note mem = that(1)
    obtain ix where ix: "ix < length (carrier_parts m pl)"
      "f = carrier_fragment message' ix (length (carrier_parts m pl)) (carrier_parts m pl ! ix)"
      using mem by (auto simp: carrier_frames_mem)
    have "length (carrier_parts m pl ! ix) \<le> m - CARRIER_HEADER"
      using carrier_parts_fit ix(1) by (metis nth_mem)
    then have "length f \<le> m" using ix(2) that(2) by (simp add: carrier_fragment_def carrier_consts)
    moreover have "carrier_header f \<noteq> carrier_header CARRIER_PING" "carrier_header f \<noteq> carrier_header CARRIER_PONG"
      using carrier_header_fragment [OF ix(1) that(3)] ix(2) hd by simp_all
    ultimately show ?thesis by auto
  qed
  ultimately show ?thesis
    using hd by (auto simp: carrier_push_def)
qed

theorem carrier_control_distinct_witness:
  "\<forall>f \<in> set [sample_fragment 0, sample_fragment 1]. length f \<le> 14 \<and> f \<noteq> CARRIER_PING \<and> f \<noteq> CARRIER_PONG"
  using carrier_control_distinct [OF sample_send] by blast

text \<open>The reliable lane: the datagrams written to a stream are read back as they were written, in the same
  order and with the same boundaries, and the reader then reports the end of the stream.\<close>

lemma stream_lane_reads:
  assumes "map write_stream_datagram datagrams = map Inr bs"
  shows "read_lane (concat bs) = (datagrams, Bail ''early eof'')"
  using assms
proof (induction datagrams arbitrary: bs)
  case Nil
  then show ?case by (simp add: read_lane.simps read_stream_datagram_def read_exact_def)
next
  case (Cons p ps)
  obtain b bs' where b: "bs = b # bs'" "write_stream_datagram p = Inr b" "map write_stream_datagram ps = map Inr bs'"
    using Cons.prems by (cases bs) auto
  have p: "length p \<le> MAX_DATAGRAM" "b = be_bytes 4 (of_nat (length p) :: u32) @ p"
    using b(2) by (auto simp: write_stream_datagram_def split: if_splits)
  have "unat (of_nat (length p) :: u32) = length p"
    using p(1) by (simp add: unat_of_nat MAX_DATAGRAM_def)
  then have "read_stream_datagram (concat bs) = Inr (p, concat bs')"
    using p b(1) by (simp add: read_stream_datagram_def read_exact_def Let_def)
  then show ?case
    using Cons.IH [OF b(3)] by (simp add: read_lane.simps [of "concat bs"])
qed

end
