(* ===== verification/Quic_Auth.thy ===== *)
theory Quic_Auth
  imports Frame_Wire
begin

text \<open>
  Channel-bound device authentication of the QUIC transports (\<open>src/quic_auth.rs\<close>) and the
  server's use of it (\<open>authenticate_server\<close> of \<open>src/quic_relay.rs\<close>): the proof envelope,
  its verification and the bounded replay cache.  A byte array of the sources is a byte list; where
  its length matters it is a hypothesis.  A secret is its UTF-8 bytes.
\<close>

section \<open>State and operations\<close>

definition AUTH_MAGIC :: bytes where "AUTH_MAGIC = [0x53, 0x46, 0x54, 0x41]"
definition AUTH_VERSION :: u8 where "AUTH_VERSION = 1"
definition PREFIX_LEN :: nat where "PREFIX_LEN = 4 + 1 + 8 + 8 + 16"
definition ENVELOPE_LEN :: nat where "ENVELOPE_LEN = PREFIX_LEN + 32"
definition DEFAULT_AUTH_WINDOW_SECS :: u64 where "DEFAULT_AUTH_WINDOW_SECS = 30"
definition DEFAULT_REPLAY_CAPACITY :: nat where "DEFAULT_REPLAY_CAPACITY = 65536"

lemmas auth_consts = AUTH_MAGIC_def AUTH_VERSION_def PREFIX_LEN_def ENVELOPE_LEN_def

record auth_claims =
  device_id :: u64
  timestamp :: u64
  auth_nonce :: bytes

record replay_cache =
  capacity :: nat
  entries :: "(bytes \<times> u64) list"
  order :: "(bytes \<times> u64) list"

definition replay_cache_new :: "nat \<Rightarrow> replay_cache result" where
  "replay_cache_new cap =
     (if cap = 0 then Inl (Bail ''replay cache capacity must be non-zero'')
      else Inr \<lparr>capacity = cap, entries = [], order = []\<rparr>)"

text \<open>The two loops of \<open>check_and_insert\<close> and the removal of a queued entry they share.\<close>

definition forget :: "bytes \<times> u64 \<Rightarrow> (bytes \<times> u64) list \<Rightarrow> (bytes \<times> u64) list" where
  "forget x es = (if map_of es (fst x) = Some (snd x) then AList.delete (fst x) es else es)"

fun drop_expired :: "u64 \<Rightarrow> (bytes \<times> u64) list \<Rightarrow> (bytes \<times> u64) list \<Rightarrow> (bytes \<times> u64) list \<times> (bytes \<times> u64) list" where
  "drop_expired now es [] = (es, [])"
| "drop_expired now es (x # os) =
     (if snd x > now then (es, x # os) else drop_expired now (forget x es) os)"

fun evict :: "nat \<Rightarrow> (bytes \<times> u64) list \<Rightarrow> (bytes \<times> u64) list \<Rightarrow> (bytes \<times> u64) list \<times> (bytes \<times> u64) list" where
  "evict cap es [] = (es, [])"
| "evict cap es (x # os) = (if length es \<ge> cap then evict cap (forget x es) os else (es, x # os))"

definition check_and_insert :: "replay_cache \<Rightarrow> bytes \<Rightarrow> u64 \<Rightarrow> u64 \<Rightarrow> replay_cache \<times> bool" where
  "check_and_insert rc nonce now window_secs =
     (let (es, os) = drop_expired now (entries rc) (order rc) in
      if map_of es nonce \<noteq> None then (rc\<lparr>entries := es, order := os\<rparr>, False)
      else
        let (es', os') = evict (capacity rc) es os;
            expires_at = sat_add (sat_add now window_secs) 1 in
        (rc\<lparr>entries := AList.update nonce expires_at es', order := os' @ [(nonce, expires_at)]\<rparr>, True))"

definition device_key :: "crypto \<Rightarrow> bytes \<Rightarrow> bytes" where
  "device_key c secret = plain_hash c secret"

definition envelope_prefix :: "u64 \<Rightarrow> u64 \<Rightarrow> bytes \<Rightarrow> bytes" where
  "envelope_prefix did ts nonce = AUTH_MAGIC @ [AUTH_VERSION] @ be_bytes 8 did @ be_bytes 8 ts @ nonce"

definition make_envelope :: "crypto \<Rightarrow> bytes \<Rightarrow> u64 \<Rightarrow> u64 \<Rightarrow> bytes \<Rightarrow> bytes \<Rightarrow> bytes" where
  "make_envelope c secret did ts nonce tls_exporter =
     (let out = envelope_prefix did ts nonce in
      out @ keyed_hash c (device_key c secret) (out @ tls_exporter))"

definition envelope_device_id :: "bytes \<Rightarrow> u64 result" where
  "envelope_device_id env =
     (if length env \<noteq> ENVELOPE_LEN then Inl (Bail ''invalid authentication envelope'')
      else rbind (slice 0 4 env) (\<lambda>m. rbind (index_at env 4) (\<lambda>v.
        if m \<noteq> AUTH_MAGIC \<or> v \<noteq> AUTH_VERSION then Inl (Bail ''invalid authentication envelope'')
        else rbind (slice 5 13 env) (\<lambda>d.
          let did = from_be d in
          if did = 0 then Inl (Bail ''device id must be non-zero'') else Inr did))))"

definition abs_diff :: "u64 \<Rightarrow> u64 \<Rightarrow> u64" where
  "abs_diff a b = (if a < b then b - a else a - b)"

definition verify_envelope ::
  "crypto \<Rightarrow> bytes \<Rightarrow> bytes \<Rightarrow> bytes \<Rightarrow> u64 \<Rightarrow> u64 \<Rightarrow> replay_cache \<Rightarrow> replay_cache \<times> auth_claims result" where
  "verify_envelope c env secret tls_exporter now window_secs rc =
     (case
        (if length env \<noteq> ENVELOPE_LEN then Inl (Bail ''invalid authentication envelope'')
         else rbind (slice 0 4 env) (\<lambda>m. rbind (index_at env 4) (\<lambda>v.
           if m \<noteq> AUTH_MAGIC \<or> v \<noteq> AUTH_VERSION then Inl (Bail ''invalid authentication envelope'')
           else rbind (envelope_device_id env) (\<lambda>did. rbind (slice 13 21 env) (\<lambda>t.
             let ts = from_be t in
             if abs_diff now ts > window_secs then Inl (Bail ''expired authentication envelope'')
             else rbind (slice 21 37 env) (\<lambda>nonce.
               rbind (slice PREFIX_LEN (length env) env) (\<lambda>proof.
               if drop PREFIX_LEN (make_envelope c secret did ts nonce tls_exporter) \<noteq> proof
               then Inl (Bail ''invalid device proof'')
               else Inr \<lparr>device_id = did, timestamp = ts, auth_nonce = nonce\<rparr>))))))) of
        Inl e \<Rightarrow> (rc, Inl e)
      | Inr claims \<Rightarrow>
          (case check_and_insert rc (auth_nonce claims) now window_secs of
             (rc', False) \<Rightarrow> (rc', Inl (Bail ''replayed authentication envelope''))
           | (rc', True) \<Rightarrow> (rc', Inr claims)))"

text \<open>
  The server side of the handshake on the proof read from the authentication stream.
  \<open>exporter\<close> is the TLS exporter of the connection and \<open>now\<close> the wall clock
  (\<open>None\<close> when the call fails).
\<close>

definition authenticate_server ::
  "crypto \<Rightarrow> (u64 \<times> bytes) list \<Rightarrow> (bytes \<Rightarrow> bytes option) \<Rightarrow> u64 option \<Rightarrow> replay_cache \<Rightarrow> bytes \<Rightarrow>
   replay_cache \<times> u64 result" where
  "authenticate_server c ks exporter now rc proof =
     (case envelope_device_id proof of
        Inl e \<Rightarrow> (rc, Inl e)
      | Inr did \<Rightarrow>
          (case map_of ks did of
             None \<Rightarrow> (rc, Inl (Bail ''unknown device''))
           | Some secret \<Rightarrow>
               (case slice 21 37 proof of
                  Inl e \<Rightarrow> (rc, Inl e)
                | Inr nonce \<Rightarrow>
                    (case exporter nonce of
                       None \<Rightarrow> (rc, Inl (Bail ''TLS exporter failed''))
                     | Some binding \<Rightarrow>
                         (case now of
                            None \<Rightarrow> (rc, Inl (Bail ''system clock''))
                          | Some t \<Rightarrow>
                              (case verify_envelope c proof secret binding t DEFAULT_AUTH_WINDOW_SECS rc of
                                 (rc', Inl e) \<Rightarrow> (rc', Inl e)
                               | (rc', Inr claims) \<Rightarrow> (rc', Inr did)))))))"

section \<open>Envelopes\<close>

lemma length_envelope_prefix: "length nonce = 16 \<Longrightarrow> length (envelope_prefix did ts nonce) = PREFIX_LEN"
  by (simp add: envelope_prefix_def auth_consts)

lemma length_make_envelope:
  "hash_ok c \<Longrightarrow> length nonce = 16 \<Longrightarrow> length (make_envelope c secret did ts nonce ex) = ENVELOPE_LEN"
  by (simp add: make_envelope_def Let_def length_envelope_prefix hash_ok_def ENVELOPE_LEN_def)

text \<open>The fields of an envelope of the right length.\<close>

definition env_ok :: "bytes \<Rightarrow> bool" where
  "env_ok env \<longleftrightarrow> length env = ENVELOPE_LEN \<and> take 4 env = AUTH_MAGIC \<and> env ! 4 = AUTH_VERSION"

definition env_device :: "bytes \<Rightarrow> u64" where "env_device env = from_be (take 8 (drop 5 env))"
definition env_time :: "bytes \<Rightarrow> u64" where "env_time env = from_be (take 8 (drop 13 env))"
definition env_nonce :: "bytes \<Rightarrow> bytes" where "env_nonce env = take 16 (drop 21 env)"

lemma envelope_device_id_eq:
  "envelope_device_id env =
     (if \<not> env_ok env then Inl (Bail ''invalid authentication envelope'')
      else if env_device env = 0 then Inl (Bail ''device id must be non-zero'') else Inr (env_device env))"
  by (simp add: envelope_device_id_def env_ok_def env_device_def Let_def auth_consts)

lemma verify_envelope_eq:
  "verify_envelope c env secret ex now window rc =
     (if \<not> env_ok env then (rc, Inl (Bail ''invalid authentication envelope''))
      else if env_device env = 0 then (rc, Inl (Bail ''device id must be non-zero''))
      else if abs_diff now (env_time env) > window then (rc, Inl (Bail ''expired authentication envelope''))
      else if drop PREFIX_LEN (make_envelope c secret (env_device env) (env_time env) (env_nonce env) ex) \<noteq> drop PREFIX_LEN env
      then (rc, Inl (Bail ''invalid device proof''))
      else case check_and_insert rc (env_nonce env) now window of
             (rc', False) \<Rightarrow> (rc', Inl (Bail ''replayed authentication envelope''))
           | (rc', True) \<Rightarrow> (rc', Inr \<lparr>device_id = env_device env, timestamp = env_time env, auth_nonce = env_nonce env\<rparr>))"
proof (cases "env_ok env")
  case False
  then show ?thesis
    by (simp add: verify_envelope_def env_ok_def auth_consts)
next
  case True
  then have "length env = ENVELOPE_LEN" by (simp add: env_ok_def)
  then have sl: "slice 0 4 env = Inr (take 4 env)" "index_at env 4 = Inr (env ! 4)"
    "slice 13 21 env = Inr (take 8 (drop 13 env))" "slice 21 37 env = Inr (take 16 (drop 21 env))"
    "slice PREFIX_LEN (length env) env = Inr (drop PREFIX_LEN env)"
    by (simp_all add: auth_consts)
  from True have m: "take 4 env = AUTH_MAGIC" "env ! 4 = AUTH_VERSION" "length env = ENVELOPE_LEN"
    by (simp_all add: env_ok_def)
  show ?thesis
    unfolding verify_envelope_def sl rbind_Inr envelope_device_id_eq
    using True m by (simp add: env_time_def env_nonce_def Let_def)
qed

lemma make_envelope_fields:
  assumes "hash_ok c" and "length nonce = 16"
  shows "env_ok (make_envelope c secret did ts nonce ex)" and "env_device (make_envelope c secret did ts nonce ex) = did"
    and "env_time (make_envelope c secret did ts nonce ex) = ts" and "env_nonce (make_envelope c secret did ts nonce ex) = nonce"
  using length_make_envelope [OF assms] assms(2)
  by (simp_all add: env_ok_def env_device_def env_time_def env_nonce_def make_envelope_def envelope_prefix_def Let_def
      auth_consts list_layout)

lemma env_rebuild:
  assumes "env_ok env"
  shows "env = envelope_prefix (env_device env) (env_time env) (env_nonce env) @ drop PREFIX_LEN env"
proof -
  have len: "length env = 69" using assms by (simp add: env_ok_def auth_consts)
  have "env = take 4 env @ take 1 (drop 4 env) @ take 8 (drop 5 env) @ take 8 (drop 13 env) @ take 16 (drop 21 env) @ drop 37 env"
    using take_drop_rest [of 21 37 env] take_drop_rest [of 13 21 env] take_drop_rest [of 5 13 env]
      take_drop_rest [of 4 5 env] take_drop_rest [of 0 4 env] by simp
  moreover have "take 1 (drop 4 env) = [env ! 4]" using len by (simp add: nth_take_drop)
  moreover have "be_bytes 8 (env_device env) = take 8 (drop 5 env)" "be_bytes 8 (env_time env) = take 8 (drop 13 env)"
    unfolding env_device_def env_time_def using len by (auto intro!: be_bytes_u64)
  ultimately show ?thesis
    using assms by (simp add: env_ok_def envelope_prefix_def env_nonce_def PREFIX_LEN_def)
qed

section \<open>The replay cache\<close>

text \<open>The table and the queue hold the same nonces with the same expiry.\<close>

definition cache_sync :: "(bytes \<times> u64) list \<Rightarrow> (bytes \<times> u64) list \<Rightarrow> bool" where
  "cache_sync es os \<longleftrightarrow> distinct (keys es) \<and> distinct (keys os) \<and> set es = set os"

definition cache_inv :: "replay_cache \<Rightarrow> bool" where
  "cache_inv rc \<longleftrightarrow> 0 < capacity rc \<and> cache_sync (entries rc) (order rc) \<and> length (entries rc) \<le> capacity rc"

lemma cache_sync_length: "cache_sync es os \<Longrightarrow> length es = length os"
  unfolding cache_sync_def by (metis distinct_card distinct_map)

lemma cache_sync_pop:
  assumes "cache_sync es (x # os)"
  shows "cache_sync (forget x es) os" and "Suc (length (forget x es)) = length es"
proof -
  have x: "x \<in> set es" "distinct (keys es)" "fst x \<notin> set (keys os)" "distinct (keys os)" "set es = insert x (set os)"
    using assms by (auto simp: cache_sync_def)
  have "map_of es (fst x) = Some (snd x)" using x(1,2) by (intro map_of_is_SomeI) simp_all
  then have f: "forget x es = AList.delete (fst x) es" by (simp add: forget_def)
  have "set (AList.delete (fst x) es) = set os"
  proof (rule set_eqI)
    fix y
    have "y \<in> set os \<Longrightarrow> fst y \<noteq> fst x" using x(3) by (metis image_eqI set_map)
    then show "y \<in> set (AList.delete (fst x) es) \<longleftrightarrow> y \<in> set os"
      unfolding set_alist_delete x(5) by (cases y) auto
  qed
  then show "cache_sync (forget x es) os" using x by (simp add: cache_sync_def f AList.distinct_delete)
  show "Suc (length (forget x es)) = length es"
    unfolding f using x(1,2) by (intro length_alist_delete_less) auto
qed

lemma drop_expired_spec:
  assumes "cache_sync es os" and "drop_expired now es os = (es', os')"
  shows "cache_sync es' os' \<and> length es' \<le> length es \<and>
     (\<exists>pre. os = pre @ os' \<and> (\<forall>x \<in> set pre. snd x \<le> now)) \<and> (os' = [] \<or> snd (hd os') > now)"
  using assms
proof (induction os arbitrary: es)
  case Nil
  then show ?case by simp
next
  case (Cons x os)
  show ?case
  proof (cases "snd x > now")
    case True
    then show ?thesis using Cons.prems by auto
  next
    case False
    with Cons.prems have "drop_expired now (forget x es) os = (es', os')" by simp
    note IH = Cons.IH [OF cache_sync_pop(1) [OF Cons.prems(1)] this]
    then obtain pre where pre: "os = pre @ os'" "\<forall>y \<in> set pre. snd y \<le> now" by blast
    then have "x # os = (x # pre) @ os'" "\<forall>y \<in> set (x # pre). snd y \<le> now" using False by auto
    moreover have "length es' \<le> length es" using IH cache_sync_pop(2) [OF Cons.prems(1)] by linarith
    ultimately show ?thesis using IH by blast
  qed
qed

lemma evict_spec:
  assumes "cache_sync es os" and "evict cap es os = (es', os')" and "0 < cap" and "length es \<le> cap"
  shows "cache_sync es' os' \<and> length es' < cap \<and>
     (if length es < cap then os' = os else \<exists>x. os = x # os')"
proof (cases os)
  case Nil
  then show ?thesis using assms cache_sync_length [OF assms(1)] by auto
next
  case (Cons x xs)
  note pop = cache_sync_pop [OF assms(1) [unfolded Cons]]
  show ?thesis
  proof (cases "length es < cap")
    case True
    then show ?thesis using assms Cons by auto
  next
    case False
    have "evict cap (forget x es) xs = (forget x es, xs)"
      using pop(2) assms(4) by (cases xs) auto
    with False assms Cons pop show ?thesis by auto
  qed
qed

lemma check_and_insert_spec:
  assumes inv: "cache_inv rc" and c: "check_and_insert rc nonce now window = (rc', ok)"
  shows "cache_inv rc'" and "capacity rc' = capacity rc"
    and "\<exists>pre suf. order rc = pre @ suf \<and> (\<forall>x \<in> set pre. snd x \<le> now) \<and>
      ok = (nonce \<notin> set (keys suf)) \<and>
      order rc' = (if ok then (if length suf < capacity rc then suf else tl suf) @ [(nonce, sat_add (sat_add now window) 1)]
                   else suf)"
proof -
  obtain es os where d: "drop_expired now (entries rc) (order rc) = (es, os)" by fastforce
  have s: "cache_sync es os" "length es \<le> capacity rc"
    and pre: "\<exists>pre. order rc = pre @ os \<and> (\<forall>x \<in> set pre. snd x \<le> now)"
    using drop_expired_spec [OF _ d] inv by (auto simp: cache_inv_def)
  have keys: "map_of es nonce \<noteq> None \<longleftrightarrow> nonce \<in> set (keys os)"
    using s(1) by (auto simp: map_of_None_keys cache_sync_def)
  let ?x = "sat_add (sat_add now window) 1"
  have len: "length es = length os" by (rule cache_sync_length [OF s(1)])
  show "cache_inv rc'" "capacity rc' = capacity rc"
    "\<exists>pre suf. order rc = pre @ suf \<and> (\<forall>x \<in> set pre. snd x \<le> now) \<and> ok = (nonce \<notin> set (keys suf)) \<and>
      order rc' = (if ok then (if length suf < capacity rc then suf else tl suf) @ [(nonce, ?x)] else suf)"
  proof -
    have "cache_inv rc' \<and> capacity rc' = capacity rc \<and> ok = (nonce \<notin> set (keys os)) \<and>
      order rc' = (if ok then (if length os < capacity rc then os else tl os) @ [(nonce, ?x)] else os)"
    proof (cases "nonce \<in> set (keys os)")
      case True
      then show ?thesis
        using c d keys s inv by (auto simp: check_and_insert_def cache_inv_def)
    next
      case False
      obtain es' os' where e: "evict (capacity rc) es os = (es', os')" by fastforce
      have ev: "cache_sync es' os' \<and> length es' < capacity rc \<and> (if length es < capacity rc then os' = os else \<exists>x. os = x # os')"
        by (rule evict_spec [OF s(1) e _ s(2)]) (use inv in \<open>simp add: cache_inv_def\<close>)
      then have nin: "nonce \<notin> set (keys os')" using False by (auto split: if_splits)
      then have up: "AList.update nonce ?x es' = es' @ [(nonce, ?x)]"
        using ev by (intro update_fresh) (auto simp: cache_sync_def)
      have rc': "rc' = rc\<lparr>entries := es' @ [(nonce, ?x)], order := os' @ [(nonce, ?x)]\<rparr>" "ok"
        using c d e keys False by (auto simp: check_and_insert_def up Let_def)
      have "cache_sync (es' @ [(nonce, ?x)]) (os' @ [(nonce, ?x)])"
        using ev nin by (auto simp: cache_sync_def)
      then show ?thesis
        using rc' ev False inv len by (auto simp: cache_inv_def)
    qed
    with pre show "cache_inv rc'" "capacity rc' = capacity rc"
      "\<exists>pre suf. order rc = pre @ suf \<and> (\<forall>x \<in> set pre. snd x \<le> now) \<and> ok = (nonce \<notin> set (keys suf)) \<and>
        order rc' = (if ok then (if length suf < capacity rc then suf else tl suf) @ [(nonce, ?x)] else suf)"
      by blast+
  qed
qed

text \<open>A queued nonce that has not expired survives as long as it is not pushed out by newer ones.\<close>

lemma append_split_at:
  assumes "pre @ suf = p @ x # s" and "x \<notin> set pre"
  obtains p' where "suf = p' @ x # s"
  using assms by (auto simp: append_eq_append_conv2 Cons_eq_append_conv append_eq_Cons_conv)

lemma queue_step:
  assumes inv: "cache_inv rc" and c: "check_and_insert rc n t window = (rc', ok)"
    and q: "order rc = p @ x # s" and "t < snd x" and "Suc (length s) < capacity rc"
  shows "\<exists>p' s'. order rc' = p' @ x # s' \<and> length s' \<le> Suc (length s)"
proof -
  obtain pre suf where ps: "order rc = pre @ suf" "\<forall>y \<in> set pre. snd y \<le> t" and
    o': "order rc' = (if ok then (if length suf < capacity rc then suf else tl suf) @ [(n, sat_add (sat_add t window) 1)] else suf)"
    using check_and_insert_spec(3) [OF inv c] by blast
  have "x \<notin> set pre" using ps(2) assms(4) by (auto simp: not_le [symmetric])
  then obtain p' where suf: "suf = p' @ x # s" using append_split_at [of pre suf p x s] ps(1) q by auto
  show ?thesis
  proof (cases "length suf < capacity rc \<or> \<not> ok")
    case True
    then show ?thesis using o' suf by (intro exI [of _ p'] exI [of _ "if ok then s @ [(n, sat_add (sat_add t window) 1)] else s"]) auto
  next
    case False
    then have "p' \<noteq> []" using suf assms(5) by auto
    then obtain y p'' where "p' = y # p''" by (cases p') auto
    then show ?thesis using False o' suf
      by (intro exI [of _ p''] exI [of _ "s @ [(n, sat_add (sat_add t window) 1)]"]) auto
  qed
qed

definition check_all :: "u64 \<Rightarrow> replay_cache \<Rightarrow> (bytes \<times> u64) list \<Rightarrow> replay_cache" where
  "check_all window rc calls = foldl (\<lambda>rc (n, t). fst (check_and_insert rc n t window)) rc calls"

lemma queue_run:
  assumes "cache_inv rc" and "order rc = p @ x # s" and "\<forall>(n, t) \<in> set calls. t < snd x"
    and "length s + length calls < capacity rc"
  shows "cache_inv (check_all window rc calls) \<and> (\<exists>p' s'. order (check_all window rc calls) = p' @ x # s')"
  using assms
proof (induction calls arbitrary: rc p s)
  case Nil
  then show ?case by (auto simp: check_all_def)
next
  case (Cons call calls)
  obtain n t where call: "call = (n, t)" by fastforce
  obtain rc1 ok where st: "check_and_insert rc n t window = (rc1, ok)" by fastforce
  obtain p' s' where q: "order rc1 = p' @ x # s'" "length s' \<le> Suc (length s)"
    using queue_step [OF Cons.prems(1) st Cons.prems(2)] Cons.prems(3,4) call by auto
  have "length s' + length calls < capacity rc1"
    using q(2) Cons.prems(4) check_and_insert_spec(2) [OF Cons.prems(1) st] by simp
  with Cons.IH [OF check_and_insert_spec(1) [OF Cons.prems(1) st] q(1)] Cons.prems(3) st call
  show ?case by (simp add: check_all_def)
qed

lemma queued_rejected:
  assumes inv: "cache_inv rc" and "order rc = p @ (nonce, x) # s" and "now < x"
  shows "\<exists>rc'. check_and_insert rc nonce now window = (rc', False)"
proof -
  obtain rc' ok where c: "check_and_insert rc nonce now window = (rc', ok)" by fastforce
  obtain pre suf where ps: "order rc = pre @ suf" "\<forall>y \<in> set pre. snd y \<le> now" "ok = (nonce \<notin> set (keys suf))"
    using check_and_insert_spec(3) [OF inv c] by blast
  have "(nonce, x) \<notin> set pre" using ps(2) assms(3) by (auto simp: not_le [symmetric])
  then obtain p' where "suf = p' @ (nonce, x) # s" using append_split_at [of pre suf p "(nonce, x)" s] ps(1) assms(2) by auto
  with ps(3) c show ?thesis by auto
qed

section \<open>Properties\<close>

lemma unat_abs_diff: "unat (abs_diff a b) = (if unat a < unat b then unat b - unat a else unat a - unat b)"
  by (auto simp: abs_diff_def word_less_nat_alt unat_sub_if' split: if_splits)

lemma verify_accepts:
  assumes "verify_envelope c env secret ex now window rc = (rc', Inr claims)"
  shows "env_ok env" and "env_device env \<noteq> 0" and "abs_diff now (env_time env) \<le> window"
    and "drop PREFIX_LEN (make_envelope c secret (env_device env) (env_time env) (env_nonce env) ex) = drop PREFIX_LEN env"
    and "check_and_insert rc (env_nonce env) now window = (rc', True)"
    and "claims = \<lparr>device_id = env_device env, timestamp = env_time env, auth_nonce = env_nonce env\<rparr>"
  using assms unfolding verify_envelope_eq
  by (auto simp: not_less split: if_splits prod.splits bool.splits)

text \<open>An accepted envelope is byte for byte the one the holder of the device secret makes for this
  TLS connection, with the device identifier, time and nonce that are returned; the identifier is not
  zero and the time is within the window.\<close>

theorem envelope_sound:
  assumes "verify_envelope c env secret ex now window rc = (rc', Inr claims)"
  shows "env = make_envelope c secret (device_id claims) (timestamp claims) (auth_nonce claims) ex \<and>
     length (auth_nonce claims) = 16 \<and> device_id claims \<noteq> 0 \<and>
     unat now \<le> unat (timestamp claims) + unat window \<and> unat (timestamp claims) \<le> unat now + unat window"
proof -
  note v = verify_accepts [OF assms]
  have len: "length (env_nonce env) = 16" using v(1) by (simp add: env_nonce_def env_ok_def auth_consts)
  have "env = envelope_prefix (env_device env) (env_time env) (env_nonce env) @ drop PREFIX_LEN env"
    by (rule env_rebuild [OF v(1)])
  also have "drop PREFIX_LEN env = keyed_hash c (device_key c secret) (envelope_prefix (env_device env) (env_time env) (env_nonce env) @ ex)"
    unfolding v(4) [symmetric] by (simp add: make_envelope_def Let_def length_envelope_prefix [OF len])
  finally have "env = make_envelope c secret (env_device env) (env_time env) (env_nonce env) ex"
    by (simp add: make_envelope_def Let_def)
  moreover have "unat now \<le> unat (env_time env) + unat window \<and> unat (env_time env) \<le> unat now + unat window"
    using v(3) by (simp add: word_le_nat_alt unat_abs_diff split: if_splits)
  ultimately show ?thesis using v(2,6) len by simp
qed

lemma envelope_accepts:
  assumes "hash_ok c" and "length nonce = 16" and "did \<noteq> 0" and "abs_diff now ts \<le> window"
    and "cache_inv rc" and "nonce \<notin> set (keys (order rc))"
  shows "\<exists>rc'. verify_envelope c (make_envelope c secret did ts nonce ex) secret ex now window rc =
     (rc', Inr \<lparr>device_id = did, timestamp = ts, auth_nonce = nonce\<rparr>)"
proof -
  note f = make_envelope_fields [OF assms(1,2)]
  obtain rc' ok where ci: "check_and_insert rc nonce now window = (rc', ok)" by fastforce
  have "ok" using check_and_insert_spec(3) [OF assms(5) ci] assms(6) by auto
  with ci f assms(3,4) show ?thesis by (auto simp: verify_envelope_eq not_less)
qed

text \<open>The envelope made for a device is accepted on the connection it was made for, inside the
  window, if its nonce is not in the cache, and the claims are the ones that were signed.\<close>

theorem envelope_complete:
  assumes "hash_ok c" and "length nonce = 16" and "did \<noteq> 0" and "abs_diff now ts \<le> window"
    and "cache_inv rc" and "nonce \<notin> set (keys (order rc))"
  shows "\<exists>rc'. verify_envelope c (make_envelope c secret did ts nonce ex) secret ex now window rc =
     (rc', Inr \<lparr>device_id = did, timestamp = ts, auth_nonce = nonce\<rparr>)"
  by (rule envelope_accepts [OF assms])

definition empty_cache :: replay_cache where
  "empty_cache = \<lparr>capacity = 8, entries = [], order = []\<rparr>"

lemma empty_cache_inv: "cache_inv empty_cache"
  by (simp add: empty_cache_def cache_inv_def cache_sync_def)

definition sample_envelope :: "u64 \<Rightarrow> bytes" where
  "sample_envelope ts = make_envelope sum_crypto [1, 2] 7 ts (replicate 16 3) (replicate 32 4)"

theorem envelope_complete_witness:
  "\<exists>rc'. verify_envelope sum_crypto (make_envelope sum_crypto [1, 2] 7 1000 (replicate 16 3) (replicate 32 4)) [1, 2]
     (replicate 32 4) 1005 30 empty_cache = (rc', Inr \<lparr>device_id = 7, timestamp = 1000, auth_nonce = replicate 16 3\<rparr>)"
  by (rule envelope_complete [OF hash_ok_sum_crypto _ _ _ empty_cache_inv]) (simp_all add: abs_diff_def empty_cache_def)

lemma sample_accepted:
  "abs_diff now ts \<le> 30 \<Longrightarrow> \<exists>rc'. verify_envelope sum_crypto (sample_envelope ts) [1, 2] (replicate 32 4) now 30 empty_cache =
     (rc', Inr \<lparr>device_id = 7, timestamp = ts, auth_nonce = replicate 16 3\<rparr>)"
  unfolding sample_envelope_def
  by (rule envelope_accepts [OF hash_ok_sum_crypto _ _ _ empty_cache_inv]) (simp_all add: empty_cache_def)

theorem envelope_sound_witness:
  "\<exists>rc' claims. verify_envelope sum_crypto (sample_envelope 1000) [1, 2] (replicate 32 4) 1005 30 empty_cache = (rc', Inr claims) \<and>
     sample_envelope 1000 =
       make_envelope sum_crypto [1, 2] (device_id claims) (timestamp claims) (auth_nonce claims) (replicate 32 4)"
proof -
  obtain rc' where v: "verify_envelope sum_crypto (sample_envelope 1000) [1, 2] (replicate 32 4) 1005 30 empty_cache =
     (rc', Inr \<lparr>device_id = 7, timestamp = 1000, auth_nonce = replicate 16 3\<rparr>)"
    using sample_accepted [of 1005 1000] by (auto simp: abs_diff_def)
  from envelope_sound [OF v] v show ?thesis by blast
qed

text \<open>C19: a proof whose time is not ahead of the server clock cannot be used twice.  Once it has been
  accepted, it is rejected at every later time, on every connection and for every secret, as long as
  fewer other nonces than the capacity of the cache have been checked in between.\<close>

theorem envelope_replay_rejected:
  assumes inv: "cache_inv rc" and acc: "verify_envelope c env secret ex now window rc = (rc1, Inr claims)"
    and past: "timestamp claims \<le> now" and "unat now + unat window + 1 < 2 ^ 64"
    and later: "now \<le> now2" and calls: "\<forall>(n, t) \<in> set calls. t \<le> now2" "length calls < capacity rc"
  shows "\<exists>rc3 err. verify_envelope c env secret2 ex2 now2 window (check_all window rc1 calls) = (rc3, Inl err)"
proof -
  note v = verify_accepts [OF acc]
  have ts: "unat (env_time env) \<le> unat now" using past v(6) by (simp add: word_le_nat_alt)
  let ?x = "sat_add (sat_add now window) 1"
  have x: "unat ?x = unat now + unat window + 1"
    using assms(4) by (simp add: unat_sat_add)
  show ?thesis
  proof (cases "now2 < ?x")
    case True
    obtain p where q: "order rc1 = p @ [(env_nonce env, ?x)]"
      using check_and_insert_spec(3) [OF inv v(5)] by auto
    have "cache_inv (check_all window rc1 calls) \<and>
        (\<exists>p' s'. order (check_all window rc1 calls) = p' @ (env_nonce env, ?x) # s')"
      using True calls check_and_insert_spec(1,2) [OF inv v(5)]
      by (intro queue_run [where p = p and s = "[]"]) (auto simp: q)
    then obtain rc3 where "check_and_insert (check_all window rc1 calls) (env_nonce env) now2 window = (rc3, False)"
      using queued_rejected True by blast
    then show ?thesis by (simp add: verify_envelope_eq)
  next
    case False
    then have "unat window < unat (abs_diff now2 (env_time env))"
      using x ts by (simp add: word_less_nat_alt unat_abs_diff)
    then have "abs_diff now2 (env_time env) > window" by (simp add: word_less_nat_alt)
    then show ?thesis by (simp add: verify_envelope_eq)
  qed
qed

theorem envelope_replay_rejected_witness:
  "\<exists>rc1 claims rc3 err. verify_envelope sum_crypto (sample_envelope 1000) [1, 2] (replicate 32 4) 1005 30 empty_cache = (rc1, Inr claims) \<and>
     verify_envelope sum_crypto (sample_envelope 1000) [1, 2] (replicate 32 4) 1020 30
       (check_all 30 rc1 [(replicate 16 9, 1010)]) = (rc3, Inl err)"
proof -
  obtain rc1 where v: "verify_envelope sum_crypto (sample_envelope 1000) [1, 2] (replicate 32 4) 1005 30 empty_cache =
     (rc1, Inr \<lparr>device_id = 7, timestamp = 1000, auth_nonce = replicate 16 3\<rparr>)"
    using sample_accepted [of 1005 1000] by (auto simp: abs_diff_def)
  have "\<exists>rc3 err. verify_envelope sum_crypto (sample_envelope 1000) [1, 2] (replicate 32 4) 1020 30
       (check_all 30 rc1 [(replicate 16 9, 1010)]) = (rc3, Inl err)"
    by (rule envelope_replay_rejected [OF empty_cache_inv v]) (simp_all add: empty_cache_def)
  with v show ?thesis by blast
qed

text \<open>C34: a proof whose time is ahead of the server clock can be used twice: its nonce is forgotten
  one window after its first use, when the proof itself is still inside its time window.\<close>

theorem envelope_future_replay_accepted:
  fixes secret ex :: bytes
  assumes "hash_ok c" and "length nonce = 16" and "did \<noteq> 0" and "0 < unat k" and "unat k \<le> unat window"
    and "unat now + unat window + 1 < 2 ^ 64" and "cache_inv rc" and "order rc = []"
  defines "env \<equiv> make_envelope c secret did (now + k) nonce ex"
  shows "\<exists>rc1 rc2 claims. verify_envelope c env secret ex now window rc = (rc1, Inr claims) \<and>
     verify_envelope c env secret ex (now + window + 1) window rc1 = (rc2, Inr claims)"
proof -
  have add: "unat (now + k) = unat now + unat k" "unat (now + window) = unat now + unat window"
    "unat (now + window + 1) = unat now + unat window + 1"
    using assms(5,6) by (simp_all add: unat_word_ariths)
  have "unat (abs_diff now (now + k)) = unat k" using assms(4) by (simp add: unat_abs_diff add)
  then have near: "abs_diff now (now + k) \<le> window" using assms(5) by (simp add: word_le_nat_alt)
  obtain rc1 where v: "verify_envelope c env secret ex now window rc =
      (rc1, Inr \<lparr>device_id = did, timestamp = now + k, auth_nonce = nonce\<rparr>)"
    using envelope_accepts [OF assms(1-3) near assms(7), of secret ex] assms(8) unfolding env_def by auto
  note ci = verify_accepts(5) [OF v]
  have n: "env_nonce env = nonce" unfolding env_def by (rule make_envelope_fields(4) [OF assms(1,2)])
  have "order rc1 = [(nonce, sat_add (sat_add now window) 1)]"
    using check_and_insert_spec(3) [OF assms(7) ci] assms(7,8) by (auto simp: n cache_inv_def)
  moreover have "sat_add (sat_add now window) 1 = now + window + 1"
    using assms(6) add by (simp add: word_unat_eq_iff unat_sat_add)
  ultimately have o1: "order rc1 = [(nonce, now + window + 1)]" by simp
  obtain rc2 ok where c2: "check_and_insert rc1 nonce (now + window + 1) window = (rc2, ok)" by fastforce
  have "ok"
  proof -
    obtain es os where d: "drop_expired (now + window + 1) (entries rc1) (order rc1) = (es, os)" by fastforce
    have "cache_sync (entries rc1) (order rc1)" using check_and_insert_spec(1) [OF assms(7) ci] by (simp add: cache_inv_def)
    then have "os = []" "cache_sync es os" using d drop_expired_spec [OF _ d] by (auto simp: o1)
    then show ?thesis using c2 d by (auto simp: check_and_insert_def cache_sync_def Let_def split: prod.splits if_splits)
  qed
  moreover have "abs_diff (now + window + 1) (now + k) \<le> window"
    using add assms(4,5) by (simp add: word_le_nat_alt unat_abs_diff)
  ultimately have "verify_envelope c env secret ex (now + window + 1) window rc1 =
      (rc2, Inr \<lparr>device_id = did, timestamp = now + k, auth_nonce = nonce\<rparr>)"
    using make_envelope_fields [OF assms(1,2), of secret did "now + k" ex] assms(3) c2
    by (simp add: verify_envelope_eq env_def not_less)
  with v show ?thesis by blast
qed

theorem envelope_future_replay_accepted_witness:
  "\<exists>rc1 rc2 claims. verify_envelope sum_crypto (make_envelope sum_crypto [1, 2] 7 (1000 + 20) (replicate 16 3) (replicate 32 4)) [1, 2]
       (replicate 32 4) 1000 30 empty_cache = (rc1, Inr claims) \<and>
     verify_envelope sum_crypto (make_envelope sum_crypto [1, 2] 7 (1000 + 20) (replicate 16 3) (replicate 32 4)) [1, 2]
       (replicate 32 4) (1000 + 30 + 1) 30 rc1 = (rc2, Inr claims)"
  by (rule envelope_future_replay_accepted [OF hash_ok_sum_crypto _ _ _ _ _ empty_cache_inv])
    (simp_all add: empty_cache_def)

section \<open>The handshake\<close>

record auth_attempt =
  at_exporter :: "bytes \<Rightarrow> bytes option"
  at_now :: "u64 option"
  at_proof :: bytes

definition auth_step :: "crypto \<Rightarrow> (u64 \<times> bytes) list \<Rightarrow> replay_cache \<Rightarrow> auth_attempt \<Rightarrow> replay_cache" where
  "auth_step c ks rc a = fst (authenticate_server c ks (at_exporter a) (at_now a) rc (at_proof a))"

lemma verify_cache:
  assumes "cache_inv rc"
  shows "cache_inv (fst (verify_envelope c env secret ex now window rc)) \<and>
     capacity (fst (verify_envelope c env secret ex now window rc)) = capacity rc"
proof -
  obtain rc' ok where ci: "check_and_insert rc (env_nonce env) now window = (rc', ok)" by fastforce
  have "fst (verify_envelope c env secret ex now window rc) \<in> {rc, rc'}"
    unfolding verify_envelope_eq ci by (cases ok) simp_all
  then show ?thesis using check_and_insert_spec(1,2) [OF assms ci] assms by auto
qed

lemma authenticate_server_cache:
  "fst (authenticate_server c ks exporter now rc proof) = rc \<or>
   (\<exists>secret ex t. fst (authenticate_server c ks exporter now rc proof) =
      fst (verify_envelope c proof secret ex t DEFAULT_AUTH_WINDOW_SECS rc))"
proof -
  have "fst (case v of (rc', Inl e) \<Rightarrow> (rc', Inl e) | (rc', Inr cl) \<Rightarrow> (rc', Inr did)) = fst v"
    for v :: "replay_cache \<times> auth_claims result" and did :: u64
    by (cases v; cases "snd v") auto
  then show ?thesis
    unfolding authenticate_server_def
    by (cases "envelope_device_id proof"; cases "map_of ks (projr (envelope_device_id proof))"; cases "slice 21 37 proof";
        cases "exporter (projr (slice 21 37 proof))"; cases now) (simp_all, blast+)
qed

interpretation auth_cache: invariant_machine "auth_step c ks" "\<lambda>rc. cache_inv rc \<and> capacity rc = cap" for c ks cap
proof
  fix rc a
  assume inv: "cache_inv rc \<and> capacity rc = cap"
  then show "cache_inv (auth_step c ks rc a) \<and> capacity (auth_step c ks rc a) = cap"
    using verify_cache authenticate_server_cache [of c ks "at_exporter a" "at_now a" rc "at_proof a"]
    unfolding auth_step_def by metis
qed

text \<open>However many handshakes are attempted, the replay cache never holds more nonces than its
  capacity, and its table and its queue agree.\<close>

theorem replay_cache_bounded:
  assumes "replay_cache_new cap = Inr rc"
  shows "length (entries (foldl (auth_step c ks) rc attempts)) \<le> cap \<and>
     set (order (foldl (auth_step c ks) rc attempts)) = set (entries (foldl (auth_step c ks) rc attempts))"
proof -
  have "cache_inv rc \<and> capacity rc = cap"
    using assms by (auto simp: replay_cache_new_def cache_inv_def cache_sync_def split: if_splits)
  from auth_cache.run_invar [OF this, of c ks attempts] show ?thesis by (auto simp: cache_inv_def cache_sync_def)
qed

theorem replay_cache_bounded_witness:
  "length (entries (foldl (auth_step sum_crypto [(7, [1, 2])]) \<lparr>capacity = 65536, entries = [], order = []\<rparr>
     [\<lparr>at_exporter = (\<lambda>n. Some (replicate 32 4)), at_now = Some 1000, at_proof = sample_envelope 1000\<rparr>])) \<le> 65536"
proof -
  have "replay_cache_new 65536 = Inr \<lparr>capacity = 65536, entries = [], order = []\<rparr>"
    by (simp add: replay_cache_new_def)
  from replay_cache_bounded [OF this] show ?thesis by blast
qed

lemma authenticate_server_accepts:
  assumes "authenticate_server c ks exporter now rc proof = (rc', Inr did)"
  shows "did \<noteq> 0 \<and> (\<exists>secret nonce binding ts t. map_of ks did = Some secret \<and>
       exporter nonce = Some binding \<and> now = Some t \<and> length nonce = 16 \<and>
       unat t \<le> unat ts + 30 \<and> unat ts \<le> unat t + 30 \<and>
       proof = make_envelope c secret did ts nonce binding)"
proof -
  have ok: "env_ok proof" "env_device proof = did" "did \<noteq> 0"
    using assms by (auto simp: authenticate_server_def envelope_device_id_eq split: if_splits option.splits sum.splits prod.splits)
  have len: "slice 21 37 proof = Inr (env_nonce proof)"
    using ok(1) by (simp add: env_ok_def auth_consts env_nonce_def)
  obtain secret binding t claims where k: "map_of ks did = Some secret" "exporter (env_nonce proof) = Some binding" "now = Some t"
    and v: "verify_envelope c proof secret binding t DEFAULT_AUTH_WINDOW_SECS rc = (rc', Inr claims)"
    using assms ok unfolding authenticate_server_def envelope_device_id_eq len
    by (auto split: if_splits option.splits sum.splits prod.splits)
  note va = verify_accepts [OF v]
  have cl: "device_id claims = did" "auth_nonce claims = env_nonce proof" using va(6) ok(2) by simp_all
  with envelope_sound [OF v] ok(3) k show ?thesis
    by (auto simp: DEFAULT_AUTH_WINDOW_SECS_def)
qed

text \<open>A handshake succeeds for a device only if the proof is the one that the device's secret of the
  keyring makes for the key material of this very connection; and a handshake that fails for any
  other reason than a replay leaves the cache as it was, so strangers cannot fill it.\<close>

theorem authenticate_server_sound:
  assumes "authenticate_server c ks exporter now rc proof = (rc', r)"
  shows "(\<forall>did. r = Inr did \<longrightarrow> did \<noteq> 0 \<and> (\<exists>secret nonce binding ts t. map_of ks did = Some secret \<and>
       exporter nonce = Some binding \<and> now = Some t \<and> length nonce = 16 \<and>
       unat t \<le> unat ts + 30 \<and> unat ts \<le> unat t + 30 \<and>
       proof = make_envelope c secret did ts nonce binding)) \<and>
     (\<forall>err. r = Inl err \<and> err \<noteq> Bail ''replayed authentication envelope'' \<longrightarrow> rc' = rc)"
proof (intro conjI allI impI)
  fix did
  assume r: "r = Inr did"
  show "did \<noteq> 0" and "\<exists>secret nonce binding ts t. map_of ks did = Some secret \<and>
       exporter nonce = Some binding \<and> now = Some t \<and> length nonce = 16 \<and>
       unat t \<le> unat ts + 30 \<and> unat ts \<le> unat t + 30 \<and>
       proof = make_envelope c secret did ts nonce binding"
    using authenticate_server_accepts assms r by blast+
next
  fix err
  assume "r = Inl err \<and> err \<noteq> Bail ''replayed authentication envelope''"
  with assms show "rc' = rc"
    by (auto simp: authenticate_server_def verify_envelope_eq split: if_splits option.splits sum.splits prod.splits bool.splits)
qed

theorem authenticate_server_sound_witness:
  "\<exists>rc' ts nonce. authenticate_server sum_crypto [(7, [1, 2])] (\<lambda>n. Some (replicate 32 4)) (Some 1005) empty_cache (sample_envelope 1000) =
     (rc', Inr 7) \<and> unat ts \<le> 1005 + 30 \<and> sample_envelope 1000 = make_envelope sum_crypto [1, 2] 7 ts nonce (replicate 32 4)"
proof -
  obtain rc' where v: "verify_envelope sum_crypto (sample_envelope 1000) [1, 2] (replicate 32 4) 1005 30 empty_cache =
     (rc', Inr \<lparr>device_id = 7, timestamp = 1000, auth_nonce = replicate 16 3\<rparr>)"
    using sample_accepted [of 1005 1000] by (auto simp: abs_diff_def)
  have f: "env_ok (sample_envelope 1000)" "env_device (sample_envelope 1000) = 7" "length (sample_envelope 1000) = 69"
    using make_envelope_fields(1,2) [OF hash_ok_sum_crypto, of "replicate 16 3" "[1, 2]" 7 1000 "replicate 32 4"]
      length_make_envelope [OF hash_ok_sum_crypto, of "replicate 16 3" "[1, 2]" 7 1000 "replicate 32 4"]
    by (simp_all add: sample_envelope_def auth_consts)
  have a: "authenticate_server sum_crypto [(7, [1, 2])] (\<lambda>n. Some (replicate 32 4)) (Some 1005) empty_cache (sample_envelope 1000) =
      (rc', Inr 7)"
    using v f by (simp add: authenticate_server_def envelope_device_id_eq DEFAULT_AUTH_WINDOW_SECS_def)
  from authenticate_server_sound [OF a] obtain ts nonce where "unat ts \<le> 1005 + 30"
    "sample_envelope 1000 = make_envelope sum_crypto [1, 2] 7 ts nonce (replicate 32 4)"
    by auto
  with a show ?thesis by blast
qed

end
