(* ===== verification/Quic_Relay.thy ===== *)
theory Quic_Relay
  imports Quic_Carrier Quic_Auth
begin

text \<open>
  The QUIC relay (\<open>src/quic_relay.rs\<close>): the loops of an authenticated connection on the server
  (\<open>relay_connection\<close>) and on the client (\<open>relay_client_session\<close>), their variants over
  reliable streams, the handshake that comes first, and the reconnection loop of the client.  Each
  turn of a loop is one event; Quinn's answers (the negotiated size, whether a send succeeds) are
  part of the event, and a step that fails ends its loop.
\<close>

section \<open>Carrier statistics\<close>

definition MIN_WIRE_LOSS_SAMPLE_PACKETS :: u64 where "MIN_WIRE_LOSS_SAMPLE_PACKETS = 100"
definition CARRIER_DEAD_TIMEOUT :: nat where "CARRIER_DEAD_TIMEOUT = 6000000000"
definition STREAM_LANE_PREFACE :: u8 where "STREAM_LANE_PREFACE = 0x53"

record carrier_stats =
  sent_packets :: u64
  lost_packets :: u64
  lost_bytes :: u64
  congestion_events :: u64
  udp_tx_bytes :: u64
  udp_rx_bytes :: u64

definition carrier_stats_default :: carrier_stats where
  "carrier_stats_default = \<lparr>sent_packets = 0, lost_packets = 0, lost_bytes = 0, congestion_events = 0,
     udp_tx_bytes = 0, udp_rx_bytes = 0\<rparr>"

definition saturating_sub :: "u64 \<Rightarrow> u64 \<Rightarrow> u64" where
  "saturating_sub a b = (if a < b then 0 else a - b)"

text \<open>The product is computed with 128 bits.\<close>

definition wire_loss_ppm :: "u64 \<Rightarrow> u64 \<Rightarrow> u32 option" where
  "wire_loss_ppm sent lost =
     (if sent \<ge> MIN_WIRE_LOSS_SAMPLE_PACKETS
      then Some (of_nat (min ((unat lost * 1000000) div unat sent) 1000000)) else None)"

text \<open>What one statistics line reports, and the snapshot the next one is relative to.\<close>

definition log_carrier_stats :: "carrier_stats \<Rightarrow> carrier_stats \<Rightarrow> carrier_stats \<times> (u32 option \<times> carrier_stats)" where
  "log_carrier_stats current previous =
     (let sent = saturating_sub (sent_packets current) (sent_packets previous);
          lost = saturating_sub (lost_packets current) (lost_packets previous) in
      (current, wire_loss_ppm sent lost,
       \<lparr>sent_packets = sent, lost_packets = lost,
        lost_bytes = saturating_sub (lost_bytes current) (lost_bytes previous),
        congestion_events = saturating_sub (congestion_events current) (congestion_events previous),
        udp_tx_bytes = saturating_sub (udp_tx_bytes current) (udp_tx_bytes previous),
        udp_rx_bytes = saturating_sub (udp_rx_bytes current) (udp_rx_bytes previous)\<rparr>))"

section \<open>The server's end of a connection\<close>

record relay =
  rl_received :: carrier
  rl_message :: u64
  rl_stats :: carrier_stats

datatype relay_action = RelaySend bytes | RelayUpstream bytes | RelayApp bytes addr

datatype relay_event =
    CarrierIn instant bytes bool
  | UpstreamIn "nat option" "nat \<Rightarrow> bool" bytes
  | StatsTick carrier_stats
  | RelayClosed string

definition relay_new :: relay where
  "relay_new = \<lparr>rl_received = [], rl_message = 0, rl_stats = carrier_stats_default\<rparr>"

text \<open>\<open>sent act ok\<close> is the outcome of the one send at the end of a branch.\<close>

definition sent :: "relay_action \<Rightarrow> bool \<Rightarrow> relay_action list \<times> unit result" where
  "sent act ok = (if ok then ([act], Inr ()) else ([], Inl (Bail ''send'')))"

fun relay_step :: "relay \<Rightarrow> relay_event \<Rightarrow> relay \<times> relay_action list \<times> unit result" where
  "relay_step r (CarrierIn now incoming ok) =
     (if incoming = CARRIER_PING then (r, sent (RelaySend CARRIER_PONG) ok)
      else case carrier_push now (rl_received r) incoming of
        (cr, Inl e) \<Rightarrow> (r\<lparr>rl_received := cr\<rparr>, [], Inl e)
      | (cr, Inr None) \<Rightarrow> (r\<lparr>rl_received := cr\<rparr>, [], Inr ())
      | (cr, Inr (Some pl)) \<Rightarrow> (r\<lparr>rl_received := cr\<rparr>, sent (RelayUpstream pl) ok))"
| "relay_step r (UpstreamIn maximum ok datagram) =
     (case send_carrier maximum ok datagram (rl_message r) of
        (message, frames, res) \<Rightarrow> (r\<lparr>rl_message := message\<rparr>, map RelaySend frames, res))"
| "relay_step r (StatsTick current) = (r\<lparr>rl_stats := fst (log_carrier_stats current (rl_stats r))\<rparr>, [], Inr ())"
| "relay_step r (RelayClosed msg) = (r, [], Inl (Bail msg))"

text \<open>A loop runs its events until the first error.\<close>

fun event_loop :: "('s \<Rightarrow> 'e \<Rightarrow> 's \<times> 'a list \<times> unit result) \<Rightarrow> 's \<Rightarrow> 'e list \<Rightarrow> 's \<times> 'a list \<times> unit result" where
  "event_loop step s [] = (s, [], Inr ())"
| "event_loop step s (ev # evs) =
     (case step s ev of
        (s1, acts, Inl e) \<Rightarrow> (s1, acts, Inl e)
      | (s1, acts, Inr _) \<Rightarrow> (case event_loop step s1 evs of (s2, acts', res) \<Rightarrow> (s2, acts @ acts', res)))"

definition relay_connection :: "relay_event list \<Rightarrow> relay \<times> relay_action list \<times> unit result" where
  "relay_connection evs = event_loop relay_step relay_new evs"

section \<open>The client's end of a connection\<close>

record relay_client =
  rc_peer :: "addr option"
  rc_received :: carrier
  rc_message :: u64
  rc_last :: instant
  rc_stats :: carrier_stats

datatype relay_client_event =
    LocalIn "nat option" "nat \<Rightarrow> bool" bytes addr
  | Heartbeat instant bool
  | ServerIn "nat \<Rightarrow> instant" bytes bool
  | ClientStats carrier_stats
  | ClientClosed string

definition relay_client_new :: "instant \<Rightarrow> relay_client" where
  "relay_client_new now = \<lparr>rc_peer = None, rc_received = [], rc_message = 0, rc_last = now, rc_stats = carrier_stats_default\<rparr>"

fun relay_client_step :: "relay_client \<Rightarrow> relay_client_event \<Rightarrow> relay_client \<times> relay_action list \<times> unit result" where
  "relay_client_step r (LocalIn maximum ok datagram peer) =
     (case send_carrier maximum ok datagram (rc_message r) of
        (message, frames, res) \<Rightarrow> (r\<lparr>rc_peer := Some peer, rc_message := message\<rparr>, map RelaySend frames, res))"
| "relay_client_step r (Heartbeat now ok) =
     (if now - rc_last r > CARRIER_DEAD_TIMEOUT then (r, [], Inl (Bail ''QUIC carrier heartbeat timeout''))
      else (r, sent (RelaySend CARRIER_PING) ok))"
| "relay_client_step r0 (ServerIn now incoming ok) =
     (let r = r0\<lparr>rc_last := now 0\<rparr> in
      if incoming = CARRIER_PONG then (r, [], Inr ())
      else case carrier_push (now 1) (rc_received r) incoming of
        (cr, Inl e) \<Rightarrow> (r\<lparr>rc_received := cr\<rparr>, [], Inl e)
      | (cr, Inr None) \<Rightarrow> (r\<lparr>rc_received := cr\<rparr>, [], Inr ())
      | (cr, Inr (Some pl)) \<Rightarrow>
          (case rc_peer r of
             None \<Rightarrow> (r\<lparr>rc_received := cr\<rparr>, [], Inr ())
           | Some peer \<Rightarrow> (r\<lparr>rc_received := cr\<rparr>, sent (RelayApp pl peer) ok)))"
| "relay_client_step r (ClientStats current) = (r\<lparr>rc_stats := fst (log_carrier_stats current (rc_stats r))\<rparr>, [], Inr ())"
| "relay_client_step r (ClientClosed msg) = (r, [], Inl (Bail msg))"

definition relay_client_session :: "instant \<Rightarrow> relay_client_event list \<Rightarrow> relay_client \<times> relay_action list \<times> unit result" where
  "relay_client_session now evs = event_loop relay_client_step (relay_client_new now) evs"

section \<open>Reliable lanes\<close>

text \<open>
  Opening the lanes: \<open>prefaces\<close> are the first bytes the other side sends on each stream
  (\<open>None\<close> when the stream cannot be opened or ends first).
\<close>

fun open_lanes :: "nat \<Rightarrow> u8 option list \<Rightarrow> unit result" where
  "open_lanes 0 prefaces = Inr ()"
| "open_lanes (Suc n) [] = Inl (Bail ''carrier lane timeout'')"
| "open_lanes (Suc n) (None # prefaces) = Inl (Bail ''carrier lane timeout'')"
| "open_lanes (Suc n) (Some b # prefaces) =
     (if b \<noteq> STREAM_LANE_PREFACE then Inl (Bail ''invalid carrier lane preface'') else open_lanes n prefaces)"

record lane_relay =
  ln_lanes :: nat
  ln_next :: nat
  ln_written :: "bytes list"
  ln_peer :: "addr option"
  ln_stats :: carrier_stats

definition lane_relay_new :: "nat \<Rightarrow> lane_relay" where
  "lane_relay_new lanes = \<lparr>ln_lanes = lanes, ln_next = 0, ln_written = replicate lanes [], ln_peer = None,
     ln_stats = carrier_stats_default\<rparr>"

text \<open>\<open>ln_written ! i\<close> is what has been written to lane \<open>i\<close>.\<close>

definition lane_write :: "lane_relay \<Rightarrow> bytes \<Rightarrow> bool \<Rightarrow> lane_relay \<times> relay_action list \<times> unit result" where
  "lane_write r datagram ok =
     (case rbind (index_at (ln_written r) (ln_next r)) (\<lambda>w. rbind (write_stream_datagram datagram) (\<lambda>b. Inr (w @ b))) of
        Inl e \<Rightarrow> (r, [], Inl e)
      | Inr w \<Rightarrow>
          if \<not> ok then (r, [], Inl (Bail ''write''))
          else if ln_lanes r = 0 then (r\<lparr>ln_written := (ln_written r)[ln_next r := w]\<rparr>, [], Inl Panic)
          else (r\<lparr>ln_written := (ln_written r)[ln_next r := w], ln_next := (ln_next r + 1) mod ln_lanes r\<rparr>, [], Inr ()))"

datatype lane_event = LaneOut bytes addr bool | LaneIn "bytes option" bool | LaneReaderEnds error | LaneStats carrier_stats

text \<open>The two ends differ only in where a datagram goes that comes from a lane.\<close>

fun laned_connection_step :: "lane_relay \<Rightarrow> lane_event \<Rightarrow> lane_relay \<times> relay_action list \<times> unit result" where
  "laned_connection_step r (LaneOut datagram source ok) = lane_write r datagram ok"
| "laned_connection_step r (LaneIn None ok) = (r, [], Inl (Bail ''all carrier lane readers closed''))"
| "laned_connection_step r (LaneIn (Some pl) ok) = (r, sent (RelayUpstream pl) ok)"
| "laned_connection_step r (LaneReaderEnds e) = (r, [], Inl e)"
| "laned_connection_step r (LaneStats current) =
     (r\<lparr>ln_stats := fst (log_carrier_stats current (ln_stats r))\<rparr>, [], Inr ())"

fun laned_client_step :: "lane_relay \<Rightarrow> lane_event \<Rightarrow> lane_relay \<times> relay_action list \<times> unit result" where
  "laned_client_step r (LaneOut datagram source ok) = lane_write (r\<lparr>ln_peer := Some source\<rparr>) datagram ok"
| "laned_client_step r (LaneIn None ok) = (r, [], Inl (Bail ''all carrier lane readers closed''))"
| "laned_client_step r (LaneIn (Some pl) ok) =
     (case ln_peer r of None \<Rightarrow> (r, [], Inr ()) | Some destination \<Rightarrow> (r, sent (RelayApp pl destination) ok))"
| "laned_client_step r (LaneReaderEnds e) = (r, [], Inl e)"
| "laned_client_step r (LaneStats current) =
     (r\<lparr>ln_stats := fst (log_carrier_stats current (ln_stats r))\<rparr>, [], Inr ())"

definition relay_laned_connection :: "nat \<Rightarrow> u8 option list \<Rightarrow> lane_event list \<Rightarrow> lane_relay \<times> relay_action list \<times> unit result" where
  "relay_laned_connection lanes prefaces evs =
     (case open_lanes lanes prefaces of
        Inl e \<Rightarrow> (lane_relay_new lanes, [], Inl e)
      | Inr _ \<Rightarrow> event_loop laned_connection_step (lane_relay_new lanes) evs)"

definition relay_laned_client_session :: "nat \<Rightarrow> u8 option list \<Rightarrow> lane_event list \<Rightarrow> lane_relay \<times> relay_action list \<times> unit result" where
  "relay_laned_client_session lanes prefaces evs =
     (case open_lanes lanes prefaces of
        Inl e \<Rightarrow> (lane_relay_new lanes, [], Inl e)
      | Inr _ \<Rightarrow> event_loop laned_client_step (lane_relay_new lanes) evs)"

section \<open>Handshake and connection loops\<close>

text \<open>
  The client's side of the handshake: the proof it sends and what it makes of the reply (\<open>None\<close>
  when the stream fails or carries more than 16 bytes).
\<close>

definition client_proof :: "crypto \<Rightarrow> u64 \<Rightarrow> bytes \<Rightarrow> (bytes \<Rightarrow> bytes option) \<Rightarrow> u64 option \<Rightarrow> bytes \<Rightarrow> bytes result" where
  "client_proof c did secret exporter now nonce =
     (if did = 0 then Inl (Bail ''device id must be non-zero'')
      else case now of
        None \<Rightarrow> Inl (Bail ''system clock'')
      | Some t \<Rightarrow>
          (case exporter nonce of
             None \<Rightarrow> Inl (Bail ''TLS exporter failed'')
           | Some binding \<Rightarrow> Inr (make_envelope c secret did t nonce binding)))"

definition client_reply :: "bytes option \<Rightarrow> unit result" where
  "client_reply reply =
     (case reply of
        None \<Rightarrow> Inl (Bail ''read'')
      | Some r \<Rightarrow> if r \<noteq> map of_char ''OK'' then Inl (Bail ''QUIC device authentication rejected'') else Inr ())"

definition authenticate_client ::
  "crypto \<Rightarrow> u64 \<Rightarrow> bytes \<Rightarrow> (bytes \<Rightarrow> bytes option) \<Rightarrow> u64 option \<Rightarrow> bytes \<Rightarrow> (bytes \<Rightarrow> bytes option) \<Rightarrow> unit result" where
  "authenticate_client c did secret exporter now nonce server =
     rbind (client_proof c did secret exporter now nonce) (\<lambda>proof. client_reply (server proof))"

text \<open>What the server answers on the authentication stream: \<open>OK\<close> only after a successful check.\<close>

definition server_reply :: "u64 result \<Rightarrow> bytes option" where
  "server_reply r = (case r of Inl _ \<Rightarrow> None | Inr _ \<Rightarrow> Some (map of_char ''OK''))"

record connection_attempt =
  ca_exporter :: "bytes \<Rightarrow> bytes option"
  ca_now :: "u64 option"
  ca_proof :: "bytes option"
  ca_events :: "relay_event list"
  ca_prefaces :: "u8 option list"
  ca_lane_events :: "lane_event list"

text \<open>
  One accepted connection: no byte is relayed before \<open>authenticate_server\<close> has succeeded.  The
  proof is \<open>None\<close> when the TLS handshake fails, no stream is opened within five seconds or more than
  an envelope is sent.  The result is the replay cache, the device, what is relayed and how the connection ends.
\<close>

definition serve_connection ::
  "crypto \<Rightarrow> (u64 \<times> bytes) list \<Rightarrow> utext option \<Rightarrow> replay_cache \<Rightarrow> connection_attempt \<Rightarrow>
   replay_cache \<times> u64 option \<times> relay_action list \<times> unit result" where
  "serve_connection c ks lanes_var rc a =
     (case ca_proof a of
        None \<Rightarrow> (rc, None, [], Inl (Bail ''authentication stream timeout''))
      | Some proof \<Rightarrow>
          (case authenticate_server c ks (ca_exporter a) (ca_now a) rc proof of
             (rc', Inl e) \<Rightarrow> (rc', None, [], Inl e)
           | (rc', Inr did) \<Rightarrow>
               (rc', Some did,
                (case parse_stream_lanes lanes_var of
                   Inl e \<Rightarrow> ([], Inl e)
                 | Inr lanes \<Rightarrow>
                     if lanes = 0 then snd (relay_connection (ca_events a))
                     else snd (relay_laned_connection lanes (ca_prefaces a) (ca_lane_events a))))))"

text \<open>The connections share the replay cache, which a mutex guards, and nothing else.\<close>

fun serve_connections ::
  "crypto \<Rightarrow> (u64 \<times> bytes) list \<Rightarrow> utext option \<Rightarrow> replay_cache \<Rightarrow> connection_attempt list \<Rightarrow>
   (u64 option \<times> relay_action list \<times> unit result) list" where
  "serve_connections c ks lanes_var rc [] = []"
| "serve_connections c ks lanes_var rc (a # as) =
     (case serve_connection c ks lanes_var rc a of (rc1, r) \<Rightarrow> r # serve_connections c ks lanes_var rc1 as)"

text \<open>\<open>endpoint\<close> is the result of loading the certificate and binding the socket.\<close>

definition run_server ::
  "crypto \<Rightarrow> unit result \<Rightarrow> u32 option \<Rightarrow> utext option \<Rightarrow> utext option \<Rightarrow> connection_attempt list \<Rightarrow>
   (u64 option \<times> relay_action list \<times> unit result) list result" where
  "run_server c endpoint mode contents lanes_var attempts =
     rbind endpoint (\<lambda>_. rbind (relay_parse_keyring mode contents) (\<lambda>ks. rbind (replay_cache_new DEFAULT_REPLAY_CAPACITY) (\<lambda>rc.
       Inr (serve_connections c (map (\<lambda>(i, s). (i, utf8_bytes s)) ks) lanes_var rc attempts))))"

text \<open>
  One turn of the reconnection loop of the client: whether a connection was established (connected,
  authenticated, lane mode valid) before it failed, and what was relayed on it.
\<close>

record client_attempt =
  ka_connected :: bool
  ka_exporter :: "bytes \<Rightarrow> bytes option"
  ka_now :: "u64 option"
  ka_nonce :: bytes
  ka_server :: "bytes \<Rightarrow> bytes option"
  ka_start :: instant
  ka_events :: "relay_client_event list"
  ka_prefaces :: "u8 option list"
  ka_lane_events :: "lane_event list"

definition attempt_connection :: "crypto \<Rightarrow> u64 \<Rightarrow> bytes \<Rightarrow> utext option \<Rightarrow> client_attempt \<Rightarrow> bool \<times> relay_action list" where
  "attempt_connection c did secret lanes_var a =
     (if \<not> ka_connected a then (False, [])
      else case rbind (authenticate_client c did secret (ka_exporter a) (ka_now a) (ka_nonce a) (ka_server a))
                  (\<lambda>_. parse_stream_lanes lanes_var) of
        Inl e \<Rightarrow> (False, [])
      | Inr lanes \<Rightarrow>
          (True, if lanes = 0 then fst (snd (relay_client_session (ka_start a) (ka_events a)))
                 else fst (snd (relay_laned_client_session lanes (ka_prefaces a) (ka_lane_events a)))))"

text \<open>The loop: for each attempt what was relayed and how long the client then sleeps, in seconds.\<close>

fun run_client :: "crypto \<Rightarrow> u64 \<Rightarrow> bytes \<Rightarrow> utext option \<Rightarrow> nat \<Rightarrow> client_attempt list \<Rightarrow> (relay_action list \<times> nat) list" where
  "run_client c did secret lanes_var delay [] = []"
| "run_client c did secret lanes_var delay (a # as) =
     (case attempt_connection c did secret lanes_var a of
        (established, acts) \<Rightarrow>
          (let delay = (if established then 1 else delay) in
           (acts, delay) # run_client c did secret lanes_var (min (delay * 2) 30) as))"

section \<open>Loops\<close>

lemma event_loop_append:
  "event_loop step s (xs @ ys) =
     (case event_loop step s xs of
        (s1, acts, Inl e) \<Rightarrow> (s1, acts, Inl e)
      | (s1, acts, Inr _) \<Rightarrow> (case event_loop step s1 ys of (s2, acts', res) \<Rightarrow> (s2, acts @ acts', res)))"
  by (induction xs arbitrary: s) (auto split: prod.split sum.split)

lemma relay_step_quiet:
  assumes "carrier_push now (rl_received r) f = (cr, Inr None)" and "f \<noteq> CARRIER_PING"
  shows "relay_step r (CarrierIn now f ok) = (r\<lparr>rl_received := cr\<rparr>, [], Inr ())"
  using assms by simp

lemma relay_loop_quiet:
  assumes "carrier_run (rl_received r) xs = (cr, rs)" and "\<forall>res \<in> set rs. res = Inr None"
    and "\<forall>(now, f) \<in> set xs. f \<noteq> CARRIER_PING"
  shows "event_loop relay_step r (map (\<lambda>(now, f). CarrierIn now f True) xs) = (r\<lparr>rl_received := cr\<rparr>, [], Inr ())"
  using assms
proof (induction xs arbitrary: r rs)
  case Nil
  then show ?case by simp
next
  case (Cons x xs)
  obtain now f where x: "x = (now, f)" by fastforce
  obtain cr1 res rs' where p: "carrier_push now (rl_received r) f = (cr1, res)" "carrier_run cr1 xs = (cr, rs')" "rs = res # rs'"
    using Cons.prems(1) x by (auto split: prod.splits)
  have "res = Inr None" using Cons.prems(2) p(3) by simp
  then have st: "relay_step r (CarrierIn now f True) = (r\<lparr>rl_received := cr1\<rparr>, [], Inr ())"
    using relay_step_quiet p(1) Cons.prems(3) x by simp
  have "event_loop relay_step (r\<lparr>rl_received := cr1\<rparr>) (map (\<lambda>(now, f). CarrierIn now f True) xs) =
      (r\<lparr>rl_received := cr1\<rparr>\<lparr>rl_received := cr\<rparr>, [], Inr ())"
    using Cons.IH [of "r\<lparr>rl_received := cr1\<rparr>" rs'] p Cons.prems(2,3) by simp
  then show ?case using st x by (simp del: relay_step.simps)
qed

section \<open>Properties\<close>

text \<open>What the application hands to the client's end of a connection comes out at the server's end: the
  fragments of a datagram, received in any order within three seconds, make the server send exactly that
  datagram to its upstream, once, and keep the connection open.\<close>

theorem relay_uplink_delivers:
  assumes "relay_client_step client (LocalIn maximum ok datagram peer) = (client', map RelaySend frames, Inr ())"
    and "length datagram \<le> MAX_DATAGRAM"
    and "carrier_inv (rl_received r)" and "map_of (rl_received r) (rc_message client') = None"
    and "length (rl_received r) + length xs \<le> MAX_CARRIER_GROUPS"
    and "distinct (map snd xs)" and "set (map snd xs) = set frames" and "\<forall>(now, f) \<in> set xs. t0 \<le> now \<and> now \<le> t0 + CARRIER_TTL"
  shows "\<exists>r'. event_loop relay_step r (map (\<lambda>(now, f). CarrierIn now f True) xs) = (r', [RelayUpstream datagram], Inr ()) \<and>
     rl_message r' = rl_message r"
proof -
  have send: "send_carrier maximum ok datagram (rc_message client) = (rc_message client', frames, Inr ())"
    using assms(1) by (auto simp: inj_map_eq_map inj_def split: prod.splits)
  from send_carrier_frames [OF this] obtain m where m: "maximum = Some m" "CARRIER_HEADER < m"
    and fs: "frames = carrier_frames (rc_message client') (carrier_parts m datagram)" and n: "length (carrier_parts m datagram) \<le> 128" by blast
  have noping: "f \<noteq> CARRIER_PING" if "f \<in> set frames" for f
    using carrier_frames_header(2) [OF _ n] that fs by blast
  have "0 < length (carrier_parts m datagram)"
    using concat_carrier_parts [OF m(2), of datagram] by (auto simp: carrier_parts_def split: if_splits)
  then have "frames \<noteq> []" by (simp add: fs carrier_frames_def)
  then have "xs \<noteq> []" using assms(7) by auto
  then obtain ys t f where xs: "xs = ys @ [(t, f)]" by (metis append_butlast_last_id prod.exhaust)
  have own: "f \<in> set frames" "snd ` set ys \<subseteq> set frames" "f \<notin> snd ` set ys"
    using assms(6,7) xs by auto
  have "set frames \<subseteq> insert f (snd ` set ys)" using assms(7) xs by auto
  moreover have "\<forall>(now, g) \<in> set (ys @ [(t, f)]). t0 \<le> now \<and> now \<le> t0 + CARRIER_TTL \<and>
      (foreign (rc_message client') g \<or> g \<in> set frames)"
    using assms(8) own xs by fastforce
  moreover have "length (rl_received r) + length ys < MAX_CARRIER_GROUPS" using assms(5) xs by simp
  ultimately obtain cr rs where run: "carrier_run (rl_received r) (ys @ [(t, f)]) = (cr, rs @ [Inr (Some datagram)])" "length rs = length ys"
    "\<forall>i < length ys. foreign (rc_message client') (snd (ys ! i)) \<or> rs ! i = Inr None"
    using carrier_delivers [OF send assms(2,3,4) _ _ own(1,3)] by blast
  have notforeign: "\<not> foreign (rc_message client') g" if "g \<in> set frames" for g
    using carrier_frames_header(1) [OF that [unfolded fs] n] by (auto simp: foreign_def)
  have quiet: "\<forall>res \<in> set rs. res = Inr None"
    using run(2,3) own(2) notforeign by (metis in_set_conv_nth image_subset_iff)
  obtain cr1 where r1: "carrier_run (rl_received r) ys = (cr1, rs)" "carrier_push t cr1 f = (cr, Inr (Some datagram))"
    using run(1) by (auto simp: carrier_run_append split: prod.splits)
  have "event_loop relay_step r (map (\<lambda>(now, f). CarrierIn now f True) ys) = (r\<lparr>rl_received := cr1\<rparr>, [], Inr ())"
    using relay_loop_quiet [OF r1(1) quiet] own(2) noping by fastforce
  moreover have "relay_step (r\<lparr>rl_received := cr1\<rparr>) (CarrierIn t f True) =
      (r\<lparr>rl_received := cr\<rparr>, [RelayUpstream datagram], Inr ())"
    using r1(2) noping [OF own(1)] by (simp add: sent_def)
  ultimately show ?thesis using xs by (simp add: event_loop_append)
qed

theorem relay_uplink_delivers_witness:
  "\<exists>r'. event_loop relay_step relay_new [CarrierIn 7 (sample_fragment 1) True, CarrierIn 9 (sample_fragment 0) True] =
     (r', [RelayUpstream [65, 66, 67]], Inr ())"
proof -
  have ne: "sample_fragment 0 \<noteq> sample_fragment 1"
    using carrier_fragment_inj [of 1 0 2 _ 1] by (auto simp: sample_fragment_def)
  have st: "relay_client_step (relay_client_new 5) (LocalIn (Some 14) (\<lambda>_. True) [65, 66, 67] 80) =
      ((relay_client_new 5)\<lparr>rc_peer := Some 80, rc_message := 1\<rparr>, map RelaySend [sample_fragment 0, sample_fragment 1], Inr ())"
    by (simp add: relay_client_new_def sample_send)
  have "\<exists>r'. event_loop relay_step relay_new
      (map (\<lambda>(now, f). CarrierIn now f True) [(7, sample_fragment 1), (9, sample_fragment 0)]) =
     (r', [RelayUpstream [65, 66, 67]], Inr ()) \<and> rl_message r' = rl_message relay_new"
    by (rule relay_uplink_delivers [OF st, where ?t0.0 = 5])
      (use ne in \<open>auto simp: relay_new_def relay_client_new_def carrier_inv_def carrier_consts\<close>)
  then show ?thesis unfolding list.map prod.case by blast
qed

text \<open>The time of the last datagram from the server, before any the start of the session.\<close>

fun last_activity :: "instant \<Rightarrow> relay_client_event list \<Rightarrow> instant" where
  "last_activity t [] = t"
| "last_activity t (ServerIn now incoming ok # evs) = last_activity (now 0) evs"
| "last_activity t (ev # evs) = last_activity t evs"

lemma relay_client_last:
  "event_loop relay_client_step r evs = (r', acts, Inr ()) \<Longrightarrow> rc_last r' = last_activity (rc_last r) evs"
proof (induction evs arbitrary: r acts)
  case Nil
  then show ?case by simp
next
  case (Cons ev evs)
  obtain r1 acts1 res1 where st: "relay_client_step r ev = (r1, acts1, res1)" by (metis prod.exhaust)
  then have ok: "res1 = Inr ()" and lp: "\<exists>acts'. event_loop relay_client_step r1 evs = (r', acts', Inr ())"
    using Cons.prems by (auto split: sum.splits prod.splits)
  have "rc_last r1 = last_activity (rc_last r) [ev]"
    using st ok by (cases ev) (auto simp: Let_def sent_def split: if_splits prod.splits sum.splits option.splits)
  moreover have "last_activity (rc_last r) (ev # evs) = last_activity (last_activity (rc_last r) [ev]) evs"
    by (cases ev) simp_all
  ultimately show ?case using Cons.IH lp by auto
qed

text \<open>Failure detection, exactly.  At a heartbeat the client gives up if and only if no datagram of any kind
  has arrived from the server for more than six seconds; otherwise it sends the next probe.\<close>

theorem heartbeat_timeout_exact:
  assumes "relay_client_session t0 evs = (r, acts, Inr ())"
  shows "relay_client_session t0 (evs @ [Heartbeat now True]) =
    (if now - last_activity t0 evs > 6000000000 then (r, acts, Inl (Bail ''QUIC carrier heartbeat timeout''))
     else (r, acts @ [RelaySend CARRIER_PING], Inr ()))"
proof -
  have "rc_last r = last_activity t0 evs"
    using relay_client_last [of "relay_client_new t0" evs r acts] assms
    by (simp add: relay_client_session_def relay_client_new_def)
  then show ?thesis
    using assms by (simp add: relay_client_session_def event_loop_append sent_def CARRIER_DEAD_TIMEOUT_def)
qed

theorem heartbeat_timeout_exact_witness:
  "relay_client_session 5 ([Heartbeat 2000000005 True, ServerIn (\<lambda>_. 3000000000) CARRIER_PONG True] @ [Heartbeat 9000000001 True]) =
     (relay_client_new 5\<lparr>rc_last := 3000000000\<rparr>, [RelaySend CARRIER_PING], Inl (Bail ''QUIC carrier heartbeat timeout''))"
proof -
  have "relay_client_session 5 [Heartbeat 2000000005 True, ServerIn (\<lambda>_. 3000000000) CARRIER_PONG True] =
      (relay_client_new 5\<lparr>rc_last := 3000000000\<rparr>, [RelaySend CARRIER_PING], Inr ())"
    by (simp add: relay_client_session_def relay_client_new_def sent_def CARRIER_DEAD_TIMEOUT_def Let_def)
  from heartbeat_timeout_exact [OF this, of 9000000001] show ?thesis by simp
qed

lemma handshake_accepts:
  assumes "hash_ok c" and "did \<noteq> 0" and "map_of ks did = Some secret" and "length nonce = 16"
    and "exporter nonce = Some binding" and "abs_diff server_now client_now \<le> DEFAULT_AUTH_WINDOW_SECS"
    and "cache_inv rc" and "nonce \<notin> set (keys (order rc))"
  shows "\<exists>rc'. authenticate_server c ks exporter (Some server_now) rc (make_envelope c secret did client_now nonce binding) = (rc', Inr did)"
proof -
  let ?proof = "make_envelope c secret did client_now nonce binding"
  note f = make_envelope_fields [OF assms(1,4), of secret did client_now binding]
  obtain rc' where v: "verify_envelope c ?proof secret binding server_now DEFAULT_AUTH_WINDOW_SECS rc =
      (rc', Inr \<lparr>device_id = did, timestamp = client_now, auth_nonce = nonce\<rparr>)"
    using envelope_accepts [OF assms(1,4,2,6,7,8)] by blast
  have "length ?proof = ENVELOPE_LEN" by (rule length_make_envelope [OF assms(1,4)])
  then have "slice 21 37 ?proof = Inr nonce"
    using f by (simp add: auth_consts env_nonce_def)
  then show ?thesis
    using f v assms(2,3,5) by (simp add: authenticate_server_def envelope_device_id_eq)
qed

text \<open>C26: both sides agree on a handshake.  A client that holds the secret the server's keyring has for its
  device, on the same TLS connection, with clocks at most thirty seconds apart and a nonce the server has
  not stored, is accepted by the server and accepts the server's answer.\<close>

theorem handshake_completes:
  assumes "hash_ok c" and "did \<noteq> 0" and "map_of ks did = Some secret" and "length nonce = 16"
    and "exporter nonce = Some binding" and "abs_diff server_now client_now \<le> DEFAULT_AUTH_WINDOW_SECS"
    and "cache_inv rc" and "nonce \<notin> set (keys (order rc))"
  shows "\<exists>proof rc'. client_proof c did secret exporter (Some client_now) nonce = Inr proof \<and>
     authenticate_server c ks exporter (Some server_now) rc proof = (rc', Inr did) \<and>
     authenticate_client c did secret exporter (Some client_now) nonce
       (\<lambda>p. server_reply (snd (authenticate_server c ks exporter (Some server_now) rc p))) = Inr ()"
proof -
  have cp: "client_proof c did secret exporter (Some client_now) nonce = Inr (make_envelope c secret did client_now nonce binding)"
    using assms(2,5) by (simp add: client_proof_def)
  obtain rc' where as: "authenticate_server c ks exporter (Some server_now) rc (make_envelope c secret did client_now nonce binding) = (rc', Inr did)"
    using handshake_accepts [where exporter = exporter, OF assms] by blast
  then have "authenticate_client c did secret exporter (Some client_now) nonce
       (\<lambda>p. server_reply (snd (authenticate_server c ks exporter (Some server_now) rc p))) = Inr ()"
    by (simp add: authenticate_client_def cp server_reply_def client_reply_def)
  with cp as show ?thesis by blast
qed

theorem handshake_completes_witness:
  "authenticate_client sum_crypto 7 [1, 2] (\<lambda>n. Some (replicate 32 4)) (Some 1000) (replicate 16 3)
     (\<lambda>p. server_reply (snd (authenticate_server sum_crypto [(7, [1, 2])] (\<lambda>n. Some (replicate 32 4)) (Some 1030) empty_cache p))) = Inr ()"
proof -
  have "\<exists>proof rc'. client_proof sum_crypto 7 [1, 2] (\<lambda>n. Some (replicate 32 4)) (Some 1000) (replicate 16 3) = Inr proof \<and>
      authenticate_server sum_crypto [(7, [1, 2])] (\<lambda>n. Some (replicate 32 4)) (Some 1030) empty_cache proof = (rc', Inr 7) \<and>
      authenticate_client sum_crypto 7 [1, 2] (\<lambda>n. Some (replicate 32 4)) (Some 1000) (replicate 16 3)
     (\<lambda>p. server_reply (snd (authenticate_server sum_crypto [(7, [1, 2])] (\<lambda>n. Some (replicate 32 4)) (Some 1030) empty_cache p))) = Inr ()"
    by (rule handshake_completes [OF hash_ok_sum_crypto _ _ _ _ _ empty_cache_inv])
      (simp_all add: abs_diff_def DEFAULT_AUTH_WINDOW_SECS_def empty_cache_def)
  then show ?thesis by blast
qed

lemma serve_connection_authenticated:
  assumes "serve_connection c ks lanes_var rc a = (rc', dev, acts, res)" and "acts \<noteq> [] \<or> dev \<noteq> None"
  shows "\<exists>did secret nonce binding ts t. dev = Some did \<and> map_of ks did = Some secret \<and>
     ca_exporter a nonce = Some binding \<and> ca_now a = Some t \<and> unat t \<le> unat ts + 30 \<and> unat ts \<le> unat t + 30 \<and>
     ca_proof a = Some (make_envelope c secret did ts nonce binding)"
proof -
  obtain pr did where p: "ca_proof a = Some pr" "authenticate_server c ks (ca_exporter a) (ca_now a) rc pr = (rc', Inr did)" "dev = Some did"
    using assms by (auto simp: serve_connection_def split: option.splits prod.splits sum.splits)
  with authenticate_server_accepts [OF p(2)] show ?thesis by blast
qed

lemma serve_connections_authenticated:
  assumes "i < length attempts" and "serve_connections c ks lanes_var rc attempts ! i = (dev, acts, res)" and "acts \<noteq> [] \<or> dev \<noteq> None"
  shows "\<exists>did secret nonce binding ts t. dev = Some did \<and> map_of ks did = Some secret \<and>
     ca_exporter (attempts ! i) nonce = Some binding \<and> ca_now (attempts ! i) = Some t \<and> unat t \<le> unat ts + 30 \<and> unat ts \<le> unat t + 30 \<and>
     ca_proof (attempts ! i) = Some (make_envelope c secret did ts nonce binding)"
  using assms
proof (induction attempts arbitrary: rc i)
  case Nil
  then show ?case by simp
next
  case (Cons a as)
  obtain rc1 r where s: "serve_connection c ks lanes_var rc a = (rc1, r)" by (metis prod.exhaust)
  show ?case
  proof (cases i)
    case (Suc j)
    then show ?thesis using Cons.IH [of j rc1] Cons.prems s by simp
  next
    case 0
    then have "r = (dev, acts, res)" using Cons.prems(2) s by simp
    with serve_connection_authenticated [OF s [unfolded this] Cons.prems(3)] 0 show ?thesis by simp
  qed
qed

text \<open>C15: the server relays for nobody who has not authenticated: a connection on which it sends anything, to its
  upstream or back, presented the proof that the secret of a device in the keyring file makes for that very TLS
  connection, dated within thirty seconds of the server's clock; secrets have at least 32 bytes.\<close>

theorem run_server_authenticates:
  assumes "run_server c endpoint mode contents lanes_var attempts = Inr outcomes" and "i < length attempts"
    and "outcomes ! i = (dev, acts, res)" and "acts \<noteq> []"
  shows "\<exists>keyring did secret nonce binding ts t. relay_parse_keyring mode contents = Inr keyring \<and> dev = Some did \<and>
     map_of keyring did = Some secret \<and> 32 \<le> length (utf8_bytes secret) \<and>
     ca_exporter (attempts ! i) nonce = Some binding \<and> ca_now (attempts ! i) = Some t \<and> unat t \<le> unat ts + 30 \<and> unat ts \<le> unat t + 30 \<and>
     ca_proof (attempts ! i) = Some (make_envelope c (utf8_bytes secret) did ts nonce binding)"
proof -
  obtain ks rc where k: "relay_parse_keyring mode contents = Inr ks"
    and s: "outcomes = serve_connections c (map (\<lambda>(i, s). (i, utf8_bytes s)) ks) lanes_var rc attempts"
    using assms(1) by (auto simp: run_server_def rbind_eq_Inr_iff)
  have ok: "keyring_ok ks" by (rule relay_keyring_ok [OF k])
  obtain did secret nonce binding ts t where w: "dev = Some did" "map_of (map (\<lambda>(i, s). (i, utf8_bytes s)) ks) did = Some secret"
    "ca_exporter (attempts ! i) nonce = Some binding" "ca_now (attempts ! i) = Some t" "unat t \<le> unat ts + 30" "unat ts \<le> unat t + 30"
    "ca_proof (attempts ! i) = Some (make_envelope c secret did ts nonce binding)"
    using serve_connections_authenticated [OF assms(2) assms(3) [unfolded s]] assms(4) by blast
  obtain s where s: "map_of ks did = Some s" "secret = utf8_bytes s"
    using w(2) by (auto simp: map_of_map)
  then have "32 \<le> length (utf8_bytes s)"
    using ok by (auto simp: keyring_ok_def dest!: map_of_SomeD)
  with k s w show ?thesis by blast
qed

definition sample_attempt :: connection_attempt where
  "sample_attempt = \<lparr>ca_exporter = (\<lambda>n. Some (replicate 32 4)), ca_now = Some 1005,
     ca_proof = Some (make_envelope sum_crypto (utf8_bytes (replicate 32 97)) 7 1000 (replicate 16 3) (replicate 32 4)),
     ca_events = [CarrierIn 5 CARRIER_PING True], ca_prefaces = [], ca_lane_events = []\<rparr>"

lemma sample_served:
  "run_server sum_crypto (Inr ()) (Some 0x8180) (Some (render_keyring sample_keyring)) None [sample_attempt] =
     Inr [(Some 7, [RelaySend CARRIER_PONG], Inr ())]"
proof -
  have k: "relay_parse_keyring (Some 0x8180) (Some (render_keyring sample_keyring)) = Inr sample_keyring"
    by (rule sample_keyring_read)
  let ?rc = "\<lparr>capacity = DEFAULT_REPLAY_CAPACITY, entries = [], order = []\<rparr>"
  let ?ks = "map (\<lambda>(i, s). (i, utf8_bytes s)) sample_keyring"
  have "\<exists>rc'. authenticate_server sum_crypto ?ks (\<lambda>n. Some (replicate 32 4)) (Some 1005) ?rc
      (make_envelope sum_crypto (utf8_bytes (replicate 32 97)) 7 1000 (replicate 16 3) (replicate 32 4)) = (rc', Inr 7)"
    by (rule handshake_accepts [OF hash_ok_sum_crypto])
      (simp_all add: sample_keyring_def abs_diff_def DEFAULT_AUTH_WINDOW_SECS_def DEFAULT_REPLAY_CAPACITY_def cache_inv_def cache_sync_def)
  then obtain rc' where "authenticate_server sum_crypto ?ks (\<lambda>n. Some (replicate 32 4)) (Some 1005) ?rc
      (make_envelope sum_crypto (utf8_bytes (replicate 32 97)) 7 1000 (replicate 16 3) (replicate 32 4)) = (rc', Inr 7)" by blast
  then have "serve_connections sum_crypto ?ks None ?rc [sample_attempt] = [(Some 7, [RelaySend CARRIER_PONG], Inr ())]"
    by (simp add: sample_attempt_def serve_connection_def parse_stream_lanes_def relay_connection_def sent_def)
  then show ?thesis
    by (simp add: run_server_def k replay_cache_new_def DEFAULT_REPLAY_CAPACITY_def)
qed

theorem run_server_authenticates_witness:
  "\<exists>secret ts nonce. map_of sample_keyring 7 = Some secret \<and>
     ca_proof sample_attempt = Some (make_envelope sum_crypto (utf8_bytes secret) 7 ts nonce (replicate 32 4))"
proof -
  note w = run_server_authenticates [OF sample_served, of 0 "Some 7" "[RelaySend CARRIER_PONG]" "Inr ()"]
  then obtain keyring secret nonce binding ts t where
    "relay_parse_keyring (Some 0x8180) (Some (render_keyring sample_keyring)) = Inr keyring" "map_of keyring 7 = Some secret"
    "ca_exporter sample_attempt nonce = Some binding"
    "ca_proof sample_attempt = Some (make_envelope sum_crypto (utf8_bytes secret) 7 ts nonce binding)" by auto
  then show ?thesis using sample_keyring_read by (auto simp: sample_attempt_def)
qed

text \<open>The datagrams handed to the lanes.\<close>

fun lane_outs :: "lane_event list \<Rightarrow> bytes list" where
  "lane_outs [] = []"
| "lane_outs (LaneOut datagram source ok # evs) = datagram # lane_outs evs"
| "lane_outs (ev # evs) = lane_outs evs"

lemma lane_step_single:
  assumes "step r ev = (r', acts, Inr ())" and "step = laned_connection_step \<or> step = laned_client_step"
    and "ln_lanes r = 1" and "ln_next r = 0" and "ln_written r = [concat bs]"
    and "map write_stream_datagram ds = map Inr bs"
  shows "ln_lanes r' = 1 \<and> ln_next r' = 0 \<and>
    (\<exists>bs'. ln_written r' = [concat bs'] \<and> map write_stream_datagram (ds @ lane_outs [ev]) = map Inr bs')"
proof (cases ev)
  case (LaneOut datagram source ok)
  have "lane_write r datagram ok = (r', acts, Inr ()) \<or> lane_write (r\<lparr>ln_peer := Some source\<rparr>) datagram ok = (r', acts, Inr ())"
    using assms(1,2) LaneOut by auto
  then obtain b where "write_stream_datagram datagram = Inr b" "ln_written r' = [concat bs @ b]" "ln_lanes r' = 1" "ln_next r' = 0"
    using assms(3-5) by (auto simp: lane_write_def rbind_eq_Inr_iff split: sum.splits if_splits)
  with assms(6) LaneOut show ?thesis by (auto intro!: exI [of _ "bs @ [b]"])
next
  case (LaneIn pl ok)
  then have "r' = r"
    using assms(1,2) by (cases pl) (auto split: option.splits)
  with assms(3-6) LaneIn show ?thesis by auto
qed (use assms in auto)

lemma lane_loop_single:
  assumes "event_loop step r evs = (r', acts, Inr ())" and "step = laned_connection_step \<or> step = laned_client_step"
    and "ln_lanes r = 1" and "ln_next r = 0" and "ln_written r = [concat bs]"
    and "map write_stream_datagram ds = map Inr bs"
  shows "\<exists>bs'. ln_written r' = [concat bs'] \<and> map write_stream_datagram (ds @ lane_outs evs) = map Inr bs'"
  using assms
proof (induction evs arbitrary: r acts bs ds)
  case Nil
  then show ?case by auto
next
  case (Cons ev evs)
  obtain r1 acts1 res1 where st: "step r ev = (r1, acts1, res1)" by (metis prod.exhaust)
  then have ok: "res1 = Inr ()" and lp: "\<exists>acts'. event_loop step r1 evs = (r', acts', Inr ())"
    using Cons.prems(1) by (auto split: sum.splits prod.splits)
  from lane_step_single [OF st [unfolded ok] Cons.prems(2-6)] obtain bs1 where
    s1: "ln_lanes r1 = 1" "ln_next r1 = 0" "ln_written r1 = [concat bs1]"
    "map write_stream_datagram (ds @ lane_outs [ev]) = map Inr bs1" by blast
  have "lane_outs (ev # evs) = lane_outs [ev] @ lane_outs evs" by (cases ev) simp_all
  with Cons.IH [OF _ Cons.prems(2) s1] lp show ?case by auto
qed

text \<open>C27: with the one lane the configuration allows, the reliable mode keeps the order: what the other side reads
  from the stream is exactly the sequence of datagrams that were relayed, from either end.\<close>

theorem laned_relay_in_order:
  assumes "relay_laned_connection 1 prefaces evs = (r, acts, Inr ()) \<or> relay_laned_client_session 1 prefaces evs = (r, acts, Inr ())"
  shows "read_lane (ln_written r ! 0) = (lane_outs evs, Bail ''early eof'')"
proof -
  have "event_loop laned_connection_step (lane_relay_new 1) evs = (r, acts, Inr ()) \<or>
      event_loop laned_client_step (lane_relay_new 1) evs = (r, acts, Inr ())"
    using assms by (auto simp: relay_laned_connection_def relay_laned_client_session_def split: sum.splits)
  then obtain bs where "ln_written r = [concat bs]" "map write_stream_datagram (lane_outs evs) = map Inr bs"
    using lane_loop_single [of _ "lane_relay_new 1" evs r acts "[]" "[]"] by (auto simp: lane_relay_new_def)
  then show ?thesis using stream_lane_reads by simp
qed

theorem laned_relay_in_order_witness:
  "read_lane (ln_written (fst (relay_laned_client_session 1 [Some STREAM_LANE_PREFACE] [LaneOut [8, 9] 80 True, LaneOut [] 80 True])) ! 0) =
     ([[8, 9], []], Bail ''early eof'')"
proof -
  obtain r acts where "relay_laned_client_session 1 [Some STREAM_LANE_PREFACE] [LaneOut [8, 9] 80 True, LaneOut [] 80 True] = (r, acts, Inr ())"
    by (simp add: relay_laned_client_session_def lane_write_def lane_relay_new_def write_stream_datagram_def MAX_DATAGRAM_def)
  with laned_relay_in_order [of "[Some STREAM_LANE_PREFACE]" "[LaneOut [8, 9] 80 True, LaneOut [] 80 True]" r acts] show ?thesis by simp
qed

text \<open>The pauses depend only on which attempts were established.\<close>

fun backoff :: "nat \<Rightarrow> bool list \<Rightarrow> nat list" where
  "backoff delay [] = []"
| "backoff delay (established # attempts) =
     (let delay = (if established then 1 else delay) in delay # backoff (min (delay * 2) 30) attempts)"

lemma run_client_backoff:
  "map snd (run_client c did secret lanes_var delay attempts) =
     backoff delay (map (\<lambda>a. fst (attempt_connection c did secret lanes_var a)) attempts)"
  by (induction attempts arbitrary: delay) (auto simp: Let_def split: prod.split)

lemma backoff_bounded: "1 \<le> d \<Longrightarrow> d \<le> 30 \<Longrightarrow> x \<in> set (backoff d es) \<Longrightarrow> 1 \<le> x \<and> x \<le> 30"
proof (induction es arbitrary: d)
  case (Cons a as)
  let ?d = "if a then 1 else d"
  have "1 \<le> min (?d * 2) 30" "min (?d * 2) 30 \<le> 30" using Cons.prems(1) by auto
  from Cons.IH [OF this] Cons.prems show ?case by (auto simp: Let_def split: if_splits)
qed simp

lemma backoff_fails: "backoff (min (2 ^ k) 30) (replicate n False) = map (\<lambda>i. min (2 ^ (k + i)) 30) [0..<n]"
proof (induction n arbitrary: k)
  case 0
  then show ?case by simp
next
  case (Suc n)
  have "min (min (2 ^ k) 30 * 2) 30 = (min (2 ^ Suc k) 30 :: nat)" by (auto simp: min_def)
  then show ?case using Suc [of "Suc k"] by (simp add: Let_def upt_conv_Cons map_Suc_upt [symmetric] del: upt_Suc)
qed

lemma backoff_restarts:
  "backoff d (before @ True # replicate n False) = backoff d before @ map (\<lambda>i. min (2 ^ i) 30) [0..<Suc n]"
proof -
  have "backoff 2 (replicate n False) = map (\<lambda>i. min (2 ^ Suc i) 30) [0..<n]"
    using backoff_fails [of 1 n] by simp
  then have "backoff d (True # replicate n False) = map (\<lambda>i. min (2 ^ i) 30) [0..<Suc n]" for d
    by (simp add: Let_def upt_conv_Cons map_Suc_upt [symmetric] del: upt_Suc)
  then show ?thesis by (induction before arbitrary: d) (auto simp: Let_def)
qed

text \<open>Reconnection backs off and recovers: the pause after an attempt is always between one and thirty seconds;
  after a connection that was established it starts again at one second and doubles with every further
  attempt that is not.\<close>

theorem reconnect_backoff:
  assumes "fst (attempt_connection c did secret lanes_var a)"
    and "\<forall>b \<in> set after. \<not> fst (attempt_connection c did secret lanes_var b)"
  shows "(\<forall>(acts, d) \<in> set (run_client c did secret lanes_var 1 (before @ a # after)). 1 \<le> d \<and> d \<le> 30) \<and>
     map snd (run_client c did secret lanes_var 1 (before @ a # after)) =
       map snd (run_client c did secret lanes_var 1 before) @ map (\<lambda>i. min (2 ^ i) 30) [0..<Suc (length after)]"
proof -
  let ?e = "\<lambda>a. fst (attempt_connection c did secret lanes_var a)"
  have after: "map ?e after = replicate (length after) False"
    using assms(2) by (intro replicate_eqI) auto
  have "map snd (run_client c did secret lanes_var 1 (before @ a # after)) =
      backoff 1 (map ?e before @ True # replicate (length after) False)"
    using assms(1) after by (simp add: run_client_backoff)
  also have "\<dots> = backoff 1 (map ?e before) @ map (\<lambda>i. min (2 ^ i) 30) [0..<Suc (length after)]"
    by (rule backoff_restarts)
  finally have m: "map snd (run_client c did secret lanes_var 1 (before @ a # after)) =
       map snd (run_client c did secret lanes_var 1 before) @ map (\<lambda>i. min (2 ^ i) 30) [0..<Suc (length after)]"
    by (simp add: run_client_backoff)
  have "1 \<le> d \<and> d \<le> 30" if "(acts, d) \<in> set (run_client c did secret lanes_var 1 (before @ a # after))" for acts d
  proof -
    have "d \<in> set (map snd (run_client c did secret lanes_var 1 (before @ a # after)))" using that by force
    then show ?thesis unfolding run_client_backoff by (rule backoff_bounded [rotated 2]) simp_all
  qed
  with m show ?thesis by blast
qed

definition sample_client_attempt :: "bool \<Rightarrow> client_attempt" where
  "sample_client_attempt up = \<lparr>ka_connected = up, ka_exporter = (\<lambda>n. Some (replicate 32 4)), ka_now = Some 1000, ka_nonce = replicate 16 3,
     ka_server = (\<lambda>p. Some (map of_char ''OK'')), ka_start = 5, ka_events = [], ka_prefaces = [], ka_lane_events = []\<rparr>"

lemma sample_client_attempt_established: "fst (attempt_connection sum_crypto 7 [1, 2] None (sample_client_attempt up)) = up"
  by (simp add: attempt_connection_def sample_client_attempt_def authenticate_client_def client_proof_def client_reply_def parse_stream_lanes_def)

theorem reconnect_backoff_witness:
  "map snd (run_client sum_crypto 7 [1, 2] None 1 ([] @ sample_client_attempt True # replicate 6 (sample_client_attempt False))) =
     [1, 2, 4, 8, 16, 30, 30]"
  using reconnect_backoff [of sum_crypto 7 "[1, 2]" None "sample_client_attempt True" "replicate 6 (sample_client_attempt False)" "[]"]
  by (simp add: sample_client_attempt_established upt_conv_Cons)

text \<open>The reported loss rate never exceeds one million parts and is the exact floor of the measured rate.\<close>

lemma wire_loss_exact:
  assumes "wire_loss_ppm s l = Some ppm"
  shows "unat ppm = min ((unat l * 1000000) div unat s) 1000000"
proof -
  have "unat (of_nat (min k 1000000) :: u32) = min k 1000000" for k
    by (simp add: unat_of_nat)
  then show ?thesis using assms by (auto simp: wire_loss_ppm_def split: if_splits)
qed

end
