(* ===== verification/Carrier_Flight.thy ===== *)
theory Carrier_Flight
  imports Quic_Relay
begin

text \<open>
  Many datagrams in flight over one QUIC connection.  The reassembly of \<open>Quic_Carrier\<close> is shown to
  refine a specification without state tables, clocks or limits: a datagram comes out when the last of
  its fragments arrives.  On top of it the two ends of a connection are composed.
\<close>

section \<open>Specification\<close>

text \<open>A flight is a list of messages, each with its number and the parts its datagram is cut into.\<close>

type_synonym flight = "(u64 \<times> bytes list) list"

definition message_frames :: "u64 \<times> bytes list \<Rightarrow> bytes list" where
  "message_frames x = carrier_frames (fst x) (snd x)"

definition flight_ok :: "flight \<Rightarrow> bool" where
  "flight_ok M \<longleftrightarrow> distinct (map fst M) \<and>
     (\<forall>(m, parts) \<in> set M. parts \<noteq> [] \<and> length parts \<le> 128 \<and> length (concat parts) \<le> MAX_DATAGRAM)"

text \<open>What a fragment completes when the fragments \<open>seen\<close> have arrived before it.\<close>

definition completes :: "flight \<Rightarrow> bytes set \<Rightarrow> bytes \<Rightarrow> bytes option" where
  "completes M seen f =
     (case find (\<lambda>x. f \<in> set (message_frames x)) M of
        None \<Rightarrow> None
      | Some x \<Rightarrow> if set (message_frames x) \<subseteq> insert f seen then Some (concat (snd x)) else None)"

fun flight_run :: "flight \<Rightarrow> bytes set \<Rightarrow> bytes list \<Rightarrow> bytes option list" where
  "flight_run M seen [] = []"
| "flight_run M seen (f # fs) = completes M seen f # flight_run M (insert f seen) fs"

section \<open>Fragments of a flight\<close>

lemma message_frames_header:
  assumes "flight_ok M" and "x \<in> set M" and "f \<in> set (message_frames x)"
  shows "\<exists>ix. ix < length (snd x) \<and> f = carrier_fragment (fst x) ix (length (snd x)) (snd x ! ix)"
    and "\<exists>ix. carrier_header f = Inr (fst x, ix, length (snd x))"
proof -
  have "length (snd x) \<le> 128" using assms(1,2) by (auto simp: flight_ok_def)
  then show "\<exists>ix. carrier_header f = Inr (fst x, ix, length (snd x))"
    using carrier_frames_header(1) assms(3) unfolding message_frames_def by blast
  show "\<exists>ix. ix < length (snd x) \<and> f = carrier_fragment (fst x) ix (length (snd x)) (snd x ! ix)"
    using assms(3) by (simp add: message_frames_def carrier_frames_mem)
qed

lemma flight_key: "flight_ok M \<Longrightarrow> x \<in> set M \<Longrightarrow> y \<in> set M \<Longrightarrow> fst x = fst y \<Longrightarrow> x = y"
proof -
  assume "flight_ok M" "x \<in> set M" "y \<in> set M" "fst x = fst y"
  moreover from this(1) have "inj_on fst (set M)" by (simp add: flight_ok_def distinct_map)
  ultimately show "x = y" by (blast dest: inj_onD)
qed

lemma message_unique:
  assumes "flight_ok M" and "x \<in> set M" and "y \<in> set M" and "f \<in> set (message_frames x)" and "f \<in> set (message_frames y)"
  shows "x = y"
proof -
  have "fst x = fst y"
    using message_frames_header(2) [OF assms(1,2,4)] message_frames_header(2) [OF assms(1,3,5)] by auto
  then show ?thesis using flight_key [OF assms(1-3)] by blast
qed

lemma find_message:
  assumes "flight_ok M" and "x \<in> set M" and "f \<in> set (message_frames x)"
  shows "find (\<lambda>x. f \<in> set (message_frames x)) M = Some x"
proof -
  obtain y where y: "find (\<lambda>x. f \<in> set (message_frames x)) M = Some y"
    using assms(2,3) find_None_iff [of "\<lambda>x. f \<in> set (message_frames x)" M] by (meson not_None_eq)
  then have "y \<in> set M" "f \<in> set (message_frames y)" by (auto simp: find_Some_iff)
  with message_unique [OF assms(1,2) _ assms(3)] y show ?thesis by blast
qed

lemma completes_message:
  assumes "flight_ok M" and "x \<in> set M" and "f \<in> set (message_frames x)"
  shows "completes M seen f = (if set (message_frames x) \<subseteq> insert f seen then Some (concat (snd x)) else None)"
  using find_message [OF assms] by (simp add: completes_def)

lemma message_foreign:
  assumes "flight_ok M" and "x \<in> set M" and "y \<in> set M" and "x \<noteq> y" and "f \<in> set (message_frames x)"
  shows "foreign (fst y) f"
proof -
  have "fst x \<noteq> fst y" using flight_key [OF assms(1-3)] assms(4) by blast
  then show ?thesis using message_frames_header(2) [OF assms(1,2,5)] by (auto simp: foreign_def)
qed

section \<open>Refinement\<close>

text \<open>The slots of a message that hold a part: those whose fragments have arrived, none once it is complete.\<close>

definition pending :: "u64 \<times> bytes list \<Rightarrow> bytes set \<Rightarrow> nat set" where
  "pending x seen = (if set (message_frames x) \<subseteq> seen then {}
     else {ix. ix < length (snd x) \<and> carrier_fragment (fst x) ix (length (snd x)) (snd x ! ix) \<in> seen})"

definition flight_rel :: "flight \<Rightarrow> instant \<Rightarrow> bytes set \<Rightarrow> carrier \<Rightarrow> bool" where
  "flight_rel M t0 seen cr \<longleftrightarrow> carrier_inv cr \<and> (\<forall>x \<in> set M. carrier_rel (fst x) (snd x) t0 (pending x seen) cr)"

lemma pending_other:
  assumes "flight_ok M" and "x \<in> set M" and "y \<in> set M" and "x \<noteq> y" and "f \<in> set (message_frames x)"
  shows "pending y (insert f seen) = pending y seen"
proof -
  have "f \<notin> set (message_frames y)" using message_unique [OF assms(1-3,5)] assms(4) by blast
  moreover have "carrier_fragment (fst y) ix (length (snd y)) (snd y ! ix) \<in> set (message_frames y)" if "ix < length (snd y)" for ix
    using that by (auto simp: message_frames_def carrier_frames_mem)
  ultimately show ?thesis unfolding pending_def by auto
qed

text \<open>How a fragment of a message changes the slots of the message that hold a part.\<close>

lemma pending_own:
  assumes ok: "flight_ok M" and x: "x \<in> set M" "f \<in> set (message_frames x)" "f \<notin> seen"
  obtains ix where "ix < length (snd x)" and "f = carrier_fragment (fst x) ix (length (snd x)) (snd x ! ix)"
    and "insert ix (pending x seen) = {..<length (snd x)} \<longleftrightarrow> set (message_frames x) \<subseteq> insert f seen"
    and "pending x (insert f seen) = (if set (message_frames x) \<subseteq> insert f seen then {} else insert ix (pending x seen))"
    and "pending x seen \<subseteq> {..<length (snd x)}"
proof -
  let ?frag = "\<lambda>ix. carrier_fragment (fst x) ix (length (snd x)) (snd x ! ix)"
  let ?S = "{ix. ix < length (snd x) \<and> ?frag ix \<in> seen}"
  have n: "length (snd x) \<le> 128" using ok x(1) by (auto simp: flight_ok_def)
  obtain ix where ix: "ix < length (snd x)" "f = ?frag ix" using message_frames_header(1) [OF ok x(1,2)] by blast
  have inj: "?frag j = f \<longleftrightarrow> j = ix" if "j < length (snd x)" for j
    using carrier_fragment_inj [OF _ that ix(1) n] ix(2) by blast
  have "\<not> set (message_frames x) \<subseteq> seen" using x(2,3) by blast
  then have S: "pending x seen = ?S" by (simp add: pending_def)
  have frames: "set (message_frames x) = ?frag ` {..<length (snd x)}"
    by (auto simp: message_frames_def carrier_frames_mem)
  have "insert ix ?S = {..<length (snd x)} \<longleftrightarrow> (\<forall>j < length (snd x). j = ix \<or> ?frag j \<in> seen)" using ix(1) by auto
  also have "\<dots> \<longleftrightarrow> (\<forall>j < length (snd x). ?frag j \<in> insert f seen)" using inj by (metis insert_iff)
  also have "\<dots> \<longleftrightarrow> set (message_frames x) \<subseteq> insert f seen" unfolding frames by auto
  finally have full: "insert ix ?S = {..<length (snd x)} \<longleftrightarrow> set (message_frames x) \<subseteq> insert f seen" .
  have "{j. j < length (snd x) \<and> ?frag j \<in> insert f seen} = insert ix ?S" using ix(1) inj by auto
  then have "pending x (insert f seen) = (if set (message_frames x) \<subseteq> insert f seen then {} else insert ix ?S)"
    by (simp add: pending_def)
  then show thesis using that [OF ix] full unfolding S by blast
qed

lemma flight_step:
  assumes ok: "flight_ok M" and rel: "flight_rel M t0 seen cr" and x: "x \<in> set M" "f \<in> set (message_frames x)" "f \<notin> seen"
    and now: "t0 \<le> now" "now \<le> t0 + CARRIER_TTL" and room: "length cr < MAX_CARRIER_GROUPS"
  shows "\<exists>cr'. carrier_push now cr f = (cr', Inr (completes M seen f)) \<and> flight_rel M t0 (insert f seen) cr'"
proof -
  have n: "length (snd x) \<le> 128" "length (concat (snd x)) \<le> MAX_DATAGRAM" using ok x(1) by (auto simp: flight_ok_def)
  obtain ix where ix: "ix < length (snd x)" "f = carrier_fragment (fst x) ix (length (snd x)) (snd x ! ix)"
    and full: "insert ix (pending x seen) = {..<length (snd x)} \<longleftrightarrow> set (message_frames x) \<subseteq> insert f seen"
    and new: "pending x (insert f seen) = (if set (message_frames x) \<subseteq> insert f seen then {} else insert ix (pending x seen))"
    and sub: "pending x seen \<subseteq> {..<length (snd x)}"
    by (rule pending_own [OF ok x])
  have inv: "carrier_inv cr" and all: "\<forall>y \<in> set M. carrier_rel (fst y) (snd y) t0 (pending y seen) cr"
    using rel by (simp_all add: flight_rel_def)
  note own = bspec [OF all x(1)]
  obtain cr' where p: "carrier_push now cr f = (cr', Inr (completes M seen f))"
    and r: "carrier_rel (fst x) (snd x) t0 (pending x (insert f seen)) cr'"
  proof (cases "set (message_frames x) \<subseteq> insert f seen")
    case True
    from carrier_push_own(2) [OF inv own now room ix(1) n(1) ix(2) full [THEN iffD2, OF True] n(2)] that show thesis
      using True completes_message [OF ok x(1,2), of seen] new by (auto simp: carrier_rel_def)
  next
    case False
    then have "insert ix (pending x seen) \<noteq> {..<length (snd x)}" using full by blast
    from carrier_push_own(1) [OF inv own now room ix(1) n(1) ix(2) this sub] that show thesis
      using False completes_message [OF ok x(1,2), of seen] new by auto
  qed
  have "carrier_rel (fst y) (snd y) t0 (pending y (insert f seen)) cr'" if y: "y \<in> set M" for y
  proof (cases "y = x")
    case False
    have fo: "foreign (fst y) f" using message_foreign [OF ok x(1) y _ x(2)] False by blast
    have "pending y (insert f seen) = pending y seen" using pending_other [OF ok x(1) y _ x(2)] False by blast
    then show ?thesis using carrier_push_foreign [OF inv _ now(2) fo] all y p by (metis fst_conv)
  qed (use r in simp)
  moreover have "carrier_inv cr'" using carrier_push_inv [OF inv, of now f] p by simp
  ultimately show ?thesis using p unfolding flight_rel_def by blast
qed

lemma flight_refines:
  assumes "flight_ok M" and "flight_rel M t0 seen cr" and "length cr + length xs \<le> MAX_CARRIER_GROUPS"
    and "distinct (map snd xs)" and "snd ` set xs \<inter> seen = {}" and "snd ` set xs \<subseteq> (\<Union>x \<in> set M. set (message_frames x))"
    and "\<forall>(now, f) \<in> set xs. t0 \<le> now \<and> now \<le> t0 + CARRIER_TTL"
  shows "\<exists>cr'. carrier_run cr xs = (cr', map Inr (flight_run M seen (map snd xs)))"
  using assms(2-)
proof (induction xs arbitrary: cr seen)
  case Nil
  then show ?case by simp
next
  case (Cons a xs)
  obtain now f where a: "a = (now, f)" by fastforce
  obtain x where x: "x \<in> set M" "f \<in> set (message_frames x)" using Cons.prems(5) a by auto
  have now: "f \<notin> seen" "t0 \<le> now" "now \<le> t0 + CARRIER_TTL" "length cr < MAX_CARRIER_GROUPS" using Cons.prems a by auto
  obtain cr1 where c1: "carrier_push now cr f = (cr1, Inr (completes M seen f))" "flight_rel M t0 (insert f seen) cr1"
    using flight_step [OF assms(1) Cons.prems(1) x now] by blast
  have "length cr1 \<le> Suc (length cr)" using length_carrier_push [of now cr f] c1(1) by simp
  then obtain cr' where "carrier_run cr1 xs = (cr', map Inr (flight_run M (insert f seen) (map snd xs)))"
    using Cons.IH [OF c1(2)] Cons.prems a by force
  then show ?case using c1(1) a by simp
qed

section \<open>What comes out\<close>

definition somes :: "'a option list \<Rightarrow> 'a list" where
  "somes xs = map the (filter (\<lambda>x. x \<noteq> None) xs)"

lemma somes_simps [simp]: "somes [] = []" "somes (None # xs) = somes xs" "somes (Some x # xs) = x # somes xs"
  by (simp_all add: somes_def)

definition arrived :: "flight \<Rightarrow> bytes set \<Rightarrow> bytes list" where
  "arrived M fs = map (\<lambda>x. concat (snd x)) (filter (\<lambda>x. set (message_frames x) \<subseteq> fs) M)"

lemma mset_filter_split:
  assumes "\<And>x. x \<in> set xs \<Longrightarrow> P x \<longleftrightarrow> A x \<or> B x" and "\<And>x. x \<in> set xs \<Longrightarrow> \<not> (A x \<and> B x)"
  shows "mset (filter P xs) = mset (filter A xs) + mset (filter B xs)"
  using assms by (induction xs) auto

lemma filter_single: "distinct xs \<Longrightarrow> x \<in> set xs \<Longrightarrow> filter (\<lambda>y. y = x) xs = [x]"
  by (induction xs) (auto simp: filter_empty_conv)

lemma flight_run_outputs:
  assumes ok: "flight_ok M" and "distinct fs" and "set fs \<inter> seen = {}" and "set fs \<subseteq> (\<Union>x \<in> set M. set (message_frames x))"
  shows "mset (somes (flight_run M seen fs)) =
    mset (map (\<lambda>x. concat (snd x)) (filter (\<lambda>x. set (message_frames x) \<subseteq> seen \<union> set fs \<and> \<not> set (message_frames x) \<subseteq> seen) M))"
  using assms(2-)
proof (induction fs arbitrary: seen)
  case Nil
  then show ?case by simp
next
  case (Cons f fs)
  obtain x where x: "x \<in> set M" "f \<in> set (message_frames x)" using Cons.prems(3) by auto
  have f: "f \<notin> seen" "f \<notin> set fs" using Cons.prems(1,2) by auto
  let ?P = "\<lambda>y. set (message_frames y) \<subseteq> seen \<union> set (f # fs) \<and> \<not> set (message_frames y) \<subseteq> seen"
  let ?A = "\<lambda>y. set (message_frames y) \<subseteq> insert f seen \<and> \<not> set (message_frames y) \<subseteq> seen"
  let ?B = "\<lambda>y. set (message_frames y) \<subseteq> insert f seen \<union> set fs \<and> \<not> set (message_frames y) \<subseteq> insert f seen"
  have IH: "mset (somes (flight_run M (insert f seen) fs)) = mset (map (\<lambda>x. concat (snd x)) (filter ?B M))"
    by (rule Cons.IH) (use Cons.prems f in auto)
  have "distinct M" using ok by (auto simp: flight_ok_def distinct_map)
  have "?A y \<longleftrightarrow> set (message_frames x) \<subseteq> insert f seen \<and> y = x" if "y \<in> set M" for y
  proof -
    have "f \<in> set (message_frames y)" if "?A y" using that by auto
    then have "?A y \<Longrightarrow> y = x" using message_unique [OF ok \<open>y \<in> set M\<close> x(1) _ x(2)] by blast
    then show ?thesis using x(2) f(1) by blast
  qed
  then have A: "filter ?A M = (if set (message_frames x) \<subseteq> insert f seen then [x] else [])"
    using filter_single [OF \<open>distinct M\<close> x(1)] by (auto simp: filter_empty_conv cong: filter_cong)
  have "mset (filter ?P M) = mset (filter ?A M) + mset (filter ?B M)"
    by (rule mset_filter_split) auto
  then have "mset (map (\<lambda>x. concat (snd x)) (filter ?P M)) = mset (map (\<lambda>x. concat (snd x)) (filter ?A M)) + mset (map (\<lambda>x. concat (snd x)) (filter ?B M))"
    by simp
  then show ?case
    using completes_message [OF ok x, of seen] IH unfolding A by simp
qed

lemma flight_delivers:
  assumes "flight_ok M" and "distinct fs" and "set fs \<subseteq> (\<Union>x \<in> set M. set (message_frames x))"
  shows "mset (somes (flight_run M {} fs)) = mset (arrived M (set fs))"
proof -
  have "\<not> set (message_frames x) \<subseteq> {}" if "x \<in> set M" for x
    using that assms(1) by (auto simp: flight_ok_def message_frames_def carrier_frames_def)
  then have "filter (\<lambda>x. set (message_frames x) \<subseteq> {} \<union> set fs \<and> \<not> set (message_frames x) \<subseteq> {}) M = filter (\<lambda>x. set (message_frames x) \<subseteq> set fs) M"
    by (auto intro: filter_cong)
  then show ?thesis
    using flight_run_outputs [OF assms(1,2) _ assms(3), of "{}"] unfolding arrived_def by (simp only: Int_empty_right simp_thms)
qed

section \<open>The two ends of a connection\<close>

text \<open>The client's end sends one message per datagram, with consecutive numbers.\<close>

definition local_event :: "nat option \<times> (nat \<Rightarrow> bool) \<times> bytes \<times> addr \<Rightarrow> relay_client_event" where
  "local_event d = (case d of (maximum, ok, datagram, peer) \<Rightarrow> LocalIn maximum ok datagram peer)"

definition payload_of :: "nat option \<times> (nat \<Rightarrow> bool) \<times> bytes \<times> addr \<Rightarrow> bytes" where
  "payload_of d = fst (snd (snd d))"

fun flight_of :: "u64 \<Rightarrow> (nat option \<times> (nat \<Rightarrow> bool) \<times> bytes \<times> addr) list \<Rightarrow> flight" where
  "flight_of message [] = []"
| "flight_of message ((maximum, ok, datagram, peer) # ds) =
     (message + 1, carrier_parts (case maximum of None \<Rightarrow> 0 | Some m \<Rightarrow> m) datagram) # flight_of (message + 1) ds"

lemma flight_of_ids: "map fst (flight_of message ds) = map (\<lambda>i. message + of_nat (Suc i)) [0..<length ds]"
proof (induction message ds rule: flight_of.induct)
  case (2 message maximum ok datagram peer ds)
  then show ?case
    by (simp add: upt_conv_Cons map_Suc_upt [symmetric] add.commute add.left_commute del: upt_Suc)
qed simp

lemma client_flight:
  assumes "event_loop relay_client_step client (map local_event ds) = (client', acts, Inr ())"
  shows "acts = map RelaySend (concat (map message_frames (flight_of (rc_message client) ds))) \<and>
     map (\<lambda>x. concat (snd x)) (flight_of (rc_message client) ds) = map payload_of ds \<and>
     (\<forall>x \<in> set (flight_of (rc_message client) ds). snd x \<noteq> [] \<and> length (snd x) \<le> 128)"
  using assms
proof (induction ds arbitrary: client acts)
  case Nil
  then show ?case by simp
next
  case (Cons d ds)
  obtain maximum ok datagram peer where d: "d = (maximum, ok, datagram, peer)" by (metis prod.exhaust)
  obtain message frames res where s: "send_carrier maximum ok datagram (rc_message client) = (message, frames, res)" by (metis prod.exhaust)
  have ev: "local_event d = LocalIn maximum ok datagram peer" by (simp add: local_event_def d)
  let ?client = "client\<lparr>rc_peer := Some peer, rc_message := message\<rparr>"
  obtain acts' where res: "res = Inr ()" and rest: "event_loop relay_client_step ?client (map local_event ds) = (client', acts', Inr ())"
    and acts: "acts = map RelaySend frames @ acts'"
    using Cons.prems s ev by (auto split: prod.splits sum.splits)
  obtain m where m: "maximum = Some m" "CARRIER_HEADER < m" "message = rc_message client + 1" "length (carrier_parts m datagram) \<le> 128"
    "frames = carrier_frames message (carrier_parts m datagram)"
    using send_carrier_frames [OF s [unfolded res]] by blast
  have ne: "carrier_parts m datagram \<noteq> []"
    using concat_carrier_parts [OF m(2), of datagram] by (auto simp: carrier_parts_def split: if_splits)
  show ?case
    using Cons.IH [OF rest] acts m ne d
    by (simp add: message_frames_def [of "(x, y)" for x y] payload_of_def concat_carrier_parts)
qed

lemma consecutive_distinct: "n < 2 ^ 64 \<Longrightarrow> distinct (map (\<lambda>i. (a :: u64) + of_nat (Suc i)) [0..<n])"
proof -
  assume n: "n < 2 ^ 64"
  have "i = j" if "(of_nat (Suc i) :: u64) = of_nat (Suc j)" "i < n" "j < n" for i j
    using that n by (simp add: word_of_nat_eq_iff take_bit_eq_mod del: of_nat_Suc)
  then show ?thesis by (auto simp: distinct_map inj_on_def simp del: of_nat_Suc)
qed

text \<open>The server's end forwards what the reassembly completes.\<close>

lemma server_flight:
  assumes "carrier_run (rl_received r) xs = (cr, map Inr outs)" and "\<forall>(now, f) \<in> set xs. f \<noteq> CARRIER_PING"
  shows "event_loop relay_step r (map (\<lambda>(now, f). CarrierIn now f True) xs) =
     (r\<lparr>rl_received := cr\<rparr>, map RelayUpstream (somes outs), Inr ())"
  using assms
proof (induction xs arbitrary: r outs)
  case Nil
  then show ?case by simp
next
  case (Cons x xs)
  obtain now f where x: "x = (now, f)" by fastforce
  obtain cr1 o1 outs' where p: "carrier_push now (rl_received r) f = (cr1, Inr o1)" "carrier_run cr1 xs = (cr, map Inr outs')" "outs = o1 # outs'"
    using Cons.prems(1) x by (cases outs) (auto split: prod.splits)
  have "relay_step r (CarrierIn now f True) = (r\<lparr>rl_received := cr1\<rparr>, map RelayUpstream (somes [o1]), Inr ())"
    using p(1) Cons.prems(2) x by (cases o1) (auto simp: sent_def)
  moreover have "event_loop relay_step (r\<lparr>rl_received := cr1\<rparr>) (map (\<lambda>(now, f). CarrierIn now f True) xs) =
      (r\<lparr>rl_received := cr\<rparr>, map RelayUpstream (somes outs'), Inr ())"
    using Cons.IH [of "r\<lparr>rl_received := cr1\<rparr>" outs'] p(2) Cons.prems(2) by simp
  moreover have "somes outs = somes [o1] @ somes outs'" unfolding p(3) by (cases o1) simp_all
  ultimately show ?case using x by (simp del: relay_step.simps)
qed

lemma flight_rel_start:
  assumes "carrier_inv cr" and "\<forall>x \<in> set M. map_of cr (fst x) = None"
  shows "flight_rel M t0 {} cr"
  using assms by (auto simp: flight_rel_def carrier_rel_def pending_def)

lemma flight_frames_header:
  assumes "flight_ok M" and "f \<in> set (concat (map message_frames M))"
  shows "f \<noteq> CARRIER_PING"
proof -
  obtain x where x: "x \<in> set M" "f \<in> set (message_frames x)" using assms(2) by auto
  then have "length (snd x) \<le> 128" using assms(1) by (auto simp: flight_ok_def)
  then show ?thesis using carrier_frames_header(2) x(2) unfolding message_frames_def by blast
qed

lemma client_flight_ok:
  assumes "event_loop relay_client_step client (map local_event ds) = (client', acts, Inr ())"
    and "\<forall>d \<in> set ds. length (payload_of d) \<le> MAX_DATAGRAM" and "length ds < 2 ^ 64"
  shows "flight_ok (flight_of (rc_message client) ds)"
proof -
  note cf = client_flight [OF assms(1)]
  have "length (concat (snd x)) \<le> MAX_DATAGRAM" if "x \<in> set (flight_of (rc_message client) ds)" for x
  proof -
    have "concat (snd x) \<in> (\<lambda>x. concat (snd x)) ` set (flight_of (rc_message client) ds)" using that by blast
    also have "\<dots> = set (map payload_of ds)" using cf by (metis list.set_map)
    finally show ?thesis using assms(2) by auto
  qed
  then show ?thesis
    using consecutive_distinct [OF assms(3)] flight_of_ids [of "rc_message client" ds] cf by (auto simp: flight_ok_def)
qed

lemma relay_flight:
  assumes "event_loop relay_client_step client (map local_event ds) = (client', map RelaySend frames, Inr ())"
    and "\<forall>d \<in> set ds. length (payload_of d) \<le> MAX_DATAGRAM" and "length ds < 2 ^ 64"
    and "carrier_inv (rl_received r)" and "\<forall>i < length ds. map_of (rl_received r) (rc_message client + of_nat (Suc i)) = None"
    and "length (rl_received r) + length xs \<le> MAX_CARRIER_GROUPS"
    and "distinct (map snd xs)" and "set (map snd xs) \<subseteq> set frames" and "\<forall>(now, f) \<in> set xs. t0 \<le> now \<and> now \<le> t0 + CARRIER_TTL"
  shows "\<exists>r' outs. event_loop relay_step r (map (\<lambda>(now, f). CarrierIn now f True) xs) = (r', map RelayUpstream outs, Inr ()) \<and>
     mset outs = mset (arrived (flight_of (rc_message client) ds) (set (map snd xs)))"
proof -
  let ?M = "flight_of (rc_message client) ds"
  have ok: "flight_ok ?M" by (rule client_flight_ok [OF assms(1-3)])
  have frames: "frames = concat (map message_frames ?M)" using client_flight [OF assms(1)] by (simp add: inj_map_eq_map inj_def)
  have "map_of (rl_received r) (fst x) = None" if "x \<in> set ?M" for x
  proof -
    have "fst x \<in> set (map fst ?M)" using that by simp
    then show ?thesis using assms(5) unfolding flight_of_ids by auto
  qed
  then have rel: "flight_rel ?M t0 {} (rl_received r)" using flight_rel_start assms(4) by blast
  have sub: "snd ` set xs \<subseteq> (\<Union>x \<in> set ?M. set (message_frames x))" using assms(8) frames by auto
  obtain cr' where run: "carrier_run (rl_received r) xs = (cr', map Inr (flight_run ?M {} (map snd xs)))"
    using flight_refines [OF ok rel assms(6,7) _ sub assms(9)] by auto
  have "\<forall>(now, f) \<in> set xs. f \<noteq> CARRIER_PING"
    using flight_frames_header [OF ok] assms(8) frames by fastforce
  from server_flight [OF run this] flight_delivers [OF ok assms(7)] sub show ?thesis by auto
qed

section \<open>Properties\<close>


text \<open>Two datagrams; the fragments of the first arrive last and in the wrong order.\<close>

definition sample_flight :: flight where
  "sample_flight = [(1, [[65, 66], [67]]), (2, [[68]])]"

definition late_fragment :: bytes where
  "late_fragment = carrier_fragment 2 0 1 [68]"

definition sample_order :: "(instant \<times> bytes) list" where
  "sample_order = [(5, sample_fragment 1), (6, late_fragment), (7, sample_fragment 0)]"

lemma sample_flight_ok: "flight_ok sample_flight"
  by (simp add: flight_ok_def sample_flight_def MAX_DATAGRAM_def)

lemma sample_message_frames:
  "message_frames (1, [[65, 66], [67]]) = [sample_fragment 0, sample_fragment 1]" "message_frames (2, [[68]]) = [late_fragment]"
  by (simp_all add: message_frames_def carrier_frames_def sample_fragment_def late_fragment_def upt_rec numeral_2_eq_2)

lemma sample_flight_frames: "concat (map message_frames sample_flight) = [sample_fragment 0, sample_fragment 1, late_fragment]"
  by (simp add: sample_flight_def sample_message_frames)

lemma sample_fragments_differ:
  "sample_fragment 0 \<noteq> sample_fragment 1" "sample_fragment 0 \<noteq> late_fragment" "sample_fragment 1 \<noteq> late_fragment"
proof -
  have h: "carrier_header (sample_fragment 0) = Inr (1, 0, 2)" "carrier_header (sample_fragment 1) = Inr (1, 1, 2)"
    "carrier_header late_fragment = Inr (2, 0, 1)"
    unfolding sample_fragment_def late_fragment_def by (simp_all add: carrier_header_fragment)
  show "sample_fragment 0 \<noteq> sample_fragment 1" using h(1,2) by (metis Inr_inject prod.inject zero_neq_one)
  show "sample_fragment 0 \<noteq> late_fragment" "sample_fragment 1 \<noteq> late_fragment" using h by auto
qed

lemmas sample_fragments = sample_fragments_differ [unfolded One_nat_def] sample_fragments_differ [unfolded One_nat_def, symmetric]

lemma sample_order_facts:
  "distinct (map snd sample_order)" "set (map snd sample_order) \<subseteq> set (concat (map message_frames sample_flight))"
  "\<forall>(now, f) \<in> set sample_order. 5 \<le> now \<and> now \<le> 5 + CARRIER_TTL" "length sample_order \<le> MAX_CARRIER_GROUPS"
  unfolding sample_flight_frames by (simp_all add: sample_order_def sample_fragments carrier_consts)

lemma sample_flight_run: "flight_run sample_flight {} (map snd sample_order) = [None, Some [68], Some [65, 66, 67]]"
  by (simp add: sample_order_def sample_flight_def completes_def sample_message_frames sample_fragments)



definition sample_sends :: "(nat option \<times> (nat \<Rightarrow> bool) \<times> bytes \<times> addr) list" where
  "sample_sends = [(Some 14, \<lambda>_. True, [65, 66, 67], 80), (Some 14, \<lambda>_. True, [68], 80)]"

lemma sample_sends_run:
  "\<exists>client'. event_loop relay_client_step (relay_client_new 5) (map local_event sample_sends) =
     (client', map RelaySend (concat (map message_frames sample_flight)), Inr ())"
proof -
  have "send_carrier (Some 14) (\<lambda>_. True) [68] 1 = (2, [late_fragment], Inr ())"
    by (simp add: send_carrier_def carrier_consts div_ceil_def Let_def chunks.simps late_fragment_def)
  then show ?thesis
    using sample_send by (simp add: sample_sends_def local_event_def relay_client_new_def sample_flight_frames)
qed


end
