(* ===== verification/Quic_Tunnel.thy ===== *)
theory Quic_Tunnel
  imports Tunnel_End_To_End Carrier_Flight
begin

text \<open>
  The deployment the repository describes: the datagrams of the tunnel travel inside a QUIC connection.  The
  client's socket leads to \<open>quic-client\<close>, its fragments cross the network to \<open>quic-server\<close>, and what that
  reassembles enters the socket of the tunnel server.  The theorems of the two halves are composed.
\<close>

section \<open>Frames and messages\<close>

text \<open>The frames whose messages arrived whole.\<close>

definition complete_frames :: "frame list \<Rightarrow> flight \<Rightarrow> bytes set \<Rightarrow> frame list" where
  "complete_frames fs M F = map fst (filter (\<lambda>(f, x). set (message_frames x) \<subseteq> F) (zip fs M))"

lemma complete_frames_map: "complete_frames (map g M) M F = map g (filter (\<lambda>x. set (message_frames x) \<subseteq> F) M)"
  by (induction M) (auto simp: complete_frames_def)

lemma survives_mset: "survives fs hs \<Longrightarrow> mset hs' = mset hs \<Longrightarrow> survives fs hs'"
proof -
  assume "survives fs hs" and m: "mset hs' = mset hs"
  have "distinct hs' = distinct hs" "set hs' = set hs" using m by (metis mset_eq_imp_distinct_iff, metis mset_eq_setD)
  moreover have "length (filter P hs') = length (filter P hs)" for P
    using m by (metis mset_filter size_mset)
  ultimately show "survives fs hs'" using \<open>survives fs hs\<close> by (simp add: survives_def)
qed

lemma wire_size:
  assumes "hash_ok c" and "aead_ok c" and "on_wire c k f buf" and "version f = VERSION_V3" and "length (payload f) < 65536"
  shows "length buf = 79 + length (payload f)"
proof -
  obtain nonce suffix where w: "length nonce = V3_NONCE" "length suffix = V3_SELECTOR_PREFIX" "encode_wire c f k nonce suffix = Inr buf"
    using assms(3) by (auto simp: on_wire_def)
  from decode_v3_encode_wire [OF assms(1,2,4,5) w(1,2) [unfolded V3_NONCE_def V3_SELECTOR_PREFIX_def], of k] w(3) show ?thesis by auto
qed

text \<open>The client's send loop skips none of these frames.\<close>

lemma send_frames_on_wire:
  assumes "hash_ok c" and "aead_ok c" and "\<forall>i. length (fst (rnd i)) = V3_NONCE \<and> length (snd (rnd i)) = V3_SELECTOR_PREFIX"
    and "\<forall>f \<in> set fs. version f = VERSION_V3 \<and> length (payload f) < 65536"
  shows "list_all2 (on_wire c k) fs (send_frames c k rnd fs)"
proof -
  let ?enc = "\<lambda>i. encode_wire c (fs ! i) k (fst (rnd i)) (snd (rnd i))"
  have enc: "\<exists>buf. ?enc i = Inr buf" if "i < length fs" for i
  proof -
    have "version (fs ! i) = VERSION_V3" "length (payload (fs ! i)) < 65536" using assms(4) that by simp_all
    from decode_v3_encode_wire [OF assms(1,2) this] assms(3) show ?thesis
      by (metis V3_NONCE_def V3_SELECTOR_PREFIX_def)
  qed
  have "List.map_filter (\<lambda>i. case ?enc i of Inl _ \<Rightarrow> None | Inr buf \<Rightarrow> Some buf) xs = map (\<lambda>i. projr (?enc i)) xs"
    if "\<forall>i \<in> set xs. i < length fs" for xs
    using that by (induction xs) (auto simp: map_filter_simps dest!: enc)
  then have "send_frames c k rnd fs = map (\<lambda>i. projr (?enc i)) [0..<length fs]" by (simp add: send_frames_def)
  then show ?thesis
    using enc assms(3) by (fastforce simp: list_all2_conv_all_nth on_wire_def)
qed

text \<open>Where the wire datagrams of the burst decode to its frames, those the relay completes decode to the complete frames.\<close>

lemma arrived_frames:
  assumes "map g wires = fs" and "map (\<lambda>x. concat (snd x)) M = wires"
  shows "map g (arrived M F) = complete_frames fs M F"
proof -
  have "fs = map (\<lambda>x. g (concat (snd x))) M" using assms by auto
  then show ?thesis by (simp add: complete_frames_map arrived_def)
qed

definition decoded :: "crypto \<Rightarrow> (bytes \<times> (u64 \<times> bytes)) list \<Rightarrow> bytes \<Rightarrow> frame" where
  "decoded c sel w = fst (projr (decode_server_frame c w sel))"

lemma burst_wires:
  assumes "hash_ok c" and "aead_ok c" and "list_all2 (on_wire c k) fs wires"
    and "\<forall>f \<in> set fs. version f = VERSION_V3 \<and> length (payload f) < 65536 \<and> key_id f = kid"
    and "map_of sel (v3_selector_prefix c kid) = Some (kid, k)" and "v3_selector_prefix c kid \<noteq> be_bytes 4 MAGIC"
  shows "map (decoded c sel) wires = fs"
proof -
  have "list_all2 (\<lambda>f w. decoded c sel w = f) fs wires"
    using assms(3)
  proof (rule list.rel_mono_strong)
    fix f w
    assume "f \<in> set fs" "on_wire c k f w"
    then show "decoded c sel w = f"
      using wire_decodes(1) [OF assms(1,2), of k f w sel] assms(4-) by (simp add: decoded_def)
  qed
  then show ?thesis by (induction rule: list_all2_induct) auto
qed

text \<open>What the relay hands to the tunnel server is processed: every datagram once, in any order and among any other events.\<close>

definition takes_in :: "crypto \<Rightarrow> (bytes \<times> (u64 \<times> bytes)) list \<Rightarrow> u64 \<times> u64 \<Rightarrow> bytes list \<Rightarrow> server_event list \<Rightarrow> bool" where
  "takes_in c sel sk outs evs \<longleftrightarrow> mset (map snd (processed c sel sk [] evs)) = mset (map (decoded c sel) outs)"

section \<open>Properties\<close>


text \<open>Three frames in three QUIC datagrams, of which the second is lost and the third overtakes the first.\<close>

lemma send_single:
  assumes "w \<noteq> []" and "length w \<le> 1988"
  shows "send_carrier (Some 2000) (\<lambda>_. True) w message = (message + 1, [carrier_fragment (message + 1) 0 1 w], Inr ())"
    and "carrier_parts 2000 w = [w]"
proof -
  have c: "chunks 1988 w = [w]" using assms by (subst chunks.simps) simp
  then show "carrier_parts 2000 w = [w]" using assms(1) by (simp add: carrier_parts_def CARRIER_HEADER_def)
  have "max (length w) 1 = length w" "0 < length w" using assms(1) by (cases w; simp)+
  then have "div_ceil (max (length w) 1) 1988 = 1"
    using assms(2) by (cases "length w = 1988") (simp_all add: div_ceil_def)
  then show "send_carrier (Some 2000) (\<lambda>_. True) w message = (message + 1, [carrier_fragment (message + 1) 0 1 w], Inr ())"
    using c assms(1) by (simp add: send_carrier_def carrier_consts Let_def)
qed

definition quic_sends :: "(nat option \<times> (nat \<Rightarrow> bool) \<times> bytes \<times> addr) list" where
  "quic_sends = map (\<lambda>f. (Some 2000, \<lambda>_. True, sample_wire f, 80)) sample_frames"

definition quic_fragment :: "nat \<Rightarrow> bytes" where
  "quic_fragment i = carrier_fragment (of_nat (Suc i)) 0 1 (sample_wire (sample_frames ! i))"

definition quic_order :: "(instant \<times> bytes) list" where
  "quic_order = [(5, quic_fragment 2), (6, quic_fragment 0)]"

definition live_server_entry :: session_entry where
  "live_server_entry = live_entry\<lparr>s_worker := (worker_new 7 VERSION_V3 9 (Some 1))\<lparr>w_decoder := sample_decoder\<rparr>\<rparr>"

lemma sample_wire_length:
  assumes "f \<in> set sample_frames"
  shows "sample_wire f \<noteq> []" "length (sample_wire f) \<le> 1988"
proof -
  have "version f = VERSION_V3" "length (payload f) \<le> 1340"
    using assms by (auto simp: sample_frames_def shard_frame_def sample_encoder_eq shard_consts make_shard_def)
  then have "length (sample_wire f) = 79 + length (payload f)"
    using wire_size [OF hash_ok_sum_crypto aead_ok_sum_crypto sample_wire_encodes] assms by simp
  with \<open>length (payload f) \<le> 1340\<close> show "sample_wire f \<noteq> []" "length (sample_wire f) \<le> 1988" by auto
qed

lemma sample_frames_list: "sample_frames = [sample_frames ! 0, sample_frames ! 1, sample_frames ! 2]"
  by (simp add: sample_frames_def)

lemma quic_sends_list:
  "quic_sends = [(Some 2000, \<lambda>_. True, sample_wire (sample_frames ! 0), 80), (Some 2000, \<lambda>_. True, sample_wire (sample_frames ! 1), 80),
     (Some 2000, \<lambda>_. True, sample_wire (sample_frames ! 2), 80)]"
  unfolding quic_sends_def by (subst sample_frames_list) (simp only: list.map)

lemma quic_flight:
  "flight_of 0 quic_sends = [(1, [sample_wire (sample_frames ! 0)]), (2, [sample_wire (sample_frames ! 1)]), (3, [sample_wire (sample_frames ! 2)])]"
  "map message_frames (flight_of 0 quic_sends) = [[quic_fragment 0], [quic_fragment 1], [quic_fragment 2]]"
proof -
  have "sample_frames ! i \<in> set sample_frames" if "i < 3" for i using that sample_frame_fields(2) by simp
  then show fl: "flight_of 0 quic_sends = [(1, [sample_wire (sample_frames ! 0)]), (2, [sample_wire (sample_frames ! 1)]), (3, [sample_wire (sample_frames ! 2)])]"
    using send_single(2) [OF sample_wire_length] by (simp add: quic_sends_list)
  show "map message_frames (flight_of 0 quic_sends) = [[quic_fragment 0], [quic_fragment 1], [quic_fragment 2]]"
    by (simp add: fl message_frames_def carrier_frames_def quic_fragment_def upt_rec)
qed

lemma quic_relay_run:
  "\<exists>relay'. event_loop relay_client_step (relay_client_new 5) (map local_event quic_sends) =
     (relay', map RelaySend [quic_fragment 0, quic_fragment 1, quic_fragment 2], Inr ())"
proof -
  have "sample_frames ! i \<in> set sample_frames" if "i < 3" for i using that sample_frame_fields(2) by simp
  note s = send_single(1) [OF sample_wire_length [OF this]]
  show ?thesis
    using s [of 0 0] s [of 1 1] s [of 2 2] by (simp add: quic_sends_list local_event_def relay_client_new_def quic_fragment_def)
qed

lemma quic_fragments_differ: "i < 3 \<Longrightarrow> j < 3 \<Longrightarrow> quic_fragment i = quic_fragment j \<longleftrightarrow> i = j"
proof -
  assume ij: "i < 3" "j < 3"
  have h: "carrier_header (quic_fragment i) = Inr (of_nat (Suc i), 0, 1)" for i
    unfolding quic_fragment_def by (rule carrier_header_fragment) simp_all
  have "i = j" if "quic_fragment i = quic_fragment j"
  proof -
    have "(of_nat (Suc i) :: u64) = of_nat (Suc j)" using h [of i] h [of j] that by simp
    then show ?thesis using ij by (simp add: word_of_nat_eq_iff take_bit_eq_mod del: of_nat_Suc)
  qed
  then show "quic_fragment i = quic_fragment j \<longleftrightarrow> i = j" by blast
qed

lemma quic_complete:
  "complete_frames sample_frames (flight_of 0 quic_sends) (set (map snd quic_order)) = [sample_frames ! 0, sample_frames ! 2]"
proof -
  have d: "quic_fragment 1 \<noteq> quic_fragment 2" "quic_fragment 1 \<noteq> quic_fragment 0"
    using quic_fragments_differ [of 1 2] quic_fragments_differ [of 1 0] by simp_all
  obtain x y z where xyz: "flight_of 0 quic_sends = [x, y, z]" "message_frames x = [quic_fragment 0]" "message_frames y = [quic_fragment 1]"
    "message_frames z = [quic_fragment 2]"
    using quic_flight by auto
  have "zip sample_frames [x, y, z] = [(sample_frames ! 0, x), (sample_frames ! 1, y), (sample_frames ! 2, z)]"
    by (subst (1) sample_frames_list) simp
  then show ?thesis using d by (simp add: complete_frames_def xyz quic_order_def)
qed

definition quic_server :: server_state where
  "quic_server = idle_server\<lparr>srv_sessions := [((9, 7), live_server_entry)]\<rparr>"

lemma sample_decoder_inv: "decoder_inv sample_decoder" "d_session sample_decoder = 7"
proof -
  show "decoder_inv sample_decoder"
    unfolding sample_decoder_def using decoder_frame_inv [OF decoder_inv_new rs_shape_xor] by blast
qed (simp add: sample_decoder_eq decoder_new_def)

lemma quic_server_ok: "server_ok sum_crypto xor_code quic_server"
  using duplex_new sample_decoder_inv
  by (simp add: quic_server_def idle_server_def server_ok_def table_ok_def entry_ok_def live_server_entry_def live_entry_def worker_ok_def
      worker_new_def duplex_ok_def)

lemma quic_sends_wires:
  "map payload_of quic_sends = send_frames sum_crypto [9] (\<lambda>i. (replicate 24 5, replicate 4 6)) sample_frames"
proof -
  have "encode_wire sum_crypto f [9] (replicate 24 5) (replicate 4 6) = Inr (sample_wire f)" if "f \<in> set sample_frames" for f
  proof -
    have "version f = VERSION_V3" "length (payload f) < 65536"
      using that by (auto simp: sample_frames_def shard_frame_def sample_encoder_eq shard_consts make_shard_def)
    from decode_v3_encode_wire [OF hash_ok_sum_crypto aead_ok_sum_crypto this] show ?thesis
      by (metis (no_types, lifting) length_replicate sample_wire_def sum.simps(6))
  qed
  then have enc: "encode_wire sum_crypto (sample_frames ! i) [9] (replicate 24 5) (replicate 4 6) = Inr (sample_wire (sample_frames ! i))"
    if "i < 3" for i using that sample_frame_fields(2) by simp
  then show ?thesis
    using sample_frame_fields(2) by (simp add: send_frames_def quic_sends_list payload_of_def map_filter_simps upt_rec numeral_3_eq_3)
      (simp add: numeral_2_eq_2)
qed


end
