(* ===== verification/Pacer.thy ===== *)
theory Pacer
  imports Complex_Main Tunnel_Endpoints
begin

text \<open>
  The send pacer (\<open>Pacer\<close> of \<open>src/main.rs\<close>), a token bucket that refills in batches.  The
  \<open>f64\<close> fields are exact rationals: rounding to 53 bits is not modelled.  The clock readings and
  the moment a sleeping task wakes up are arguments.
\<close>

section \<open>State and operations\<close>

record pacer =
  bytes_per_second :: rat
  pc_capacity :: rat
  tokens :: rat
  updated :: instant

text \<open>\<open>rate\<close> is \<open>None\<close> when the argument is not finite.\<close>

definition pacer_new :: "rat option \<Rightarrow> instant \<Rightarrow> pacer result" where
  "pacer_new rate now =
     (case rate of
        None \<Rightarrow> Inl (Bail ''rate-mbps must be between 1 and 1000'')
      | Some r \<Rightarrow>
          if \<not> (1 \<le> r \<and> r \<le> 1000) then Inl (Bail ''rate-mbps must be between 1 and 1000'')
          else
            (let bps = r * 1000000 / 8; cap = max (bps * (4 / 1000)) (of_nat (HEADER + SHARD + TAG)) in
             Inr \<lparr>bytes_per_second = bps, pc_capacity = cap, tokens = cap, updated = now\<rparr>))"

definition secs :: "nat \<Rightarrow> rat" where "secs ns = of_nat ns / 1000000000"

definition refill :: "pacer \<Rightarrow> instant \<Rightarrow> rat" where
  "refill p now = min (tokens p + secs (now - updated p) * bytes_per_second p) (pc_capacity p)"

text \<open>How long \<open>wait\<close> sleeps, in seconds; it does not sleep when the tokens suffice.\<close>

definition pacer_delay :: "pacer \<Rightarrow> instant \<Rightarrow> nat \<Rightarrow> rat" where
  "pacer_delay p now n = (if refill p now < of_nat n then (pc_capacity p - refill p now) / bytes_per_second p else 0)"

definition pacer_wait :: "pacer \<Rightarrow> instant \<Rightarrow> instant \<Rightarrow> nat \<Rightarrow> pacer" where
  "pacer_wait p now woken n =
     (let needed = of_nat n in
      if refill p now < needed then p\<lparr>updated := woken, tokens := pc_capacity p - needed\<rparr>
      else p\<lparr>updated := now, tokens := refill p now - needed\<rparr>)"

section \<open>Properties\<close>

definition pacer_inv :: "pacer \<Rightarrow> bool" where
  "pacer_inv p \<longleftrightarrow> 0 < bytes_per_second p \<and> of_nat (HEADER + SHARD + TAG) \<le> pc_capacity p \<and> tokens p \<le> pc_capacity p"

lemma pacer_new_inv:
  assumes "pacer_new rate now = Inr p"
  shows "pacer_inv p" and "tokens p = pc_capacity p" and "updated p = now"
  using assms by (auto simp: pacer_new_def pacer_inv_def Let_def split: option.splits if_splits)

text \<open>A run: for each frame the clock reading, the time after the sleep (the same when there is none) and the size.
  A sleep lasts at least as long as it was asked to, and the clock does not go back.\<close>

fun pacer_times :: "pacer \<Rightarrow> (instant \<times> instant \<times> nat) list \<Rightarrow> bool" where
  "pacer_times p [] \<longleftrightarrow> True"
| "pacer_times p ((now, woken, n) # xs) \<longleftrightarrow> updated p \<le> now \<and> now \<le> woken \<and> pacer_delay p now n \<le> secs (woken - now) \<and>
     (refill p now < of_nat n \<or> woken = now) \<and> pacer_times (pacer_wait p now woken n) xs"

definition pacer_run :: "pacer \<Rightarrow> (instant \<times> instant \<times> nat) list \<Rightarrow> pacer" where
  "pacer_run p xs = foldl (\<lambda>p (now, woken, n). pacer_wait p now woken n) p xs"

lemma secs_add: "secs (a + b) = secs a + secs b"
  by (simp add: secs_def add_divide_distrib)

lemma secs_split: "a \<le> b \<Longrightarrow> b \<le> c \<Longrightarrow> secs (c - a) = secs (b - a) + secs (c - b)"
  using secs_add [of "b - a" "c - b"] by simp

text \<open>Every step pays for the bytes it lets through with tokens or with time.\<close>

lemma pacer_wait_pays:
  assumes "pacer_inv p" and "updated p \<le> now" and "now \<le> woken" and "pacer_delay p now n \<le> secs (woken - now)"
    and "refill p now < of_nat n \<or> woken = now"
  defines "p' \<equiv> pacer_wait p now woken n"
  shows "pacer_inv p'" and "updated p' = woken" and "bytes_per_second p' = bytes_per_second p" and "pc_capacity p' = pc_capacity p"
    and "tokens p' + of_nat n \<le> tokens p + secs (woken - updated p) * bytes_per_second p"
    and "min 0 (pc_capacity p - of_nat n) \<le> tokens p'"
proof -
  have bps: "0 < bytes_per_second p" using assms(1) by (simp add: pacer_inv_def)
  have r: "refill p now \<le> pc_capacity p" "refill p now \<le> tokens p + secs (now - updated p) * bytes_per_second p"
    by (simp_all add: refill_def)
  show "pacer_inv p'" and "updated p' = woken" and "bytes_per_second p' = bytes_per_second p" and "pc_capacity p' = pc_capacity p"
    using assms(1,5) r(1) by (auto simp: p'_def pacer_wait_def pacer_inv_def Let_def)
  show "min 0 (pc_capacity p - of_nat n) \<le> tokens p'"
    by (auto simp: p'_def pacer_wait_def Let_def)
  show "tokens p' + of_nat n \<le> tokens p + secs (woken - updated p) * bytes_per_second p"
  proof (cases "refill p now < of_nat n")
    case True
    have "(pc_capacity p - refill p now) / bytes_per_second p \<le> secs (woken - now)"
      using assms(4) True by (simp add: pacer_delay_def)
    then have "pc_capacity p - refill p now \<le> secs (woken - now) * bytes_per_second p"
      using bps by (simp add: pos_divide_le_eq)
    moreover have "secs (woken - updated p) * bytes_per_second p =
        secs (now - updated p) * bytes_per_second p + secs (woken - now) * bytes_per_second p"
      using secs_split [OF assms(2,3)] by (simp add: distrib_right)
    ultimately show ?thesis using True r(2) by (simp add: p'_def pacer_wait_def Let_def)
  next
    case False
    then show ?thesis using r(2) assms(5) by (simp add: p'_def pacer_wait_def Let_def)
  qed
qed

lemma pacer_run_pays:
  assumes "pacer_inv p" and "pacer_times p xs" and "\<forall>(now, woken, n) \<in> set xs. of_nat n \<le> pc_capacity p + d" and "0 \<le> d"
    and "xs \<noteq> []"
  shows "pacer_inv (pacer_run p xs) \<and> updated p \<le> updated (pacer_run p xs) \<and>
     tokens (pacer_run p xs) + (\<Sum>(now, woken, n)\<leftarrow>xs. of_nat n) \<le>
       tokens p + secs (updated (pacer_run p xs) - updated p) * bytes_per_second p \<and> - d \<le> tokens (pacer_run p xs)"
  using assms
proof (induction xs arbitrary: p)
  case Nil
  then show ?case by simp
next
  case (Cons x xs)
  obtain now woken n where x: "x = (now, woken, n)" by (cases x) auto
  let ?p = "pacer_wait p now woken n"
  have t: "updated p \<le> now" "now \<le> woken" "pacer_delay p now n \<le> secs (woken - now)"
    "refill p now < of_nat n \<or> woken = now" "pacer_times ?p xs" using Cons.prems(2) x by auto
  note s = pacer_wait_pays [OF Cons.prems(1) t(1-4)]
  have d: "- d \<le> tokens ?p" using s(6) Cons.prems(3,4) x by (auto simp: min_def split: if_splits)
  show ?case
  proof (cases "xs = []")
    case True
    then show ?thesis using s x t(1,2) d by (simp add: pacer_run_def)
  next
    case False
    have run: "pacer_run p (x # xs) = pacer_run ?p xs" by (simp add: pacer_run_def x)
    from Cons.IH [OF s(1) t(5) _ Cons.prems(4) False] Cons.prems(3) s(4)
    have IH: "pacer_inv (pacer_run ?p xs)" "updated ?p \<le> updated (pacer_run ?p xs)" "- d \<le> tokens (pacer_run ?p xs)"
      "tokens (pacer_run ?p xs) + (\<Sum>(now, woken, n)\<leftarrow>xs. of_nat n) \<le>
        tokens ?p + secs (updated (pacer_run ?p xs) - updated ?p) * bytes_per_second ?p" by auto
    let ?q = "pacer_run ?p xs" and ?B = "bytes_per_second p" and ?sum = "(\<Sum>(now, woken, n)\<leftarrow>xs. of_nat n) :: rat"
    have "secs (updated ?q - updated p) * ?B = secs (woken - updated p) * ?B + secs (updated ?q - woken) * ?B"
      using secs_split [of "updated p" woken "updated ?q"] IH(2) s(2) t(1,2) by (simp add: distrib_right)
    moreover have "tokens ?q + ?sum \<le> tokens ?p + secs (updated ?q - woken) * ?B" using IH(4) s(2,3) by simp
    moreover note s(5)
    ultimately have "tokens ?q + (of_nat n + ?sum) \<le> tokens p + secs (updated ?q - updated p) * ?B" by linarith
    moreover have "updated p \<le> updated ?q" using IH(2) s(2) t(1,2) by linarith
    ultimately show ?thesis using IH(1,3) run x by simp
  qed
qed

lemma pacer_budget:
  assumes "pacer_new rate start = Inr p" and "pacer_times p xs" and "\<forall>(now, woken, n) \<in> set xs. of_nat n \<le> pc_capacity p" and "xs \<noteq> []"
  shows "(\<Sum>(now, woken, n)\<leftarrow>xs. of_nat n) \<le> pc_capacity p + secs (updated (pacer_run p xs) - start) * bytes_per_second p"
proof -
  note new = pacer_new_inv [OF assms(1)]
  from pacer_run_pays [OF new(1) assms(2) _ _ assms(4), of 0] assms(3) new(2,3) show ?thesis by auto
qed

text \<open>
  Sending: every datagram that could be encrypted waits for its tokens; \<open>clock i\<close> is the time of its
  request and the time it goes out.
\<close>

definition send_session_frames ::
  "crypto \<Rightarrow> bytes \<Rightarrow> (nat \<Rightarrow> bytes \<times> bytes) \<Rightarrow> (nat \<Rightarrow> instant \<times> instant) \<Rightarrow> pacer \<Rightarrow> frame list \<Rightarrow> pacer \<times> bytes list" where
  "send_session_frames c k rnd clock p fs =
     (let bufs = send_frames c k rnd fs in
      (pacer_run p (map (\<lambda>(i, b). (fst (clock i), snd (clock i), length b)) (List.enumerate 0 bufs)), bufs))"

lemma sum_sizes:
  "(\<Sum>(now, woken, n)\<leftarrow>map (\<lambda>(i, b). (fst (clock i), snd (clock i), length b)) (List.enumerate k bufs). of_nat n :: rat) =
     of_nat (length (concat bufs))"
  by (induction bufs arbitrary: k) simp_all

lemma send_session_frames_rate:
  assumes "pacer_new rate start = Inr p" and "send_session_frames c k rnd clock p fs = (p', bufs)" and "bufs \<noteq> []"
    and "pacer_times p (map (\<lambda>(i, b). (fst (clock i), snd (clock i), length b)) (List.enumerate 0 bufs))"
    and "\<forall>b \<in> set bufs. of_nat (length b) \<le> pc_capacity p"
  shows "of_nat (length (concat bufs)) \<le> pc_capacity p + secs (updated p' - start) * bytes_per_second p"
proof -
  let ?xs = "map (\<lambda>(i, b). (fst (clock i), snd (clock i), length b)) (List.enumerate 0 bufs)"
  have p': "p' = pacer_run p ?xs" using assms(2) by (auto simp: send_session_frames_def Let_def)
  have "\<forall>(now, woken, n) \<in> set ?xs. of_nat n \<le> pc_capacity p"
    using assms(5) by (auto simp: in_set_enumerate_eq)
  moreover have "length ?xs = length bufs" by simp
  then have "?xs \<noteq> []" using assms(3) by (cases bufs) auto
  ultimately have "(\<Sum>(now, woken, n)\<leftarrow>?xs. of_nat n) \<le> pc_capacity p + secs (updated (pacer_run p ?xs) - start) * bytes_per_second p"
    by (intro pacer_budget [OF assms(1,4)])
  then show ?thesis unfolding sum_sizes p' .
qed



text \<open>The bucket can be smaller than a frame.  At the lowest rates the capacity is 1392 bytes, but a full V3 frame has
  1419 bytes on the wire, so the pacer lets it through with a debt of 27 bytes although the bucket was full.\<close>

theorem pacer_floor_below_frame:
  assumes "pacer_new (Some r) now = Inr p" and "r \<le> 2784 / 1000"
  shows "pc_capacity p = 1392 \<and> tokens (pacer_wait p now woken 1419) = - 27"
proof -
  have "p = \<lparr>bytes_per_second = r * 1000000 / 8, pc_capacity = 1392, tokens = 1392, updated = now\<rparr>"
    using assms by (auto simp: pacer_new_def Let_def HEADER_def SHARD_def TAG_def max_def split: if_splits)
  then show ?thesis by (simp add: pacer_wait_def refill_def secs_def Let_def)
qed

theorem pacer_floor_below_frame_witness:
  "\<exists>p. pacer_new (Some 1) 0 = Inr p \<and> tokens (pacer_wait p 0 0 1419) = - 27"
proof -
  obtain p where p: "pacer_new (Some 1) 0 = Inr p" by (simp add: pacer_new_def Let_def)
  from pacer_floor_below_frame [OF p, of 0] p show ?thesis by auto
qed

end
