(* ===== verification/Balancer.thy ===== *)
theory Balancer
  imports Quic_Carrier
begin

text \<open>
  The SOCKS load balancer (\<open>read_socks_address\<close>, \<open>socks_connect\<close>,
  \<open>handle_balanced_client\<close> and \<open>balance\<close> of \<open>src/main.rs\<close>).  A TCP stream is the list
  of bytes it still delivers; what an upstream answers to a request is an argument.  A handler chooses
  its upstream in one step, while the copies of earlier clients go on; the health flags are atomics, and
  the interleaving of two handlers inside that step is not modelled.
\<close>

section \<open>State and operations\<close>

record balance_upstream =
  bu_address :: addr
  bu_healthy :: bool
  bu_active :: nat

definition read_socks_address :: "u8 \<Rightarrow> bytes \<Rightarrow> (bytes \<times> bytes) result" where
  "read_socks_address atyp s =
     (if atyp = 1 then read_exact 6 s
      else if atyp = 3 then
        rbind (read_exact 1 s) (\<lambda>(l, s1).
          if hd l = 0 then Inl (Bail ''empty socks domain'')
          else rbind (read_exact (unat (hd l) + 2) s1) (\<lambda>(rest, s2). Inr (l @ rest, s2)))
      else if atyp = 4 then read_exact 18 s
      else Inl (Bail ''unsupported socks address type''))"

text \<open>
  \<open>up a request\<close> is everything the upstream at address \<open>a\<close> sends on a connection on which the
  balancer offers no authentication and then writes \<open>request\<close>; \<open>None\<close> when connecting fails or
  times out.  A stream that ends early stands for a response timeout too.
\<close>

definition socks_connect :: "(addr \<Rightarrow> bytes \<Rightarrow> bytes option) \<Rightarrow> addr \<Rightarrow> bytes \<Rightarrow> (bytes \<times> bytes) result" where
  "socks_connect up a request =
     (case up a request of
        None \<Rightarrow> Inl (Bail ''socks upstream connect timeout'')
      | Some s \<Rightarrow>
          rbind (read_exact 2 s) (\<lambda>(meth, s1).
            if meth \<noteq> [5, 0] then Inl (Bail ''socks upstream rejected authentication'')
            else rbind (read_exact 4 s1) (\<lambda>(head, s2).
              rbind (read_socks_address (head ! 3) s2) (\<lambda>(tail, s3).
                if head ! 0 \<noteq> 5 \<or> head ! 1 \<noteq> 0 then Inl (BailLine ''socks upstream connect failed code'' (unat (head ! 1)))
                else Inr (s3, head @ tail)))))"

text \<open>One pass over the upstreams in the given order: the states it leaves, the index and response of the one that
  accepted, and the last error.\<close>

fun try_upstreams ::
  "(addr \<Rightarrow> bytes \<Rightarrow> bytes option) \<Rightarrow> bytes \<Rightarrow> bool \<Rightarrow> nat list \<Rightarrow> balance_upstream list \<Rightarrow> error option \<Rightarrow>
   balance_upstream list \<times> (nat \<times> bytes \<times> bytes) option \<times> error option" where
  "try_upstreams up request healthy_only [] us err = (us, None, err)"
| "try_upstreams up request healthy_only (i # ixs) us err =
     (if healthy_only \<and> \<not> bu_healthy (us ! i) then try_upstreams up request healthy_only ixs us err
      else case socks_connect up (bu_address (us ! i)) request of
        Inr (s, response) \<Rightarrow> (us[i := (us ! i)\<lparr>bu_healthy := True\<rparr>], Some (i, s, response), err)
      | Inl e \<Rightarrow> try_upstreams up request healthy_only ixs (us[i := (us ! i)\<lparr>bu_healthy := False\<rparr>]) (Some e))"

definition choose_upstream ::
  "(addr \<Rightarrow> bytes \<Rightarrow> bytes option) \<Rightarrow> bytes \<Rightarrow> nat \<Rightarrow> balance_upstream list \<Rightarrow>
   balance_upstream list \<times> (nat \<times> bytes \<times> bytes) option \<times> error option" where
  "choose_upstream up request start us =
     (let ixs = map (\<lambda>off. (start + off) mod length us) [0..<length us] in
      case try_upstreams up request True ixs us None of
        (us1, Some c, err) \<Rightarrow> (us1, Some c, err)
      | (us1, None, err) \<Rightarrow> try_upstreams up request False ixs us1 err)"

text \<open>The client's request: what is written back before the balancer gives up, or the request to forward.\<close>

definition socks_request :: "bytes \<Rightarrow> bytes list \<times> (bytes \<times> bytes) result" where
  "socks_request s =
     (case rbind (read_exact 2 s) (\<lambda>(g, s1).
        if g ! 0 \<noteq> 5 \<or> g ! 1 = 0 \<or> unat (g ! 1) > 32 then Inl (Bail ''invalid socks greeting'')
        else read_exact (unat (g ! 1)) s1) of
        Inl e \<Rightarrow> ([], Inl e)
      | Inr (offered, s2) \<Rightarrow>
          if 0 \<notin> set offered then ([[5, 0xff]], Inl (Bail ''socks client requires authentication''))
          else
            (case read_exact 4 s2 of
               Inl e \<Rightarrow> ([[5, 0]], Inl e)
             | Inr (head, s3) \<Rightarrow>
                 if head ! 0 \<noteq> 5 \<or> head ! 1 \<noteq> 1 \<or> head ! 2 \<noteq> 0
                 then ([[5, 0], [5, 7, 0, 1, 0, 0, 0, 0, 0, 0]], Inl (Bail ''only socks CONNECT is supported''))
                 else
                   (case read_socks_address (head ! 3) s3 of
                      Inl e \<Rightarrow> ([[5, 0]], Inl e)
                    | Inr (address, s4) \<Rightarrow> ([[5, 0]], Inr (head @ address, s4)))))"

record balancer =
  bl_upstreams :: "balance_upstream list"
  bl_cursor :: u64

text \<open>
  The handler up to the copy loop: the balancer afterwards, what the client receives, and the chosen
  upstream with the two streams that are then copied into each other.  The active counter is raised
  while the copy runs (\<open>active_change\<close>).
\<close>

definition handle_balanced_client ::
  "(addr \<Rightarrow> bytes \<Rightarrow> bytes option) \<Rightarrow> balancer \<Rightarrow> bytes \<Rightarrow> balancer \<times> bytes list \<times> (nat \<times> bytes \<times> bytes) result" where
  "handle_balanced_client up bl s =
     (case socks_request s of
        (out, Inl e) \<Rightarrow> (bl, out, Inl e)
      | (out, Inr (request, rest)) \<Rightarrow>
          if bl_upstreams bl = [] then (bl, out, Inl Panic)
          else
            (let start = unat (bl_cursor bl) mod length (bl_upstreams bl); bl1 = bl\<lparr>bl_cursor := bl_cursor bl + 1\<rparr> in
             case choose_upstream up request start (bl_upstreams bl) of
               (us, None, err) \<Rightarrow>
                 (bl1\<lparr>bl_upstreams := us\<rparr>, out @ [[5, 1, 0, 1, 0, 0, 0, 0, 0, 0]],
                  Inl (case err of None \<Rightarrow> Bail ''no healthy WARP upstream'' | Some e \<Rightarrow> e))
             | (us, Some (i, remote, response), err) \<Rightarrow>
                 (bl1\<lparr>bl_upstreams := us\<rparr>, out @ [response], Inr (i, rest, remote))))"

definition active_change :: "(nat \<Rightarrow> nat) \<Rightarrow> nat \<Rightarrow> balancer \<Rightarrow> balancer" where
  "active_change h i bl = bl\<lparr>bl_upstreams := (bl_upstreams bl)[i := (bl_upstreams bl ! i)\<lparr>bu_active := h (bu_active (bl_upstreams bl ! i))\<rparr>]\<rparr>"

definition balance_new :: "addr list \<Rightarrow> balancer result" where
  "balance_new addresses =
     (if length addresses < 2 then Inl (Bail ''balance requires at least two upstreams'')
      else Inr \<lparr>bl_upstreams = map (\<lambda>a. \<lparr>bu_address = a, bu_healthy = True, bu_active = 0\<rparr>) addresses, bl_cursor = 0\<rparr>)"

definition health_request :: bytes where
  "health_request = [5, 1, 0, 3, 15] @ map of_char ''www.gstatic.com'' @ [0x01, 0xbb]"

definition health_check :: "(addr \<Rightarrow> bytes \<Rightarrow> bytes option) \<Rightarrow> balancer \<Rightarrow> balancer" where
  "health_check up bl = bl\<lparr>bl_upstreams := map (\<lambda>u. u\<lparr>bu_healthy :=
     (case socks_connect up (bu_address u) health_request of Inl _ \<Rightarrow> False | Inr _ \<Rightarrow> True)\<rparr>) (bl_upstreams bl)\<rparr>"

text \<open>
  The process: besides the upstreams and the cursor it has one running copy per served client, known by
  the index of its upstream.  A client may be gone when the response is written to it (\<open>alive\<close>).
\<close>

record balance_state =
  bs_balancer :: balancer
  bs_copies :: "nat list"

datatype balance_event =
    BalanceClient "addr \<Rightarrow> bytes \<Rightarrow> bytes option" bytes bool
  | CopyEnds nat
  | HealthTick "addr \<Rightarrow> bytes \<Rightarrow> bytes option"

fun balance_step :: "balance_state \<Rightarrow> balance_event \<Rightarrow> balance_state" where
  "balance_step b (BalanceClient up stream alive) =
     (case handle_balanced_client up (bs_balancer b) stream of
        (bl, replies, Inl e) \<Rightarrow> b\<lparr>bs_balancer := bl\<rparr>
      | (bl, replies, Inr (i, _)) \<Rightarrow>
          if alive then b\<lparr>bs_balancer := active_change (\<lambda>n. n + 1) i bl, bs_copies := i # bs_copies b\<rparr>
          else b\<lparr>bs_balancer := bl\<rparr>)"
| "balance_step b (CopyEnds k) =
     (if k < length (bs_copies b)
      then b\<lparr>bs_balancer := active_change (\<lambda>n. n - 1) (bs_copies b ! k) (bs_balancer b),
             bs_copies := take k (bs_copies b) @ drop (Suc k) (bs_copies b)\<rparr>
      else b)"
| "balance_step b (HealthTick up) = b\<lparr>bs_balancer := health_check up (bs_balancer b)\<rparr>"

definition balance :: "addr list \<Rightarrow> balance_event list \<Rightarrow> balance_state result" where
  "balance addresses evs =
     rbind (balance_new addresses) (\<lambda>bl. Inr (foldl balance_step \<lparr>bs_balancer = bl, bs_copies = []\<rparr> evs))"

section \<open>Choosing an upstream\<close>

definition accepts :: "(addr \<Rightarrow> bytes \<Rightarrow> bytes option) \<Rightarrow> bytes \<Rightarrow> balance_upstream \<Rightarrow> bool" where
  "accepts up request u \<longleftrightarrow> (\<exists>r. socks_connect up (bu_address u) request = Inr r)"

lemma accepts_update [simp]: "accepts up request (u\<lparr>bu_healthy := h\<rparr>) = accepts up request u"
  by (simp add: accepts_def)

text \<open>The upstreams keep their identity; a pass without a winner has found every upstream it tried unable to accept
  and has marked it unhealthy.\<close>

text \<open>Marking an upstream unhealthy changes nothing else.\<close>

lemma mark_unhealthy:
  assumes "i < length us"
  defines "us1 \<equiv> us[i := (us ! i)\<lparr>bu_healthy := False\<rparr>]"
  shows "map bu_address us1 = map bu_address us" and "map bu_active us1 = map bu_active us"
    and "accepts up request (us1 ! k) = accepts up request (us ! k)" and "bu_address (us1 ! k) = bu_address (us ! k)"
    and "k < length us \<Longrightarrow> bu_healthy (us1 ! k) \<longleftrightarrow> bu_healthy (us ! k) \<and> k \<noteq> i"
  using assms(1) unfolding us1_def
  by (simp add: map_update list_update_same_conv, simp add: map_update list_update_same_conv, (cases "k = i"; simp)+)

lemma try_upstreams_spec:
  assumes "try_upstreams up request h ixs us err = (us', c, err')" and "set ixs \<subseteq> {..<length us}"
  shows "map bu_address us' = map bu_address us" and "map bu_active us' = map bu_active us"
    and "c = Some (j, s, response) \<Longrightarrow> j \<in> set ixs \<and> socks_connect up (bu_address (us ! j)) request = Inr (s, response) \<and> bu_healthy (us' ! j)"
    and "c = None \<Longrightarrow> i \<in> set ixs \<Longrightarrow> (h \<and> \<not> bu_healthy (us ! i) \<or> \<not> accepts up request (us ! i)) \<and> \<not> bu_healthy (us' ! i)"
    and "c = None \<Longrightarrow> i < length us \<Longrightarrow> \<not> bu_healthy (us ! i) \<Longrightarrow> \<not> bu_healthy (us' ! i)"
proof -
  have "map bu_address us' = map bu_address us \<and> map bu_active us' = map bu_active us \<and>
      (\<forall>j s response. c = Some (j, s, response) \<longrightarrow> j \<in> set ixs \<and> socks_connect up (bu_address (us ! j)) request = Inr (s, response) \<and> bu_healthy (us' ! j)) \<and>
      (c = None \<longrightarrow> (\<forall>i \<in> set ixs. (h \<and> \<not> bu_healthy (us ! i) \<or> \<not> accepts up request (us ! i)) \<and> \<not> bu_healthy (us' ! i)) \<and>
         (\<forall>i < length us. \<not> bu_healthy (us ! i) \<longrightarrow> \<not> bu_healthy (us' ! i)))"
    using assms
  proof (induction ixs arbitrary: us err)
    case Nil
    then show ?case by auto
  next
    case (Cons i ixs)
    have i: "i < length us" and ixs: "set ixs \<subseteq> {..<length us}" using Cons.prems(2) by auto
    show ?case
    proof (cases "h \<and> \<not> bu_healthy (us ! i)")
      case True
      then have "try_upstreams up request h ixs us err = (us', c, err')" using Cons.prems(1) by simp
      from Cons.IH [OF this ixs] show ?thesis using True i by auto
    next
      case False
      show ?thesis
      proof (cases "socks_connect up (bu_address (us ! i)) request")
        case (Inl e)
        let ?us = "us[i := (us ! i)\<lparr>bu_healthy := False\<rparr>]"
        have "try_upstreams up request h ixs ?us (Some e) = (us', c, err')" using Cons.prems(1) False Inl by auto
        note IH = Cons.IH [OF this]
        have na: "\<not> accepts up request (us ! i)" using Inl by (simp add: accepts_def)
        note mark = mark_unhealthy [OF i]
        show ?thesis
          using IH ixs i na mark(1,2) unfolding mark(3,4) by (auto simp: mark(5) subset_iff)
      next
        case (Inr r)
        obtain s response where r: "r = (s, response)" by fastforce
        have "us' = us[i := (us ! i)\<lparr>bu_healthy := True\<rparr>]" "c = Some (i, s, response)"
          using Cons.prems(1) False Inr r by auto
        then show ?thesis
          using i Inr r by (simp add: map_update list_update_same_conv)
      qed
    qed
  qed
  then show "map bu_address us' = map bu_address us" and "map bu_active us' = map bu_active us"
    and "c = Some (j, s, response) \<Longrightarrow> j \<in> set ixs \<and> socks_connect up (bu_address (us ! j)) request = Inr (s, response) \<and> bu_healthy (us' ! j)"
    and "c = None \<Longrightarrow> i \<in> set ixs \<Longrightarrow> (h \<and> \<not> bu_healthy (us ! i) \<or> \<not> accepts up request (us ! i)) \<and> \<not> bu_healthy (us' ! i)"
    and "c = None \<Longrightarrow> i < length us \<Longrightarrow> \<not> bu_healthy (us ! i) \<Longrightarrow> \<not> bu_healthy (us' ! i)"
    by blast+
qed

lemma rotation_set: "0 < n \<Longrightarrow> set (map (\<lambda>off. (start + off) mod n) [0..<n]) = {..<n}"
proof -
  assume n: "0 < n"
  have "i \<in> (\<lambda>off. (start + off) mod n) ` {0..<n}" if "i < n" for i
  proof -
    have "(start + (i + (n - start mod n)) mod n) mod n = (start mod n + (i + (n - start mod n))) mod n"
      by (simp add: mod_simps)
    also have "start mod n + (i + (n - start mod n)) = i + n" using mod_less_divisor [OF n, of start] by linarith
    finally have "(start + (i + (n - start mod n)) mod n) mod n = i" using that by simp
    then show ?thesis using n by (intro image_eqI [of _ _ "(i + (n - start mod n)) mod n"]) simp_all
  qed
  then show ?thesis using n by auto
qed

lemma nth_map_eq: "map g xs = map g ys \<Longrightarrow> i < length ys \<Longrightarrow> g (xs ! i) = g (ys ! i)"
  by (metis length_map nth_map)

lemma accepts_same: "map bu_address us' = map bu_address us \<Longrightarrow> i < length us \<Longrightarrow> accepts up request (us' ! i) = accepts up request (us ! i)"
  unfolding accepts_def using nth_map_eq by metis

lemma choose_upstream_spec:
  assumes "choose_upstream up request start us = (us', c, err)" and "us \<noteq> []"
  shows "map bu_address us' = map bu_address us"
    and "c = Some (j, s, response) \<Longrightarrow> j < length us \<and> socks_connect up (bu_address (us ! j)) request = Inr (s, response) \<and> bu_healthy (us' ! j)"
    and "c = None \<Longrightarrow> i < length us \<Longrightarrow> \<not> accepts up request (us ! i) \<and> \<not> bu_healthy (us' ! i)"
proof -
  let ?ixs = "map (\<lambda>off. (start + off) mod length us) [0..<length us]"
  have ixs: "set ?ixs = {..<length us}" using rotation_set assms(2) by simp
  obtain us1 c1 err1 where t1: "try_upstreams up request True ?ixs us None = (us1, c1, err1)" by (metis prod.exhaust)
  note s1 = try_upstreams_spec [OF t1 equalityD1 [OF ixs]]
  have len: "length us1 = length us" using s1(1) by (metis length_map)
  show "map bu_address us' = map bu_address us"
    and "c = Some (j, s, response) \<Longrightarrow> j < length us \<and> socks_connect up (bu_address (us ! j)) request = Inr (s, response) \<and> bu_healthy (us' ! j)"
    and "c = None \<Longrightarrow> i < length us \<Longrightarrow> \<not> accepts up request (us ! i) \<and> \<not> bu_healthy (us' ! i)"
  proof -
    consider (first) "c1 = c" "c \<noteq> None" "us1 = us'" | (second) "c1 = None" "try_upstreams up request False ?ixs us1 err1 = (us', c, err)"
      using assms(1) t1 by (cases c1) (auto simp: choose_upstream_def Let_def)
    then have "map bu_address us' = map bu_address us \<and>
      (c = Some (j, s, response) \<longrightarrow> j < length us \<and> socks_connect up (bu_address (us ! j)) request = Inr (s, response) \<and> bu_healthy (us' ! j)) \<and>
      (c = None \<and> i < length us \<longrightarrow> \<not> accepts up request (us ! i) \<and> \<not> bu_healthy (us' ! i))"
    proof cases
      case first
      then show ?thesis using s1(1) s1(3) [of j s response] ixs by auto
    next
      case second
      have sub: "set ?ixs \<subseteq> {..<length us1}" using ixs len by simp
      note s2 = try_upstreams_spec [OF second(2) sub]
      have adr: "bu_address (us1 ! j) = bu_address (us ! j)" if "j < length us" using nth_map_eq [OF s1(1) that] .
      show ?thesis
        using s1(1) s2(1) s2(3) [of j s response] s2(4) [of i] ixs adr accepts_same [OF s1(1), of i up request] by auto
    qed
    then show "map bu_address us' = map bu_address us"
      and "c = Some (j, s, response) \<Longrightarrow> j < length us \<and> socks_connect up (bu_address (us ! j)) request = Inr (s, response) \<and> bu_healthy (us' ! j)"
      and "c = None \<Longrightarrow> i < length us \<Longrightarrow> \<not> accepts up request (us ! i) \<and> \<not> bu_healthy (us' ! i)" by blast+
  qed
qed

lemma choose_upstream_active:
  assumes "choose_upstream up request start us = (us', c, err)" and "us \<noteq> []"
  shows "map bu_active us' = map bu_active us"
proof -
  let ?ixs = "map (\<lambda>off. (start + off) mod length us) [0..<length us]"
  have ixs: "set ?ixs = {..<length us}" using rotation_set assms(2) by simp
  obtain us1 c1 err1 where t1: "try_upstreams up request True ?ixs us None = (us1, c1, err1)" by (metis prod.exhaust)
  note s1 = try_upstreams_spec(2) [OF t1 equalityD1 [OF ixs]]
  then have sub: "set ?ixs \<subseteq> {..<length us1}" using ixs map_eq_imp_length_eq [OF s1] by simp
  show ?thesis
    using assms(1) t1 s1 try_upstreams_spec(2) [OF _ sub] by (cases c1) (auto simp: choose_upstream_def Let_def)
qed

lemma handle_keeps:
  assumes "handle_balanced_client up bl stream = (bl', replies, r)"
  shows "map bu_active (bl_upstreams bl') = map bu_active (bl_upstreams bl)"
    and "map bu_address (bl_upstreams bl') = map bu_address (bl_upstreams bl)"
    and "r = Inr (i, rest) \<Longrightarrow> i < length (bl_upstreams bl)"
proof -
  have "map bu_active (bl_upstreams bl') = map bu_active (bl_upstreams bl) \<and>
      map bu_address (bl_upstreams bl') = map bu_address (bl_upstreams bl) \<and> (r = Inr (i, rest) \<longrightarrow> i < length (bl_upstreams bl))"
  proof (cases "\<exists>out request s. socks_request stream = (out, Inr (request, s)) \<and> bl_upstreams bl \<noteq> []")
    case False
    then show ?thesis
      using assms by (auto simp: handle_balanced_client_def split: prod.splits sum.splits if_splits)
  next
    case True
    then obtain out request s where sr: "socks_request stream = (out, Inr (request, s))" "bl_upstreams bl \<noteq> []" by blast
    obtain us c err where ch: "choose_upstream up request (unat (bl_cursor bl) mod length (bl_upstreams bl)) (bl_upstreams bl) = (us, c, err)"
      by (metis prod.exhaust)
    note choose_upstream_active [OF ch sr(2)] choose_upstream_spec(1) [OF ch sr(2)]
    moreover have "j < length (bl_upstreams bl)" if "c = Some (j, x, y)" for j x y
      using choose_upstream_spec(2) [OF ch sr(2) that] by simp
    ultimately show ?thesis
      using assms sr ch by (auto simp: handle_balanced_client_def Let_def split: option.splits)
  qed
  then show "map bu_active (bl_upstreams bl') = map bu_active (bl_upstreams bl)"
    and "map bu_address (bl_upstreams bl') = map bu_address (bl_upstreams bl)"
    and "r = Inr (i, rest) \<Longrightarrow> i < length (bl_upstreams bl)" by blast+
qed

text \<open>The active counter of each upstream is the number of copies that run over it.\<close>

definition balance_inv :: "addr list \<Rightarrow> balance_state \<Rightarrow> bool" where
  "balance_inv addresses b \<longleftrightarrow> map bu_address (bl_upstreams (bs_balancer b)) = addresses \<and>
     map bu_active (bl_upstreams (bs_balancer b)) = map (count_list (bs_copies b)) [0..<length addresses] \<and>
     set (bs_copies b) \<subseteq> {..<length addresses}"

lemma active_change_fields:
  "i < length (bl_upstreams bl) \<Longrightarrow> map bu_active (bl_upstreams (active_change h i bl)) =
     (map bu_active (bl_upstreams bl))[i := h (map bu_active (bl_upstreams bl) ! i)]"
  "i < length (bl_upstreams bl) \<Longrightarrow> map bu_address (bl_upstreams (active_change h i bl)) = map bu_address (bl_upstreams bl)"
  by (simp_all add: active_change_def map_update list_update_same_conv)

lemma count_update:
  assumes "i < n" and "h (count_list xs i) = count_list ys i" and "\<And>j. j \<noteq> i \<Longrightarrow> count_list xs j = count_list ys j"
  shows "(map (count_list xs) [0..<n])[i := h (map (count_list xs) [0..<n] ! i)] = map (count_list ys) [0..<n]"
proof (rule nth_equalityI)
  show "(map (count_list xs) [0..<n])[i := h (map (count_list xs) [0..<n] ! i)] ! j = map (count_list ys) [0..<n] ! j"
    if "j < length ((map (count_list xs) [0..<n])[i := h (map (count_list xs) [0..<n] ! i)])" for j
    using that assms by (cases "j = i") simp_all
qed simp

lemma balance_step_inv:
  assumes "balance_inv addresses b"
  shows "balance_inv addresses (balance_step b ev)"
proof -
  let ?us = "bl_upstreams (bs_balancer b)" and ?n = "length addresses"
  have adr: "map bu_address ?us = addresses" and act: "map bu_active ?us = map (count_list (bs_copies b)) [0..<?n]"
    and sub: "set (bs_copies b) \<subseteq> {..<?n}" using assms by (simp_all add: balance_inv_def)
  have len: "length ?us = ?n" using adr by (metis length_map)
  show ?thesis
  proof (cases ev)
    case (BalanceClient up stream alive)
    obtain bl replies r where h: "handle_balanced_client up (bs_balancer b) stream = (bl, replies, r)" by (metis prod.exhaust)
    note k = handle_keeps [OF h]
    have lenb: "length (bl_upstreams bl) = ?n" using k(2) adr by (metis length_map)
    show ?thesis
    proof (cases r)
      case (Inr p)
      obtain i rest where p: "p = (i, rest)" by (cases p)
      have i: "i < ?n" using k(3) Inr p len by simp
      show ?thesis
        using BalanceClient h Inr p k(1,2) adr act sub i lenb count_update [OF i, of "\<lambda>n. n + 1" "bs_copies b" "i # bs_copies b"]
        by (auto simp: balance_inv_def active_change_fields)
    qed (use BalanceClient h k(1,2) assms in \<open>auto simp: balance_inv_def\<close>)
  next
    case (CopyEnds k)
    show ?thesis
    proof (cases "k < length (bs_copies b)")
      case True
      let ?i = "bs_copies b ! k" and ?rest = "take k (bs_copies b) @ drop (Suc k) (bs_copies b)"
      have i: "?i < ?n" using sub True by (meson lessThan_iff nth_mem subsetD)
      have "count_list (bs_copies b) j = count_list (take k (bs_copies b) @ ?i # drop (Suc k) (bs_copies b)) j" for j
        using id_take_nth_drop [OF True] by simp
      then have c: "count_list (bs_copies b) ?i - 1 = count_list ?rest ?i" "j \<noteq> ?i \<Longrightarrow> count_list (bs_copies b) j = count_list ?rest j" for j
        by simp_all
      have "set ?rest \<subseteq> {..<?n}" using sub set_take_subset [of k "bs_copies b"] set_drop_subset [of "Suc k" "bs_copies b"] by auto
      then show ?thesis
        using CopyEnds True adr act i len count_update [where h = "\<lambda>n. n - 1", OF i c(1,2)]
        by (simp add: balance_inv_def active_change_fields)
    qed (use CopyEnds assms in simp)
  next
    case (HealthTick up)
    then show ?thesis using assms by (simp add: balance_inv_def health_check_def comp_def)
  qed
qed

interpretation balance_process: invariant_machine balance_step "balance_inv addresses"
  by unfold_locales (rule balance_step_inv)

section \<open>Properties\<close>


text \<open>What a SOCKS address of each type looks like.\<close>

definition socks_address_ok :: "u8 \<Rightarrow> bytes \<Rightarrow> bool" where
  "socks_address_ok atyp a \<longleftrightarrow> atyp = 1 \<and> length a = 6 \<or> atyp = 4 \<and> length a = 18 \<or>
     atyp = 3 \<and> (\<exists>l rest. a = l # rest \<and> l \<noteq> 0 \<and> length rest = unat l + 2)"

lemma read_socks_address_ok: "socks_address_ok atyp a \<Longrightarrow> read_socks_address atyp (a @ rest) = Inr (a, rest)"
  by (auto simp: socks_address_ok_def read_socks_address_def read_exact_def)

text \<open>A well-formed CONNECT request is read exactly up to its end, and forwarded as it was sent.\<close>

lemma socks_request_ok:
  assumes "offered \<noteq> []" and "length offered \<le> 32" and "0 \<in> set offered" and "socks_address_ok atyp a"
  shows "socks_request ([5, of_nat (length offered)] @ offered @ [5, 1, 0, atyp] @ a @ rest) = ([[5, 0]], Inr ([5, 1, 0, atyp] @ a, rest))"
proof -
  have n: "unat (of_nat (length offered) :: u8) = length offered" using assms(2) by simp
  have nz: "(of_nat (length offered) :: u8) \<noteq> 0"
  proof
    assume "(of_nat (length offered) :: u8) = 0"
    then have "unat (of_nat (length offered) :: u8) = 0" by simp
    then show False using n assms(1) by simp
  qed
  have g: "read_exact 2 ([5, of_nat (length offered)] @ offered @ [5, 1, 0, atyp] @ a @ rest) =
      Inr ([5, of_nat (length offered)], offered @ [5, 1, 0, atyp] @ a @ rest)" by (simp add: read_exact_def)
  have m: "read_exact (length offered) (offered @ [5, 1, 0, atyp] @ a @ rest) = Inr (offered, [5, 1, 0, atyp] @ a @ rest)"
    by (simp add: read_exact_def)
  have h: "read_exact 4 ([5, 1, 0, atyp] @ a @ rest) = Inr ([5, 1, 0, atyp], a @ rest)" by (simp add: read_exact_def)
  show ?thesis
    unfolding socks_request_def g rbind_Inr prod.case
    using m h nz n assms(2,3) read_socks_address_ok [OF assms(4), of rest] by simp
qed

lemma try_upstreams_first:
  assumes "\<forall>k \<in> set pre. \<not> (bu_healthy (us ! k) \<and> accepts up request (us ! k))" and "i \<notin> set pre" and "bu_healthy (us ! i)"
    and "socks_connect up (bu_address (us ! i)) request = Inr (s, response)" and "set pre \<subseteq> {..<length us}"
  shows "fst (snd (try_upstreams up request True (pre @ i # post) us err)) = Some (i, s, response)"
  using assms
proof (induction pre arbitrary: us err)
  case Nil
  then show ?case by simp
next
  case (Cons k pre)
  show ?case
  proof (cases "bu_healthy (us ! k)")
    case False
    then show ?thesis using Cons by simp
  next
    case True
    let ?us = "us[k := (us ! k)\<lparr>bu_healthy := False\<rparr>]"
    have k: "k < length us" "i \<noteq> k" using Cons.prems(2,5) by auto
    obtain e where e: "socks_connect up (bu_address (us ! k)) request = Inl e"
      using Cons.prems(1) True by (cases "socks_connect up (bu_address (us ! k)) request") (auto simp: accepts_def)
    have "\<not> (bu_healthy (?us ! m) \<and> accepts up request (?us ! m))" if "m \<in> set pre" for m
      using Cons.prems(1) that k by (cases "m = k") auto
    then have "fst (snd (try_upstreams up request True (pre @ i # post) ?us (Some e))) = Some (i, s, response)"
      using Cons.prems(2-5) k by (intro Cons.IH) simp_all
    then show ?thesis using True e by simp
  qed
qed

lemma rotation_distinct: "distinct (map (\<lambda>off. (start + off) mod n) [0..<n])"
proof (cases "n = 0")
  case False
  then have "card (set (map (\<lambda>off. (start + off) mod n) [0..<n])) = length (map (\<lambda>off. (start + off) mod n) [0..<n])"
    using rotation_set [of n start] by simp
  then show ?thesis by (rule card_distinct)
qed simp

text \<open>Rotation.  A client is sent to the first upstream, in order from the cursor, that is marked healthy and accepts
  its request, and the cursor moves on by one; so clients that find all upstreams well go to them in turn.\<close>

theorem balancer_rotates:
  assumes "socks_request stream = (out, Inr (request, rest))" and "off < length (bl_upstreams bl)"
    and "first = (unat (bl_cursor bl) + off) mod length (bl_upstreams bl)"
    and "bu_healthy (bl_upstreams bl ! first)" and "socks_connect up (bu_address (bl_upstreams bl ! first)) request = Inr (remote, response)"
    and "\<forall>k < off. \<not> (bu_healthy (bl_upstreams bl ! ((unat (bl_cursor bl) + k) mod length (bl_upstreams bl))) \<and>
       accepts up request (bl_upstreams bl ! ((unat (bl_cursor bl) + k) mod length (bl_upstreams bl))))"
  shows "\<exists>bl'. handle_balanced_client up bl stream = (bl', out @ [response], Inr (first, rest, remote)) \<and> bl_cursor bl' = bl_cursor bl + 1"
proof -
  let ?us = "bl_upstreams bl" and ?n = "length (bl_upstreams bl)"
  let ?start = "unat (bl_cursor bl) mod ?n"
  let ?f = "\<lambda>k. (?start + k) mod ?n"
  have n: "0 < ?n" using assms(2) by auto
  have f: "?f k = (unat (bl_cursor bl) + k) mod ?n" for k by (simp add: mod_simps)
  have split: "map ?f [0..<?n] = map ?f [0..<off] @ first # map ?f [Suc off..<?n]"
  proof -
    have "[0..<?n] = [0..<off] @ off # [Suc off..<?n]"
      using upt_add_eq_append [of 0 off "?n - off"] assms(2) by (simp add: upt_conv_Cons [of off ?n])
    then show ?thesis using assms(3) by (simp add: f)
  qed
  have "first \<notin> set (map ?f [0..<off])" using rotation_distinct [of ?start ?n] unfolding split by simp
  moreover have "\<forall>k \<in> set (map ?f [0..<off]). \<not> (bu_healthy (?us ! k) \<and> accepts up request (?us ! k))"
    using assms(6) by (auto simp: f)
  moreover have "set (map ?f [0..<off]) \<subseteq> {..<?n}" using n by auto
  ultimately have t: "fst (snd (try_upstreams up request True (map ?f [0..<?n]) ?us None)) = Some (first, remote, response)"
    unfolding split using assms(4,5) by (intro try_upstreams_first)
  obtain us1 err1 where "try_upstreams up request True (map ?f [0..<?n]) ?us None = (us1, Some (first, remote, response), err1)"
    using t by (metis prod.collapse)
  then have "choose_upstream up request ?start ?us = (us1, Some (first, remote, response), err1)"
    by (simp add: choose_upstream_def Let_def)
  then show ?thesis using assms(1) n by (simp add: handle_balanced_client_def Let_def)
qed

definition sample_request :: bytes where
  "sample_request = [5, 1, 0] @ [5, 1, 0, 1, 10, 0, 0, 1, 0, 80]"

text \<open>An upstream at address 1 that refuses connections and one at address 2 that accepts everything.\<close>

definition sample_up :: "addr \<Rightarrow> bytes \<Rightarrow> bytes option" where
  "sample_up a request = (if a = 2 then Some [5, 0, 5, 0, 0, 1, 0, 0, 0, 0, 0, 0] else None)"

definition sample_balancer :: balancer where
  "sample_balancer = \<lparr>bl_upstreams = [\<lparr>bu_address = 1, bu_healthy = True, bu_active = 0\<rparr>, \<lparr>bu_address = 2, bu_healthy = True, bu_active = 0\<rparr>], bl_cursor = 0\<rparr>"

lemma sample_socks_request: "socks_request sample_request = ([[5, 0]], Inr ([5, 1, 0, 1, 10, 0, 0, 1, 0, 80], []))"
  using socks_request_ok [of "[0]" 1 "[10, 0, 0, 1, 0, 80]" "[]"] by (simp add: socks_address_ok_def sample_request_def)

lemma sample_connect: "socks_connect sample_up 2 request = Inr ([], [5, 0, 0, 1, 0, 0, 0, 0, 0, 0])" "socks_connect sample_up 1 request = Inl (Bail ''socks upstream connect timeout'')"
  by (simp_all add: socks_connect_def sample_up_def read_exact_def read_socks_address_def)


theorem balancer_rotates_witness:
  "\<exists>bl'. handle_balanced_client sample_up sample_balancer sample_request =
     (bl', [[5, 0]] @ [[5, 0, 0, 1, 0, 0, 0, 0, 0, 0]], Inr (1, [], [])) \<and> bl_cursor bl' = bl_cursor sample_balancer + 1"
  by (rule balancer_rotates [OF sample_socks_request, of 1])
    (auto simp: sample_balancer_def sample_connect sample_connect(2) [unfolded One_nat_def] accepts_def)

text \<open>C32: the active counters are exact.  Whatever clients come and go, whatever the health checks find and whichever
  upstreams fail, the counter of every upstream is the number of connections that are being copied over it,
  and the upstreams stay the configured ones.\<close>

theorem balance_active_exact:
  assumes "balance addresses evs = Inr b"
  shows "map bu_address (bl_upstreams (bs_balancer b)) = addresses \<and>
     map bu_active (bl_upstreams (bs_balancer b)) = map (count_list (bs_copies b)) [0..<length addresses]"
proof -
  obtain bl where bl: "balance_new addresses = Inr bl" "b = foldl balance_step \<lparr>bs_balancer = bl, bs_copies = []\<rparr> evs"
    using assms by (auto simp: balance_def rbind_eq_Inr_iff)
  have "balance_inv addresses \<lparr>bs_balancer = bl, bs_copies = []\<rparr>"
    using bl(1) by (auto simp: balance_inv_def balance_new_def comp_def map_replicate_const intro!: replicate_eqI [symmetric] split: if_splits)
  from balance_process.run_invar [OF this] show ?thesis unfolding bl(2) balance_inv_def by blast
qed

theorem balance_active_exact_witness:
  "\<exists>b. balance [1, 2] [BalanceClient sample_up sample_request True, BalanceClient sample_up sample_request False, HealthTick sample_up] = Inr b \<and>
     map bu_active (bl_upstreams (bs_balancer b)) = map (count_list (bs_copies b)) [0..<2]"
proof -
  obtain b where b: "balance [1, 2] [BalanceClient sample_up sample_request True, BalanceClient sample_up sample_request False, HealthTick sample_up] = Inr b"
    by (auto simp: balance_def balance_new_def)
  from balance_active_exact [OF this] b show ?thesis by (simp add: numeral_2_eq_2)
qed

end
