(* ===== verification/Quic_Endpoint.thy ===== *)
theory Quic_Endpoint
  imports Quic_Relay
begin

text \<open>
  The set-up of the QUIC endpoints (\<open>src/quic_relay.rs\<close>): the congestion controller of the carrier, the
  transport parameters, the loading of certificates and keys, and the two endpoints.  What the libraries do
  (reading PEM files, checking a key against its certificate, building a TLS configuration, binding a socket)
  is a parameter.
\<close>

section \<open>Congestion control\<close>

definition CARRIER_WINDOW :: u64 where "CARRIER_WINDOW = 1024 * 1024"

record carrier_controller =
  cc_window :: u64

definition on_congestion_event :: "carrier_controller \<Rightarrow> instant \<Rightarrow> instant \<Rightarrow> bool \<Rightarrow> u64 \<Rightarrow> carrier_controller" where
  "on_congestion_event cc now at is_persistent_congestion lost = cc"

definition on_mtu_update :: "carrier_controller \<Rightarrow> u16 \<Rightarrow> carrier_controller" where
  "on_mtu_update cc new_mtu = cc"

definition initial_window :: "carrier_controller \<Rightarrow> u64" where
  "initial_window cc = cc_window cc"

definition build_controller :: "instant \<Rightarrow> u16 \<Rightarrow> carrier_controller" where
  "build_controller now current_mtu = \<lparr>cc_window = CARRIER_WINDOW\<rparr>"

section \<open>Transport parameters\<close>

text \<open>The parameters the program sets; durations in nanoseconds, as everywhere.\<close>

record transport =
  tc_max_concurrent_bidi_streams :: u32
  tc_max_idle_timeout :: "nat option"
  tc_keep_alive_interval :: "nat option"
  tc_initial_mtu :: u16
  tc_congestion_controller :: "instant \<Rightarrow> u16 \<Rightarrow> carrier_controller"
  tc_datagram_receive_buffer_size :: "nat option"
  tc_datagram_send_buffer_size :: nat

definition transport_config :: transport where
  "transport_config = \<lparr>tc_max_concurrent_bidi_streams = of_nat (MAX_STREAM_LANES + 1), tc_max_idle_timeout = Some 20000000000,
     tc_keep_alive_interval = Some 2000000000, tc_initial_mtu = 1472, tc_congestion_controller = build_controller,
     tc_datagram_receive_buffer_size = Some (4 * 1024 * 1024), tc_datagram_send_buffer_size = 4 * 1024 * 1024\<rparr>"

section \<open>Certificates and keys\<close>

definition ALPN :: bytes where "ALPN = map of_char ''h3''"

text \<open>A file is \<open>None\<close> when it cannot be opened.  \<open>certs\<close> yields the items of a PEM file one by one, \<open>None\<close> where an
  item cannot be parsed; collecting them stops at the first error.\<close>

fun collect :: "'a option list \<Rightarrow> 'a list option" where
  "collect [] = Some []"
| "collect (None # xs) = None"
| "collect (Some x # xs) = map_option (Cons x) (collect xs)"

definition load_certificates :: "(bytes \<Rightarrow> bytes option list) \<Rightarrow> bytes option \<Rightarrow> bytes list result" where
  "load_certificates certs file =
     (case file of
        None \<Rightarrow> Inl (Bail ''open certificate'')
      | Some contents \<Rightarrow>
          (case collect (certs contents) of
             None \<Rightarrow> Inl (Bail ''parse certificate PEM'')
           | Some certificates \<Rightarrow>
               if certificates = [] then Inl (Bail ''certificate file is empty'') else Inr certificates))"

text \<open>\<open>private_key\<close> is \<open>None\<close> on a malformed file and \<open>Some None\<close> on a file without a key.\<close>

definition load_private_key :: "(bytes \<Rightarrow> bytes option option) \<Rightarrow> bytes option \<Rightarrow> bytes result" where
  "load_private_key private_key file =
     (case file of
        None \<Rightarrow> Inl (Bail ''open private key'')
      | Some contents \<Rightarrow>
          (case private_key contents of
             None \<Rightarrow> Inl (Bail ''parse private key PEM'')
           | Some None \<Rightarrow> Inl (Bail ''private key file is empty'')
           | Some (Some k) \<Rightarrow> Inr k))"

section \<open>Endpoints\<close>

text \<open>What the endpoints use of the TLS, PEM and QUIC libraries and of the system.\<close>

record tls_library =
  lib_certs :: "bytes \<Rightarrow> bytes option list"
  lib_private_key :: "bytes \<Rightarrow> bytes option option"
  lib_single_cert :: "bytes list \<Rightarrow> bytes \<Rightarrow> bool"
  lib_add_root :: "bytes \<Rightarrow> bool"
  lib_quic_config :: bool
  lib_bind :: "addr \<Rightarrow> bool"

text \<open>An endpoint: the certificates it presents and the key it proves them with (a server), the roots it trusts (a
  client), the protocols it offers and its transport parameters.  No client certificate is asked for or shown.\<close>

record endpoint =
  ep_identity :: "(bytes list \<times> bytes) option"
  ep_roots :: "bytes list"
  ep_alpn :: "bytes list"
  ep_transport :: transport

definition server_endpoint :: "tls_library \<Rightarrow> addr \<Rightarrow> bytes option \<Rightarrow> bytes option \<Rightarrow> endpoint result" where
  "server_endpoint lib listen cert private_key =
     rbind (load_certificates (lib_certs lib) cert) (\<lambda>certificates.
     rbind (load_private_key (lib_private_key lib) private_key) (\<lambda>k.
       if \<not> lib_single_cert lib certificates k then Inl (Bail ''invalid certificate or key'')
       else if \<not> lib_quic_config lib then Inl (Bail ''no initial cipher suite'')
       else if \<not> lib_bind lib listen then Inl (Bail ''bind QUIC server'')
       else Inr \<lparr>ep_identity = Some (certificates, k), ep_roots = [], ep_alpn = [ALPN], ep_transport = transport_config\<rparr>))"

fun add_roots :: "(bytes \<Rightarrow> bool) \<Rightarrow> bytes list \<Rightarrow> bytes list \<Rightarrow> bytes list result" where
  "add_roots add roots [] = Inr roots"
| "add_roots add roots (certificate # certificates) =
     (if add certificate then add_roots add (roots @ [certificate]) certificates else Inl (Bail ''add trusted certificate''))"

definition client_endpoint :: "tls_library \<Rightarrow> addr \<Rightarrow> bytes option \<Rightarrow> endpoint result" where
  "client_endpoint lib local ca_cert =
     rbind (load_certificates (lib_certs lib) ca_cert) (\<lambda>certificates.
     rbind (add_roots (lib_add_root lib) [] certificates) (\<lambda>roots.
       if \<not> lib_quic_config lib then Inl (Bail ''no initial cipher suite'')
       else if \<not> lib_bind lib local then Inl (Bail ''bind QUIC client'')
       else Inr \<lparr>ep_identity = None, ep_roots = roots, ep_alpn = [ALPN], ep_transport = transport_config\<rparr>))"

section \<open>Lemmas\<close>

lemma collect_Some: "collect xs = Some ys \<longleftrightarrow> xs = map Some ys"
proof (induction xs arbitrary: ys rule: collect.induct)
  case (3 x xs)
  then show ?case by (cases ys) auto
qed auto

lemma add_roots_Inr: "add_roots add roots cs = Inr rs \<longleftrightarrow> rs = roots @ cs \<and> (\<forall>x \<in> set cs. add x)"
  by (induction cs arbitrary: roots) auto

lemma load_certificates_Inr:
  "load_certificates certs file = Inr cs \<longleftrightarrow> (\<exists>contents. file = Some contents \<and> certs contents = map Some cs \<and> cs \<noteq> [])"
  by (auto simp: load_certificates_def collect_Some [symmetric] split: option.splits)

lemma load_private_key_Inr:
  "load_private_key private_key file = Inr k \<longleftrightarrow> (\<exists>contents. file = Some contents \<and> private_key contents = Some (Some k))"
  by (auto simp: load_private_key_def split: option.splits)

text \<open>Whatever the path does, the outer window keeps its mebibyte: the inner pacing alone answers to congestion.\<close>

datatype path_event = Congestion instant instant bool u64 | MtuUpdate u16

fun controller_step :: "carrier_controller \<Rightarrow> path_event \<Rightarrow> carrier_controller" where
  "controller_step cc (Congestion now at persistent lost) = on_congestion_event cc now at persistent lost"
| "controller_step cc (MtuUpdate mtu) = on_mtu_update cc mtu"

interpretation carrier_window: invariant_machine controller_step "\<lambda>cc. cc_window cc = 1048576 \<and> initial_window cc = 1048576"
proof unfold_locales
  fix cc ev
  assume "cc_window cc = 1048576 \<and> initial_window cc = 1048576"
  then show "cc_window (controller_step cc ev) = 1048576 \<and> initial_window (controller_step cc ev) = 1048576"
    by (cases ev) (simp_all add: on_congestion_event_def on_mtu_update_def)
qed

lemma carrier_window_constant:
  "cc_window (foldl controller_step (tc_congestion_controller transport_config now mtu) events) = 1048576"
  using carrier_window.run_invar [of "tc_congestion_controller transport_config now mtu" events]
  by (simp add: transport_config_def build_controller_def CARRIER_WINDOW_def initial_window_def)

section \<open>Properties\<close>

text \<open>The endpoints fit together.  A server endpoint exists if and only if its certificate file holds at least one
  certificate and nothing unreadable, its key file a key that fits them, and its socket can be bound; it presents
  exactly these certificates.  A client endpoint trusts exactly the certificates of its file and no others.  Both
  speak the same single protocol, and a connection admits the authentication stream and every lane that can be configured.\<close>

theorem endpoints_compatible:
  "(server_endpoint lib listen cert private_key = Inr srv \<longleftrightarrow>
     (\<exists>contents pem cs k. cert = Some contents \<and> lib_certs lib contents = map Some cs \<and> cs \<noteq> [] \<and>
        private_key = Some pem \<and> lib_private_key lib pem = Some (Some k) \<and> lib_single_cert lib cs k \<and>
        lib_quic_config lib \<and> lib_bind lib listen \<and>
        srv = \<lparr>ep_identity = Some (cs, k), ep_roots = [], ep_alpn = [map of_char ''h3''], ep_transport = transport_config\<rparr>)) \<and>
   (client_endpoint lib local ca_cert = Inr cl \<longleftrightarrow>
     (\<exists>contents cs. ca_cert = Some contents \<and> lib_certs lib contents = map Some cs \<and> cs \<noteq> [] \<and> list_all (lib_add_root lib) cs \<and>
        lib_quic_config lib \<and> lib_bind lib local \<and>
        cl = \<lparr>ep_identity = None, ep_roots = cs, ep_alpn = [map of_char ''h3''], ep_transport = transport_config\<rparr>)) \<and>
   (case parse_stream_lanes v of Inl _ \<Rightarrow> True | Inr lanes \<Rightarrow> 1 + lanes \<le> unat (tc_max_concurrent_bidi_streams transport_config))"
proof (intro conjI)
  show "case parse_stream_lanes v of Inl _ \<Rightarrow> True | Inr lanes \<Rightarrow> 1 + lanes \<le> unat (tc_max_concurrent_bidi_streams transport_config)"
    by (auto simp: parse_stream_lanes_def transport_config_def MAX_STREAM_LANES_def split: sum.split option.splits if_splits)
qed (auto simp: server_endpoint_def client_endpoint_def rbind_eq_Inr_iff load_certificates_Inr load_private_key_Inr add_roots_Inr
    ALPN_def list_all_iff)

text \<open>A library that accepts every certificate of one byte and every key.\<close>

definition sample_library :: tls_library where
  "sample_library = \<lparr>lib_certs = map (\<lambda>b. Some [b]), lib_private_key = (\<lambda>pem. Some (if pem = [] then None else Some pem)),
     lib_single_cert = (\<lambda>cs k. True), lib_add_root = (\<lambda>x. True), lib_quic_config = True, lib_bind = (\<lambda>a. a \<noteq> 443)\<rparr>"

theorem endpoints_compatible_witness:
  "server_endpoint sample_library 8443 (Some [1, 2]) (Some [3]) =
     Inr \<lparr>ep_identity = Some ([[1], [2]], [3]), ep_roots = [], ep_alpn = [map of_char ''h3''], ep_transport = transport_config\<rparr>"
proof -
  let ?srv = "\<lparr>ep_identity = Some ([[1], [2]], [3]), ep_roots = [], ep_alpn = [map of_char ''h3''], ep_transport = transport_config\<rparr>"
  note w = endpoints_compatible [of sample_library 8443 "Some [1, 2]" "Some [3]" ?srv]
  show ?thesis by (rule iffD2 [OF conjunct1 [OF w]]) (simp add: sample_library_def)
qed

end
