(* ===== verification/Program_Start.thy ===== *)
theory Program_Start
  imports Server_Sessions Pacer Balancer Quic_Endpoint
begin

text \<open>
  The start of the program (\<open>main\<close> and the opening lines of its five commands in \<open>src/main.rs\<close> and
  \<open>src/quic_relay.rs\<close>): from a parsed command line to a running component, or to the first error.  The command
  line parser is a library; its result is the argument here, with the defaults the program declares.
\<close>

section \<open>Commands\<close>

definition ipv4 :: "nat \<Rightarrow> nat \<Rightarrow> nat \<Rightarrow> nat \<Rightarrow> nat \<Rightarrow> addr" where
  "ipv4 a b c d port = (((a * 256 + b) * 256 + c) * 256 + d) * 65536 + port"

text \<open>Files are named by their paths; a rate is \<open>None\<close> when it is not finite.\<close>

datatype command =
    Client (listen: addr) addr utext "u64 option" "rat option"
  | Server (listen: addr) (upstream: addr) "utext option" "string option" nat nat "rat option"
  | Balance (listen: addr) "addr list"
  | QuicClient (listen: addr) addr string string u64 utext
  | QuicServer (listen: addr) (upstream: addr) string string string

text \<open>The commands with only their required arguments given.\<close>

definition default_client :: "addr \<Rightarrow> utext \<Rightarrow> command" where
  "default_client srv k = Client (ipv4 127 0 0 1 3333) srv k None (Some 10)"

definition default_server :: command where
  "default_server = Server (ipv4 0 0 0 0 4096) (ipv4 127 0 0 1 443) None None 1024 120 (Some 10)"

definition default_balance :: "addr list \<Rightarrow> command" where
  "default_balance ups = Balance (ipv4 127 0 0 1 18080) ups"

definition default_quic_client :: "addr \<Rightarrow> string \<Rightarrow> string \<Rightarrow> u64 \<Rightarrow> utext \<Rightarrow> command" where
  "default_quic_client srv name ca kid k = QuicClient (ipv4 127 0 0 1 8444) srv name ca kid k"

definition default_quic_server :: "string \<Rightarrow> string \<Rightarrow> string \<Rightarrow> command" where
  "default_quic_server cert pk ring = QuicServer (ipv4 0 0 0 0 443) (ipv4 127 0 0 1 8443) cert pk ring"

section \<open>The five components\<close>

text \<open>What the program finds on its host: files with their modes, sockets that can be bound and connected, the clock,
  the random session number and the forced parity of debug builds.\<close>

record host =
  host_tls :: tls_library
  host_mode :: "string \<Rightarrow> u32 option"
  host_text :: "string \<Rightarrow> utext option"
  host_file :: "string \<Rightarrow> bytes option"
  host_bind :: "addr \<Rightarrow> bool"
  host_connect :: "addr \<Rightarrow> bool"
  host_now :: instant
  host_session :: u64
  host_parity :: "nat option"

datatype program =
    ClientProgram tunnel_client pacer
  | ServerProgram server_state pacer
  | BalanceProgram balancer
  | QuicClientProgram endpoint u64 utext
  | QuicServerProgram endpoint "(u64 \<times> utext) list" replay_cache

definition ensure :: "bool \<Rightarrow> string \<Rightarrow> unit result" where
  "ensure b e = (if b then Inr () else Inl (Bail e))"

definition start_client :: "crypto \<Rightarrow> host \<Rightarrow> addr \<Rightarrow> addr \<Rightarrow> utext \<Rightarrow> u64 option \<Rightarrow> rat option \<Rightarrow> program result" where
  "start_client c h local srv secret kid rate =
     rbind (client_new (key c secret) kid (host_session h) (host_parity h)) (\<lambda>cl.
     rbind (ensure (host_bind h local) ''bind client listen'') (\<lambda>_.
     rbind (ensure (host_bind h (ipv4 0 0 0 0 0)) ''bind'') (\<lambda>_.
     rbind (ensure (host_connect h srv) ''connect'') (\<lambda>_.
     rbind (pacer_new rate (host_now h)) (\<lambda>p. Inr (ClientProgram cl p))))))"

definition start_server ::
  "crypto \<Rightarrow> host \<Rightarrow> addr \<Rightarrow> utext option \<Rightarrow> string option \<Rightarrow> nat \<Rightarrow> nat \<Rightarrow> rat option \<Rightarrow> program result" where
  "start_server c h local legacy_secret keyring_path max_sessions idle_secs rate =
     rbind (server_new c (map_option (key c) legacy_secret)
         (map_option (\<lambda>path. load_keyring c (host_mode h path) (host_text h path)) keyring_path) max_sessions idle_secs (host_parity h)) (\<lambda>srv.
     rbind (ensure (host_bind h local) ''bind server listen'') (\<lambda>_.
     rbind (pacer_new rate (host_now h)) (\<lambda>p. Inr (ServerProgram srv p))))"

definition start_balance :: "host \<Rightarrow> addr \<Rightarrow> addr list \<Rightarrow> program result" where
  "start_balance h local addresses =
     rbind (balance_new addresses) (\<lambda>bl. rbind (ensure (host_bind h local) ''bind balance listen'') (\<lambda>_. Inr (BalanceProgram bl)))"

definition start_quic_client :: "host \<Rightarrow> addr \<Rightarrow> string \<Rightarrow> u64 \<Rightarrow> utext \<Rightarrow> program result" where
  "start_quic_client h local ca_cert did secret =
     rbind (client_endpoint (host_tls h) (ipv4 0 0 0 0 0) (host_file h ca_cert)) (\<lambda>ep.
     rbind (ensure (host_bind h local) ''bind local QUIC relay'') (\<lambda>_. Inr (QuicClientProgram ep did secret)))"

definition start_quic_server :: "host \<Rightarrow> addr \<Rightarrow> string \<Rightarrow> string \<Rightarrow> string \<Rightarrow> program result" where
  "start_quic_server h local cert private_key keyring =
     rbind (server_endpoint (host_tls h) local (host_file h cert) (host_file h private_key)) (\<lambda>ep.
     rbind (relay_parse_keyring (host_mode h keyring) (host_text h keyring)) (\<lambda>ks.
     rbind (replay_cache_new DEFAULT_REPLAY_CAPACITY) (\<lambda>rc. Inr (QuicServerProgram ep ks rc))))"

fun main :: "crypto \<Rightarrow> host \<Rightarrow> command \<Rightarrow> program result" where
  "main c h (Client local srv secret kid rate) = start_client c h local srv secret kid rate"
| "main c h (Server local up secret ring max_sessions idle_secs rate) = start_server c h local secret ring max_sessions idle_secs rate"
| "main c h (Balance local ups) = start_balance h local ups"
| "main c h (QuicClient local srv server_name ca_cert did secret) = start_quic_client h local ca_cert did secret"
| "main c h (QuicServer local up cert private_key ring) = start_quic_server h local cert private_key ring"

section \<open>Lemmas\<close>

lemma ensure_Inr [simp]: "ensure b e = Inr x \<longleftrightarrow> b"
  by (simp add: ensure_def)

definition rate_ok :: "rat option \<Rightarrow> bool" where
  "rate_ok rate \<longleftrightarrow> (case rate of None \<Rightarrow> False | Some r \<Rightarrow> 1 \<le> r \<and> r \<le> 1000)"

lemma pacer_new_starts: "(\<exists>p. pacer_new rate now = Inr p) \<longleftrightarrow> rate_ok rate"
  by (auto simp: pacer_new_def rate_ok_def Let_def split: option.split)

lemma client_new_starts: "(\<exists>cl. client_new k kid ses forced = Inr cl) \<longleftrightarrow> kid \<notin> {None, Some 0}"
  by (auto simp: client_new_def split: option.split)

lemma server_new_starts:
  "(\<exists>srv. server_new c lk keyring m idle forced = Inr srv) \<longleftrightarrow>
     1 \<le> m \<and> m \<le> 65536 \<and> 10 \<le> idle \<and> idle \<le> 86400 \<and>
     (case keyring of None \<Rightarrow> lk \<noteq> None
      | Some r \<Rightarrow> \<exists>ks. r = Inr ks \<and> (lk \<noteq> None \<or> ks \<noteq> []) \<and> distinct (map (v3_selector_prefix c \<circ> fst) ks))"
proof (cases keyring)
  case None
  then show ?thesis by (auto simp: server_new_def)
next
  case (Some r)
  then show ?thesis by (cases r) (auto simp: server_new_def rbind_eq_Inr_iff build_selectors_result Suc_le_eq)
qed

lemma balance_new_starts: "(\<exists>bl. balance_new ups = Inr bl) \<longleftrightarrow> 2 \<le> length ups"
  by (auto simp: balance_new_def)

lemma client_endpoint_starts:
  "(\<exists>ep. client_endpoint lib a file = Inr ep) \<longleftrightarrow>
     (\<exists>contents cs. file = Some contents \<and> lib_certs lib contents = map Some cs \<and> cs \<noteq> [] \<and> list_all (lib_add_root lib) cs) \<and>
     lib_quic_config lib \<and> lib_bind lib a"
  by (auto simp: client_endpoint_def rbind_eq_Inr_iff load_certificates_Inr add_roots_Inr list_all_iff)

lemma server_endpoint_starts:
  "(\<exists>ep. server_endpoint lib a file pk = Inr ep) \<longleftrightarrow>
     (\<exists>contents cs pem k. file = Some contents \<and> lib_certs lib contents = map Some cs \<and> cs \<noteq> [] \<and>
        pk = Some pem \<and> lib_private_key lib pem = Some (Some k) \<and> lib_single_cert lib cs k) \<and>
     lib_quic_config lib \<and> lib_bind lib a"
  by (auto simp: server_endpoint_def rbind_eq_Inr_iff load_certificates_Inr load_private_key_Inr)

text \<open>When a command starts, in terms of its arguments and the host.\<close>

fun startable :: "crypto \<Rightarrow> host \<Rightarrow> command \<Rightarrow> bool" where
  "startable c h (Client local srv secret kid rate) \<longleftrightarrow>
     kid \<notin> {None, Some 0} \<and> host_bind h local \<and> host_bind h (ipv4 0 0 0 0 0) \<and> host_connect h srv \<and> rate_ok rate"
| "startable c h (Server local up secret ring max_sessions idle_secs rate) \<longleftrightarrow>
     1 \<le> max_sessions \<and> max_sessions \<le> 65536 \<and> 10 \<le> idle_secs \<and> idle_secs \<le> 86400 \<and>
     (case ring of None \<Rightarrow> secret \<noteq> None
      | Some path \<Rightarrow> \<exists>ks. load_keyring c (host_mode h path) (host_text h path) = Inr ks \<and> (secret \<noteq> None \<or> ks \<noteq> []) \<and>
          distinct (map (v3_selector_prefix c \<circ> fst) ks)) \<and>
     host_bind h local \<and> rate_ok rate"
| "startable c h (Balance local ups) \<longleftrightarrow> 2 \<le> length ups \<and> host_bind h local"
| "startable c h (QuicClient local srv server_name ca_cert did secret) \<longleftrightarrow>
     (\<exists>contents cs. host_file h ca_cert = Some contents \<and> lib_certs (host_tls h) contents = map Some cs \<and> cs \<noteq> [] \<and>
        list_all (lib_add_root (host_tls h)) cs) \<and>
     lib_quic_config (host_tls h) \<and> lib_bind (host_tls h) (ipv4 0 0 0 0 0) \<and> host_bind h local"
| "startable c h (QuicServer local up cert private_key ring) \<longleftrightarrow>
     (\<exists>contents cs pem k. host_file h cert = Some contents \<and> lib_certs (host_tls h) contents = map Some cs \<and> cs \<noteq> [] \<and>
        host_file h private_key = Some pem \<and> lib_private_key (host_tls h) pem = Some (Some k) \<and> lib_single_cert (host_tls h) cs k) \<and>
     lib_quic_config (host_tls h) \<and> lib_bind (host_tls h) local \<and>
     (\<exists>ks. relay_parse_keyring (host_mode h ring) (host_text h ring) = Inr ks)"

lemma main_startable: "(\<exists>p. main c h cmd = Inr p) \<longleftrightarrow> startable c h cmd"
proof (cases cmd)
  case (Client local srv secret kid rate)
  then show ?thesis
    by (simp add: start_client_def rbind_eq_Inr_iff pacer_new_starts [symmetric, of rate "host_now h"]
        client_new_starts [symmetric, of kid "key c secret" "host_session h" "host_parity h"] del: insert_iff) blast
next
  case (Server local up secret ring max_sessions idle_secs rate)
  have "(\<exists>p. main c h cmd = Inr p) \<longleftrightarrow>
     (\<exists>srv. server_new c (map_option (key c) secret) (map_option (\<lambda>path. load_keyring c (host_mode h path) (host_text h path)) ring)
        max_sessions idle_secs (host_parity h) = Inr srv) \<and> host_bind h local \<and> (\<exists>p. pacer_new rate (host_now h) = Inr p)"
    using Server by (auto simp: start_server_def rbind_eq_Inr_iff)
  then show ?thesis unfolding server_new_starts pacer_new_starts using Server by (auto split: option.splits)
next
  case (Balance local ups)
  have "(\<exists>p. main c h cmd = Inr p) \<longleftrightarrow> (\<exists>bl. balance_new ups = Inr bl) \<and> host_bind h local"
    using Balance by (auto simp: start_balance_def rbind_eq_Inr_iff)
  then show ?thesis unfolding balance_new_starts using Balance by simp
next
  case (QuicClient local srv server_name ca_cert did secret)
  have "(\<exists>p. main c h cmd = Inr p) \<longleftrightarrow>
     (\<exists>ep. client_endpoint (host_tls h) (ipv4 0 0 0 0 0) (host_file h ca_cert) = Inr ep) \<and> host_bind h local"
    using QuicClient by (auto simp: start_quic_client_def rbind_eq_Inr_iff)
  then show ?thesis unfolding client_endpoint_starts using QuicClient by simp
next
  case (QuicServer local up cert private_key ring)
  have "(\<exists>p. main c h cmd = Inr p) \<longleftrightarrow>
     (\<exists>ep. server_endpoint (host_tls h) local (host_file h cert) (host_file h private_key) = Inr ep) \<and>
     (\<exists>ks. relay_parse_keyring (host_mode h ring) (host_text h ring) = Inr ks)"
    using QuicServer by (auto simp: start_quic_server_def rbind_eq_Inr_iff replay_cache_new_def DEFAULT_REPLAY_CAPACITY_def)
  then show ?thesis unfolding server_endpoint_starts using QuicServer by simp
qed

text \<open>The state in which a component starts.\<close>

fun program_ok :: "crypto \<Rightarrow> rs_code \<Rightarrow> program \<Rightarrow> bool" where
  "program_ok c rs (ClientProgram cl p) \<longleftrightarrow> c_key_id cl \<noteq> 0 \<and> c_app_peer cl = None \<and> pacer_inv p \<and>
     duplex_ok rs (c_session cl) VERSION_V3 (c_key_id cl) (c_decoder cl) (c_encoder cl)"
| "program_ok c rs (ServerProgram srv p) \<longleftrightarrow> server_ok c rs srv \<and> srv_sessions srv = [] \<and> pacer_inv p"
| "program_ok c rs (BalanceProgram bl) \<longleftrightarrow> 2 \<le> length (bl_upstreams bl) \<and> list_all (\<lambda>u. bu_healthy u \<and> bu_active u = 0) (bl_upstreams bl)"
| "program_ok c rs (QuicClientProgram ep did secret) \<longleftrightarrow> ep_identity ep = None \<and> ep_roots ep \<noteq> []"
| "program_ok c rs (QuicServerProgram ep ks rc) \<longleftrightarrow> ep_identity ep \<noteq> None \<and> keyring_ok ks \<and> ks \<noteq> [] \<and> cache_inv rc \<and> entries rc = []"

lemma main_program_ok:
  assumes "main c h cmd = Inr p"
  shows "program_ok c rs p"
proof (cases cmd)
  case (Client local srv secret kid rate)
  then show ?thesis
    using assms duplex_new pacer_new_inv(1)
    by (auto simp: start_client_def rbind_eq_Inr_iff client_new_def split: option.splits if_splits)
next
  case (Server local up secret ring max_sessions idle_secs rate)
  then obtain srv q where "p = ServerProgram srv q" and n: "server_new c (map_option (key c) secret)
      (map_option (\<lambda>path. load_keyring c (host_mode h path) (host_text h path)) ring) max_sessions idle_secs (host_parity h) = Inr srv"
    and "pacer_new rate (host_now h) = Inr q"
    using assms by (auto simp: start_server_def rbind_eq_Inr_iff)
  moreover have "srv_sessions srv = []" using n by (auto simp: server_new_def rbind_eq_Inr_iff split: if_splits)
  ultimately show ?thesis using server_new_ok [OF n] pacer_new_inv(1) by simp
next
  case (Balance local ups)
  then show ?thesis
    using assms by (auto simp: start_balance_def rbind_eq_Inr_iff balance_new_def list_all_iff split: if_splits)
next
  case (QuicClient local srv server_name ca_cert did secret)
  then show ?thesis
    using assms by (auto simp: start_quic_client_def rbind_eq_Inr_iff client_endpoint_def load_certificates_Inr add_roots_Inr split: if_splits)
next
  case (QuicServer local up cert private_key ring)
  then obtain ep ks rc where p: "p = QuicServerProgram ep ks rc" and k: "relay_parse_keyring (host_mode h ring) (host_text h ring) = Inr ks"
    and ep: "server_endpoint (host_tls h) local (host_file h cert) (host_file h private_key) = Inr ep"
    and rc: "replay_cache_new DEFAULT_REPLAY_CAPACITY = Inr rc"
    using assms by (auto simp: start_quic_server_def rbind_eq_Inr_iff)
  have "ep_identity ep \<noteq> None" using ep by (auto simp: server_endpoint_def rbind_eq_Inr_iff split: if_splits)
  moreover have "ks \<noteq> []" using k by (auto simp: relay_parse_keyring_def rbind_eq_Inr_iff split: option.splits if_splits)
  moreover have "cache_inv rc" "entries rc = []"
    using rc by (auto simp: replay_cache_new_def DEFAULT_REPLAY_CAPACITY_def cache_inv_def cache_sync_def)
  ultimately show ?thesis using p relay_keyring_ok [OF k] by simp
qed

lemma decode_without_keys: "\<exists>e. decode_server_frame c buf [] = Inl e"
proof (cases "decode_server_frame c buf []")
  case (Inr r)
  then show ?thesis using server_frame_v3(2) [of c buf "[]" "fst r" "snd r"] by simp
qed simp

lemma server_without_keys:
  assumes "srv_selectors srv = []" and "srv_sessions srv = []"
  shows "server_loop c rs srv events = (srv, [])"
proof (induction events)
  case Nil
  then show ?case by simp
next
  case (Cons ev events)
  have "server_step c rs srv ev = (srv, [])"
  proof (cases ev)
    case (ServerRecv now buf peer)
    obtain e where "decode_server_frame c buf [] = Inl e" using decode_without_keys by blast
    then show ?thesis using ServerRecv assms by (simp add: server_recv_def)
  qed (use assms in \<open>simp_all add: server_cleanup_def remove_all_def\<close>)
  then show ?case using Cons by (simp del: server_step.simps)
qed

text \<open>Without a key identifier the client refuses to start, and without any key the server does; everything else has a default.\<close>

lemma bare_commands_refused:
  "\<not> startable c h (default_client srv k)" "\<not> startable c h default_server"
  "startable c h (default_balance ups) \<longleftrightarrow> 2 \<le> length ups \<and> host_bind h (ipv4 127 0 0 1 18080)"
  by (simp_all add: default_client_def default_server_def default_balance_def)

section \<open>Properties\<close>


text \<open>C38: a server that is started with \<open>--key\<close> and without \<open>--keyring\<close> is deaf: it starts, but no packet whatsoever
  opens a session or makes it send anything, because the legacy key is never used.\<close>

theorem legacy_server_deaf:
  assumes "main c h (Server local up (Some secret) None max_sessions idle_secs rate) = Inr (ServerProgram srv p)"
  shows "server_loop c rs srv events = (srv, []) \<and> srv_sessions srv = []"
proof -
  have "srv_selectors srv = []" "srv_sessions srv = []"
    using assms by (auto simp: start_server_def server_new_def rbind_eq_Inr_iff split: if_splits)
  then show ?thesis using server_without_keys by simp
qed

definition sample_host :: host where
  "sample_host = \<lparr>host_tls = sample_library, host_mode = (\<lambda>_. None), host_text = (\<lambda>_. None), host_file = (\<lambda>_. Some [1]),
     host_bind = (\<lambda>_. True), host_connect = (\<lambda>_. True), host_now = 5, host_session = 7, host_parity = None\<rparr>"

definition migrating_server :: server_state where
  "migrating_server = \<lparr>srv_selectors = [], srv_max = 1024, srv_idle = 120000000000, srv_forced = None, srv_sessions = []\<rparr>"

theorem legacy_server_deaf_witness:
  "server_loop sum_crypto xor_code migrating_server [ServerRecv (\<lambda>_. 5) [1, 2, 3, 4, 5, 6, 7, 8, 9] 80, Cleanup 6] = (migrating_server, [])"
proof -
  have "main sum_crypto sample_host (Server (ipv4 0 0 0 0 4096) (ipv4 127 0 0 1 443) (Some [65]) None 1024 120 (Some 10)) =
      Inr (ServerProgram migrating_server (projr (pacer_new (Some 10) 5)))"
    by (simp add: start_server_def server_new_def ensure_def sample_host_def pacer_new_def Let_def migrating_server_def)
  from legacy_server_deaf [OF this] show ?thesis by blast
qed

lemma hopeless_attempt:
  "did = 0 \<or> isl (parse_stream_lanes v) \<Longrightarrow> attempt_connection c did secret v a = (False, [])"
  by (auto simp: attempt_connection_def authenticate_client_def client_proof_def isl_def rbind_eq_Inr_iff split: sum.split)

lemma hopeless_outputs:
  "did = 0 \<or> isl (parse_stream_lanes v) \<Longrightarrow> map fst (run_client c did secret v delay attempts) = replicate (length attempts) []"
  by (induction attempts arbitrary: delay) (simp_all add: hopeless_attempt Let_def)

text \<open>\<open>quic-client\<close> does not check its device identifier and the lane variable when it starts: with identifier zero or an
  unsupported lane mode it starts like any other and never gets anywhere.  No attempt relays anything, and the
  pauses between the attempts double up to thirty seconds.\<close>

theorem quic_client_misconfigured_retries:
  assumes "did = 0 \<or> isl (parse_stream_lanes v)"
  shows "map fst (run_client c did secret v 1 attempts) = replicate (length attempts) [] \<and>
     map snd (run_client c did secret v 1 attempts) = map (\<lambda>i. min (2 ^ i) 30) [0..<length attempts] \<and>
     startable c h (QuicClient local srv server_name ca_cert did text) = startable c h (QuicClient local srv server_name ca_cert did' text')"
proof -
  have "map (\<lambda>a. fst (attempt_connection c did secret v a)) attempts = replicate (length attempts) False"
    using hopeless_attempt [OF assms] by (intro replicate_eqI) auto
  then have "map snd (run_client c did secret v 1 attempts) = map (\<lambda>i. min (2 ^ i) 30) [0..<length attempts]"
    using backoff_fails [of 0 "length attempts"] by (simp add: run_client_backoff)
  then show ?thesis using hopeless_outputs [OF assms] by simp
qed

theorem quic_client_misconfigured_retries_witness:
  "map snd (run_client sum_crypto 0 [1, 2] None 1 (replicate 6 (sample_client_attempt True))) = [1, 2, 4, 8, 16, 30]"
  using quic_client_misconfigured_retries [of 0 None sum_crypto "[1, 2]" "replicate 6 (sample_client_attempt True)"]
  by (simp add: upt_conv_Cons)

end
