(* ===== verification/Product_Config.thy ===== *)
theory Product_Config
  imports Fec_Prelude
begin

text \<open>
  The product configuration (\<open>src/product_config.rs\<close>): profiles, modules with their dependencies,
  operator overrides and \<open>resolve_modules\<close>, which turns a configuration into the set of modules to
  deploy or one of the configuration errors.  A \<open>BTreeSet\<close> is its strictly increasing list of
  elements, a \<open>BTreeMap\<close> an association list in key order; the order of modules is the order of
  their declaration, as \<open>derive(Ord)\<close> gives it.
\<close>

section \<open>Data\<close>

definition CURRENT_SCHEMA_VERSION :: u32 where "CURRENT_SCHEMA_VERSION = 1"

datatype profile = Standard | Enhanced | LowResource | Laboratory

datatype module_id =
    Tuic | Masque | AdaptiveFec | Pmtu | DirectEgress | MultiWarp | StableGoogleEgress
  | DnsDoh | DnsDotFallback | DnsDoq | Observability | AutomaticRollback

fun module_rank :: "module_id \<Rightarrow> nat" where
  "module_rank Tuic = 0"
| "module_rank Masque = 1"
| "module_rank AdaptiveFec = 2"
| "module_rank Pmtu = 3"
| "module_rank DirectEgress = 4"
| "module_rank MultiWarp = 5"
| "module_rank StableGoogleEgress = 6"
| "module_rank DnsDoh = 7"
| "module_rank DnsDotFallback = 8"
| "module_rank DnsDoq = 9"
| "module_rank Observability = 10"
| "module_rank AutomaticRollback = 11"

lemma module_rank_inj: "module_rank a = module_rank b \<Longrightarrow> a = b"
  by (cases a; cases b) simp_all

instantiation module_id :: linorder
begin

definition less_eq_module_id :: "module_id \<Rightarrow> module_id \<Rightarrow> bool" where
  "less_eq_module_id a b \<longleftrightarrow> module_rank a \<le> module_rank b"

definition less_module_id :: "module_id \<Rightarrow> module_id \<Rightarrow> bool" where
  "less_module_id a b \<longleftrightarrow> module_rank a < module_rank b"

instance
  by standard (auto simp: less_eq_module_id_def less_module_id_def intro: module_rank_inj)

end

datatype module_setting = Enabled | Disabled | Auto

record server_config =
  bandwidth_mbps :: u32
  public_tcp_port :: u16
  public_udp_port :: u16

record product_config =
  schema_version :: u32
  profile :: profile
  server :: server_config
  modules :: "(module_id \<times> module_setting) list"

datatype config_error =
    UnsupportedSchema u32 u32
  | ZeroBandwidth
  | UnsafePublicPort
  | MissingDependency module_id module_id
  | ConflictingTransports
  | ExperimentalModuleOutsideLaboratory module_id

section \<open>Operations\<close>

fun dependencies :: "module_id \<Rightarrow> module_id list" where
  "dependencies AdaptiveFec = [Tuic, Pmtu]"
| "dependencies MultiWarp = [DirectEgress]"
| "dependencies StableGoogleEgress = [DirectEgress]"
| "dependencies DnsDotFallback = [DnsDoh]"
| "dependencies DnsDoq = [DirectEgress]"
| "dependencies _ = []"

definition btree_set :: "'a::linorder list \<Rightarrow> 'a list" where
  "btree_set xs = fold insort_insert xs []"

fun profile_defaults :: "profile \<Rightarrow> module_id list" where
  "profile_defaults Standard = btree_set [Tuic, AdaptiveFec, Pmtu, DirectEgress, DnsDoh, DnsDotFallback, Observability, AutomaticRollback]"
| "profile_defaults Enhanced = btree_set [Tuic, AdaptiveFec, Pmtu, DirectEgress, MultiWarp, StableGoogleEgress, DnsDoh,
     DnsDotFallback, Observability, AutomaticRollback]"
| "profile_defaults LowResource = btree_set [Tuic, AdaptiveFec, Pmtu, DirectEgress, DnsDoh, AutomaticRollback]"
| "profile_defaults Laboratory = btree_set [Masque, Pmtu, DirectEgress, DnsDoh, DnsDoq, Observability, AutomaticRollback]"

definition for_profile :: "profile \<Rightarrow> product_config" where
  "for_profile p = \<lparr>schema_version = CURRENT_SCHEMA_VERSION, profile = p,
     server = \<lparr>bandwidth_mbps = 30, public_tcp_port = 443, public_udp_port = 443\<rparr>, modules = []\<rparr>"

definition validate_scalar_fields :: "product_config \<Rightarrow> config_error + unit" where
  "validate_scalar_fields cfg =
     (if schema_version cfg \<noteq> CURRENT_SCHEMA_VERSION then Inl (UnsupportedSchema (schema_version cfg) CURRENT_SCHEMA_VERSION)
      else if bandwidth_mbps (server cfg) = 0 then Inl ZeroBandwidth
      else if public_tcp_port (server cfg) = 0 \<or> public_udp_port (server cfg) = 0 then Inl UnsafePublicPort
      else Inr ())"

fun apply_setting :: "module_id \<times> module_setting \<Rightarrow> module_id list \<Rightarrow> module_id list" where
  "apply_setting (m, Enabled) resolved = insort_insert m resolved"
| "apply_setting (m, Disabled) resolved = removeAll m resolved"
| "apply_setting (m, Auto) resolved = resolved"

definition resolve_modules :: "product_config \<Rightarrow> config_error + module_id list" where
  "resolve_modules cfg =
     (case validate_scalar_fields cfg of
        Inl e \<Rightarrow> Inl e
      | Inr _ \<Rightarrow>
          (let resolved = fold apply_setting (modules cfg) (profile_defaults (profile cfg)) in
           if Tuic \<in> set resolved \<and> Masque \<in> set resolved then Inl ConflictingTransports
           else case find (\<lambda>e. e \<in> set resolved \<and> profile cfg \<noteq> Laboratory) [Masque, DnsDoq] of
             Some e \<Rightarrow> Inl (ExperimentalModuleOutsideLaboratory e)
           | None \<Rightarrow>
               (case find (\<lambda>(m, d). d \<notin> set resolved) (concat (map (\<lambda>m. map (Pair m) (dependencies m)) resolved)) of
                  Some (m, d) \<Rightarrow> Inl (MissingDependency m d)
                | None \<Rightarrow> Inr resolved)))"

section \<open>Sorted lists as sets\<close>

definition btree_ok :: "'a::linorder list \<Rightarrow> bool" where
  "btree_ok xs \<longleftrightarrow> sorted xs \<and> distinct xs"

lemma btree_ok_insert: "btree_ok xs \<Longrightarrow> btree_ok (insort_insert x xs)"
  by (simp add: btree_ok_def sorted_insort_insert distinct_insort_insert)

lemma btree_ok_remove: "btree_ok xs \<Longrightarrow> btree_ok (removeAll x xs)"
  by (simp add: btree_ok_def removeAll_filter_not_eq sorted_wrt_filter)

lemma btree_set_ok: "btree_ok (btree_set xs) \<and> set (btree_set xs) = set xs"
proof -
  have "btree_ok acc \<Longrightarrow> btree_ok (fold insort_insert xs acc) \<and> set (fold insort_insert xs acc) = set xs \<union> set acc" for acc
    by (induction xs arbitrary: acc) (auto simp: btree_ok_insert set_insort_insert)
  from this [of "[]"] show ?thesis by (simp add: btree_set_def btree_ok_def)
qed

lemma profile_defaults_ok: "btree_ok (profile_defaults p)"
  by (cases p) (simp_all add: btree_set_ok)

text \<open>The set of modules an operator asks for: an override decides, otherwise the profile.\<close>

definition requested :: "product_config \<Rightarrow> module_id set" where
  "requested cfg = {m. case map_of (modules cfg) m of
     Some Enabled \<Rightarrow> True | Some Disabled \<Rightarrow> False | _ \<Rightarrow> m \<in> set (profile_defaults (profile cfg))}"

lemma apply_setting_ok: "btree_ok xs \<Longrightarrow> btree_ok (apply_setting s xs)"
  by (cases s; cases "snd s") (simp_all add: btree_ok_insert btree_ok_remove)

lemma fold_settings_ok: "btree_ok xs \<Longrightarrow> btree_ok (fold apply_setting ss xs)"
  by (induction ss arbitrary: xs) (simp_all add: apply_setting_ok)

lemma set_fold_settings:
  assumes "distinct (keys ss)"
  shows "set (fold apply_setting ss xs) =
    {m. case map_of ss m of Some Enabled \<Rightarrow> True | Some Disabled \<Rightarrow> False | _ \<Rightarrow> m \<in> set xs}"
  using assms
proof (induction ss arbitrary: xs)
  case Nil
  then show ?case by simp
next
  case (Cons s ss)
  obtain k v where s: "s = (k, v)" by fastforce
  have k: "map_of ss k = None" using Cons.prems s by (simp add: map_of_None_keys)
  show ?case
    unfolding fold_simps comp_apply using Cons.IH [of "apply_setting s xs"] Cons.prems k s
    by (cases v) (auto simp: set_insort_insert split: option.splits module_setting.splits)
qed

section \<open>Properties\<close>

text \<open>What makes a set of modules deployable under a profile.\<close>

definition deployable :: "profile \<Rightarrow> module_id set \<Rightarrow> bool" where
  "deployable p S \<longleftrightarrow> \<not> (Tuic \<in> S \<and> Masque \<in> S) \<and> (p = Laboratory \<or> Masque \<notin> S \<and> DnsDoq \<notin> S) \<and>
     (\<forall>m \<in> S. set (dependencies m) \<subseteq> S)"

lemma find_missing:
  "find (\<lambda>(m, d). d \<notin> set xs) (concat (map (\<lambda>m. map (Pair m) (dependencies m)) ys)) = None \<longleftrightarrow>
   (\<forall>m \<in> set ys. set (dependencies m) \<subseteq> set xs)"
  by (auto simp: find_None_iff)

lemma find_missing_Some:
  assumes "find (\<lambda>(m, d). d \<notin> set xs) (concat (map (\<lambda>m. map (Pair m) (dependencies m)) ys)) = Some (m, d)"
  shows "m \<in> set ys \<and> d \<in> set (dependencies m) \<and> d \<notin> set xs"
  using assms by (fastforce simp: find_Some_iff dest: nth_mem)

text \<open>C25: module resolution is exact.  A configuration is accepted if and only if its scalar fields are valid and
  the requested set (operator overrides over profile defaults) is deployable, and then the result is that
  set, in order and without repetition; otherwise the error names what is wrong with the request.\<close>

theorem resolve_modules_exact:
  assumes "distinct (keys (modules cfg))"
  shows "case resolve_modules cfg of
      Inr ms \<Rightarrow> validate_scalar_fields cfg = Inr () \<and> deployable (profile cfg) (requested cfg) \<and>
        set ms = requested cfg \<and> sorted ms \<and> distinct ms
    | Inl e \<Rightarrow> validate_scalar_fields cfg = Inl e \<or> validate_scalar_fields cfg = Inr () \<and>
        \<not> deployable (profile cfg) (requested cfg) \<and>
        (case e of
           ConflictingTransports \<Rightarrow> {Tuic, Masque} \<subseteq> requested cfg
         | ExperimentalModuleOutsideLaboratory m \<Rightarrow> m \<in> {Masque, DnsDoq} \<inter> requested cfg \<and> profile cfg \<noteq> Laboratory
         | MissingDependency m d \<Rightarrow> m \<in> requested cfg \<and> d \<in> set (dependencies m) \<and> d \<notin> requested cfg
         | _ \<Rightarrow> False)"
proof (cases "validate_scalar_fields cfg")
  case (Inl e)
  then show ?thesis by (simp add: resolve_modules_def)
next
  case (Inr u)
  define ms where "ms = fold apply_setting (modules cfg) (profile_defaults (profile cfg))"
  have ok: "btree_ok ms" unfolding ms_def by (rule fold_settings_ok [OF profile_defaults_ok])
  have req: "requested cfg = set ms"
    unfolding ms_def requested_def using set_fold_settings [OF assms] by simp
  show ?thesis
  proof (cases "Tuic \<in> set ms \<and> Masque \<in> set ms")
    case True
    then show ?thesis using Inr req by (simp add: resolve_modules_def ms_def [symmetric] deployable_def)
  next
    case noconf: False
    show ?thesis
    proof (cases "profile cfg \<noteq> Laboratory \<and> (Masque \<in> set ms \<or> DnsDoq \<in> set ms)")
      case True
      then show ?thesis using Inr noconf req by (auto simp: resolve_modules_def ms_def [symmetric] deployable_def)
    next
      case False
      then have f: "find (\<lambda>e. e \<in> set ms \<and> profile cfg \<noteq> Laboratory) [Masque, DnsDoq] = None" by auto
      let ?find = "find (\<lambda>(m, d). d \<notin> set ms) (concat (map (\<lambda>m. map (Pair m) (dependencies m)) ms))"
      show ?thesis
      proof (cases ?find)
        case None
        then have "resolve_modules cfg = Inr ms"
          using Inr noconf f unfolding resolve_modules_def ms_def [symmetric] by (simp add: Let_def)
        then show ?thesis
          using Inr False noconf None req ok find_missing [of ms ms] by (auto simp: deployable_def btree_ok_def)
      next
        case (Some p)
        obtain m d where p: "p = (m, d)" by fastforce
        have "resolve_modules cfg = Inl (MissingDependency m d)"
          using Inr noconf f Some p unfolding resolve_modules_def ms_def [symmetric] by (simp add: Let_def)
        then show ?thesis
          using Inr req find_missing_Some [OF Some [unfolded p]] by (auto simp: deployable_def)
      qed
    qed
  qed
qed

theorem resolve_modules_exact_witness:
  "case resolve_modules (for_profile Standard\<lparr>modules := [(Pmtu, Disabled)]\<rparr>) of
     Inr _ \<Rightarrow> False | Inl e \<Rightarrow> e = MissingDependency AdaptiveFec Pmtu"
proof -
  have eq: "resolve_modules (for_profile Standard\<lparr>modules := [(Pmtu, Disabled)]\<rparr>) = Inl (MissingDependency AdaptiveFec Pmtu)"
    by code_simp
  have "distinct (keys (modules (for_profile Standard\<lparr>modules := [(Pmtu, Disabled)]\<rparr>)))" by simp
  from resolve_modules_exact [OF this] show ?thesis unfolding eq by simp
qed

lemma profile_resolves: "resolve_modules (for_profile p) = Inr (profile_defaults p)"
  by (cases p; hypsubst) code_simp+

text \<open>Every shipped profile is deployable as it stands, and its defaults are what it resolves to.\<close>

theorem profiles_resolve: "resolve_modules (for_profile p) = Inr (profile_defaults p)"
  by (rule profile_resolves)

end
