(* ===== verification/Deployment_Plan.thy ===== *)
theory Deployment_Plan
  imports Product_Config
begin

text \<open>
  The planner (\<open>Planner\<close> and \<open>requested_bindings\<close> of \<open>src/controller.rs\<close>) and the
  read-only command line around it (\<open>src/bin/smart-gateway-controller.rs\<close>).  Probing a port is an
  argument: what \<open>PortProbe::conflict\<close> answers for a binding.
\<close>

section \<open>Data and operations\<close>

datatype transport_protocol = Tcp | Udp

record port_binding =
  pb_address :: nat
  pb_port :: u16
  pb_protocol :: transport_protocol
  pb_owner :: string

record port_conflict =
  pc_requested :: port_binding
  pc_current_owner :: "string option"

datatype plan_action =
    EnableModule module_id
  | BindPort port_binding
  | StageRevision
  | ValidateCandidate
  | CommitRevision

record deployment_plan =
  dp_schema_version :: u32
  dp_modules :: "module_id list"
  dp_actions :: "plan_action list"
  dp_conflicts :: "port_conflict list"

datatype 'io plan_error = Config config_error | Probe 'io

text \<open>\<open>0.0.0.0\<close>\<close>

definition UNSPECIFIED :: nat where "UNSPECIFIED = 0"

definition requested_bindings :: "product_config \<Rightarrow> module_id list \<Rightarrow> port_binding list" where
  "requested_bindings cfg ms =
     (if Tuic \<in> set ms \<or> Masque \<in> set ms
      then [\<lparr>pb_address = UNSPECIFIED, pb_port = public_udp_port (server cfg), pb_protocol = Udp,
             pb_owner = ''smart-gateway-transport''\<rparr>] else []) @
     [\<lparr>pb_address = UNSPECIFIED, pb_port = public_tcp_port (server cfg), pb_protocol = Tcp,
       pb_owner = ''smart-gateway-public''\<rparr>]"

fun probe_all :: "(port_binding \<Rightarrow> 'io + port_conflict option) \<Rightarrow> port_binding list \<Rightarrow> 'io + port_conflict list" where
  "probe_all probe [] = Inr []"
| "probe_all probe (b # bs) =
     (case probe b of
        Inl e \<Rightarrow> Inl e
      | Inr c \<Rightarrow>
          (case probe_all probe bs of
             Inl e \<Rightarrow> Inl e
           | Inr cs \<Rightarrow> Inr (case c of None \<Rightarrow> cs | Some x \<Rightarrow> x # cs)))"

definition build :: "(port_binding \<Rightarrow> 'io + port_conflict option) \<Rightarrow> product_config \<Rightarrow> 'io plan_error + deployment_plan" where
  "build probe cfg =
     (case resolve_modules cfg of
        Inl e \<Rightarrow> Inl (Config e)
      | Inr ms \<Rightarrow>
          (let bindings = requested_bindings cfg ms in
           case probe_all probe bindings of
             Inl e \<Rightarrow> Inl (Probe e)
           | Inr conflicts \<Rightarrow>
               Inr \<lparr>dp_schema_version = schema_version cfg, dp_modules = ms,
                    dp_actions = map EnableModule ms @ map BindPort bindings @ [StageRevision, ValidateCandidate, CommitRevision],
                    dp_conflicts = conflicts\<rparr>))"

text \<open>
  The probe of the command line binds the port and releases it again; \<open>bind\<close> is the operating
  system's answer, an error kind or success.
\<close>

datatype bind_error = AddrInUse | OtherBindError

definition socket_probe :: "(transport_protocol \<Rightarrow> nat \<Rightarrow> u16 \<Rightarrow> bind_error + unit) \<Rightarrow> port_binding \<Rightarrow> bind_error + port_conflict option" where
  "socket_probe bind b =
     (case bind (pb_protocol b) (pb_address b) (pb_port b) of
        Inr _ \<Rightarrow> Inr None
      | Inl AddrInUse \<Rightarrow> Inr (Some \<lparr>pc_requested = b, pc_current_owner = None\<rparr>)
      | Inl e \<Rightarrow> Inl e)"

text \<open>The exit of the program: the plan it prints, or why it fails.\<close>

datatype plan_exit = PlanFailed "bind_error plan_error" | PortConflicts deployment_plan nat | ValidatedPlan deployment_plan

definition controller_main ::
  "(transport_protocol \<Rightarrow> nat \<Rightarrow> u16 \<Rightarrow> bind_error + unit) \<Rightarrow> profile \<Rightarrow> u32 \<Rightarrow> u16 \<Rightarrow> u16 \<Rightarrow> plan_exit" where
  "controller_main bind p bandwidth tcp udp =
     (let cfg = (for_profile p)\<lparr>server := \<lparr>bandwidth_mbps = bandwidth, public_tcp_port = tcp, public_udp_port = udp\<rparr>\<rparr> in
      case build (socket_probe bind) cfg of
        Inl e \<Rightarrow> PlanFailed e
      | Inr plan \<Rightarrow>
          if dp_conflicts plan \<noteq> [] then PortConflicts plan (length (dp_conflicts plan)) else ValidatedPlan plan)"

text \<open>The command line of the planner, with the defaults it declares.\<close>

datatype profile_arg = ArgStandard | ArgEnhanced | ArgLowResource | ArgLaboratory

fun profile_from :: "profile_arg \<Rightarrow> profile" where
  "profile_from ArgStandard = Standard"
| "profile_from ArgEnhanced = Enhanced"
| "profile_from ArgLowResource = LowResource"
| "profile_from ArgLaboratory = Laboratory"

record controller_cli =
  cli_profile :: profile_arg
  cli_bandwidth_mbps :: u32
  cli_tcp_port :: u16
  cli_udp_port :: u16

definition default_controller_cli :: controller_cli where
  "default_controller_cli = \<lparr>cli_profile = ArgStandard, cli_bandwidth_mbps = 30, cli_tcp_port = 443, cli_udp_port = 443\<rparr>"

definition controller_run :: "(transport_protocol \<Rightarrow> nat \<Rightarrow> u16 \<Rightarrow> bind_error + unit) \<Rightarrow> controller_cli \<Rightarrow> plan_exit" where
  "controller_run bind cli =
     controller_main bind (profile_from (cli_profile cli)) (cli_bandwidth_mbps cli) (cli_tcp_port cli) (cli_udp_port cli)"

section \<open>Properties\<close>

lemma probe_all_Inr: "probe_all probe bs = Inr cs \<Longrightarrow> cs = List.map_filter (\<lambda>b. projr (probe b)) bs \<and> (\<forall>b \<in> set bs. \<exists>c. probe b = Inr c)"
  by (induction bs arbitrary: cs) (auto simp: map_filter_simps split: sum.splits option.splits)

lemma resolve_modules_cong:
  assumes "validate_scalar_fields a = validate_scalar_fields b" and "modules a = modules b" and "profile a = profile b"
  shows "resolve_modules a = resolve_modules b"
  unfolding resolve_modules_def assms by (rule refl)

text \<open>A plan enables exactly the resolved modules, in order and each before anything that depends on being
  staged, binds every public port of the configuration, reports exactly the bindings the probe found
  taken, and ends with staging, validation and commit in this order.\<close>

theorem plan_exact:
  assumes "build probe cfg = Inr plan"
  shows "resolve_modules cfg = Inr (dp_modules plan) \<and>
     (\<exists>bindings. bindings = requested_bindings cfg (dp_modules plan) \<and>
        dp_actions plan = map EnableModule (dp_modules plan) @ map BindPort bindings @ [StageRevision, ValidateCandidate, CommitRevision] \<and>
        dp_conflicts plan = List.map_filter (\<lambda>b. projr (probe b)) bindings \<and>
        (\<forall>b \<in> set bindings. pb_port b \<noteq> 0) \<and>
        (\<exists>b \<in> set bindings. pb_protocol b = Tcp \<and> pb_port b = public_tcp_port (server cfg)) \<and>
        (Tuic \<in> set (dp_modules plan) \<or> Masque \<in> set (dp_modules plan) \<longrightarrow>
          (\<exists>b \<in> set bindings. pb_protocol b = Udp \<and> pb_port b = public_udp_port (server cfg))))"
proof -
  obtain ms where ms: "resolve_modules cfg = Inr ms"
    using assms by (auto simp: build_def split: sum.splits)
  then have "validate_scalar_fields cfg = Inr ()"
    by (auto simp: resolve_modules_def split: sum.splits)
  then have "public_tcp_port (server cfg) \<noteq> 0" "public_udp_port (server cfg) \<noteq> 0"
    by (auto simp: validate_scalar_fields_def split: if_splits)
  with ms assms show ?thesis
    by (auto simp: build_def Let_def requested_bindings_def dest!: probe_all_Inr split: sum.splits)
qed

theorem plan_exact_witness:
  "\<exists>plan. build (\<lambda>b. Inr None :: unit + port_conflict option) (for_profile Enhanced) = Inr plan \<and> dp_conflicts plan = [] \<and>
     resolve_modules (for_profile Enhanced) = Inr (dp_modules plan)"
proof -
  have "\<exists>plan. build (\<lambda>b. Inr None :: unit + port_conflict option) (for_profile Enhanced) = Inr plan \<and> dp_conflicts plan = []"
    by (auto simp: build_def profile_resolves Let_def requested_bindings_def)
  then obtain plan where p: "build (\<lambda>b. Inr None :: unit + port_conflict option) (for_profile Enhanced) = Inr plan" "dp_conflicts plan = []" by blast
  with plan_exact [OF p(1)] show ?thesis by blast
qed

text \<open>C40: the command line reports a validated plan exactly when the bandwidth and both ports are non-zero and every
  port it needs can be bound, for every profile; a port in use is reported as a conflict, any other
  bind error as a failure.\<close>

theorem controller_main_validates:
  "(\<exists>plan. controller_main bind p bandwidth tcp udp = ValidatedPlan plan) \<longleftrightarrow>
   bandwidth \<noteq> 0 \<and> tcp \<noteq> 0 \<and> udp \<noteq> 0 \<and> bind Udp 0 udp = Inr () \<and> bind Tcp 0 tcp = Inr ()"
proof -
  let ?cfg = "(for_profile p)\<lparr>server := \<lparr>bandwidth_mbps = bandwidth, public_tcp_port = tcp, public_udp_port = udp\<rparr>\<rparr>"
  have r: "resolve_modules ?cfg = (if bandwidth = 0 then Inl ZeroBandwidth else if tcp = 0 \<or> udp = 0 then Inl UnsafePublicPort
      else Inr (profile_defaults p))"
  proof (cases "bandwidth = 0 \<or> tcp = 0 \<or> udp = 0")
    case True
    then show ?thesis by (auto simp: resolve_modules_def validate_scalar_fields_def for_profile_def)
  next
    case False
    then have "resolve_modules ?cfg = resolve_modules (for_profile p)"
      by (intro resolve_modules_cong) (simp_all add: validate_scalar_fields_def for_profile_def)
    then show ?thesis using False profile_resolves [of p] by simp
  qed
  have t: "Tuic \<in> set (profile_defaults p) \<or> Masque \<in> set (profile_defaults p)"
    by (cases p) (simp_all add: btree_set_ok)
  show ?thesis
    using t by (auto simp: controller_main_def build_def Let_def r requested_bindings_def socket_probe_def UNSPECIFIED_def
        split: sum.splits bind_error.splits)
qed

end
