(* ===== verification/Revision_Transaction.thy ===== *)
theory Revision_Transaction
  imports Fec_Prelude "HOL-Library.Sublist"
begin

text \<open>
  The revision transaction of the controller (\<open>RevisionTransaction\<close>, \<open>is_plain_file_name\<close> and
  \<open>write_pointer\<close> of \<open>src/controller.rs\<close>) over a tree of directories and files.  Every
  operation takes \<open>io\<close>: \<open>io n\<close> is the error with which its \<open>n\<close>-th system call fails
  for a reason outside the tree (a full disk, a permission), \<open>None\<close> when it does not.  The
  argument \<open>win\<close> is the compile-time constant \<open>cfg!(windows)\<close>.
\<close>

section \<open>Files and directories\<close>

datatype node = Dir "(string \<times> node) list" | File bytes

type_synonym path = "string list"

datatype io_error = NotFound | AlreadyExists | NotADirectory | IsADirectory | DirectoryNotEmpty | OtherIo

fun get :: "node \<Rightarrow> path \<Rightarrow> node option" where
  "get n [] = Some n"
| "get (File b) (x # xs) = None"
| "get (Dir es) (x # xs) = (case map_of es x of None \<Rightarrow> None | Some n \<Rightarrow> get n xs)"

text \<open>Set or remove the entry at a path whose parent is a directory.\<close>

fun put :: "path \<Rightarrow> node option \<Rightarrow> node \<Rightarrow> node" where
  "put [] v n = n"
| "put p v (File b) = File b"
| "put [x] (Some v) (Dir es) = Dir (AList.update x v es)"
| "put [x] None (Dir es) = Dir (AList.delete x es)"
| "put (x # y # ys) v (Dir es) =
     (case map_of es x of None \<Rightarrow> Dir es | Some n \<Rightarrow> Dir (AList.update x (put (y # ys) v n) es))"

definition is_dir :: "node \<Rightarrow> path \<Rightarrow> bool" where
  "is_dir t p \<longleftrightarrow> (case get t p of Some (Dir _) \<Rightarrow> True | _ \<Rightarrow> False)"

section \<open>System calls\<close>

type_synonym faults = "nat \<Rightarrow> io_error option"

definition sys :: "io_error option \<Rightarrow> (io_error + 'a) \<Rightarrow> io_error + 'a" where
  "sys f r = (case f of Some e \<Rightarrow> Inl e | None \<Rightarrow> r)"

definition create_dir :: "path \<Rightarrow> node \<Rightarrow> io_error + node" where
  "create_dir p t =
     (if get t p \<noteq> None then Inl AlreadyExists else if \<not> is_dir t (butlast p) then Inl NotFound
      else Inr (put p (Some (Dir [])) t))"

fun create_dir_all :: "path \<Rightarrow> path \<Rightarrow> node \<Rightarrow> io_error + node" where
  "create_dir_all pre [] t = Inr t"
| "create_dir_all pre (x # xs) t =
     (case get t (pre @ [x]) of
        Some (Dir _) \<Rightarrow> create_dir_all (pre @ [x]) xs t
      | Some (File _) \<Rightarrow> Inl NotADirectory
      | None \<Rightarrow> create_dir_all (pre @ [x]) xs (put (pre @ [x]) (Some (Dir [])) t))"

text \<open>\<open>OpenOptions::create_new\<close>\<close>

definition create_new :: "path \<Rightarrow> node \<Rightarrow> io_error + node" where
  "create_new p t =
     (if get t p \<noteq> None then Inl AlreadyExists else if \<not> is_dir t (butlast p) then Inl NotFound
      else Inr (put p (Some (File [])) t))"

definition write_file :: "path \<Rightarrow> bytes \<Rightarrow> node \<Rightarrow> node" where
  "write_file p b t = put p (Some (File b)) t"

definition remove_file :: "path \<Rightarrow> node \<Rightarrow> io_error + node" where
  "remove_file p t = (case get t p of Some (File _) \<Rightarrow> Inr (put p None t) | Some (Dir _) \<Rightarrow> Inl IsADirectory | None \<Rightarrow> Inl NotFound)"

text \<open>\<open>rename\<close> replaces a file by a file and an empty directory by a directory.\<close>

definition rename :: "path \<Rightarrow> path \<Rightarrow> node \<Rightarrow> io_error + node" where
  "rename s d t =
     (case get t s of
        None \<Rightarrow> Inl NotFound
      | Some n \<Rightarrow>
          if \<not> is_dir t (butlast d) then Inl NotFound
          else case (n, get t d) of
            (File _, Some (Dir _)) \<Rightarrow> Inl IsADirectory
          | (Dir _, Some (File _)) \<Rightarrow> Inl NotADirectory
          | (Dir _, Some (Dir (e # es))) \<Rightarrow> Inl DirectoryNotEmpty
          | _ \<Rightarrow> Inr (put d (Some n) (put s None t)))"

section \<open>Paths\<close>

datatype component = RootDir | CurDir | ParentDir | Normal string

text \<open>\<open>Path::components\<close> on Unix: repeated separators and inner dots disappear.\<close>

fun split_slash :: "string \<Rightarrow> string \<Rightarrow> string list" where
  "split_slash acc [] = [acc]"
| "split_slash acc (c # cs) = (if c = CHR ''/'' then acc # split_slash [] cs else split_slash (acc @ [c]) cs)"

definition components :: "string \<Rightarrow> component list" where
  "components v =
     (let segs = split_slash [] v in
      (if v \<noteq> [] \<and> hd v = CHR ''/'' then [RootDir] else if hd segs = ''.'' then [CurDir] else []) @
      map (\<lambda>s. if s = ''..'' then ParentDir else Normal s) (filter (\<lambda>s. s \<noteq> '''' \<and> s \<noteq> ''.'') segs))"

definition is_plain_file_name :: "string \<Rightarrow> bool" where
  "is_plain_file_name v \<longleftrightarrow> v \<noteq> [] \<and> length (components v) = 1 \<and>
     (case components v of Normal _ # _ \<Rightarrow> True | _ \<Rightarrow> False)"

fun resolve :: "path \<Rightarrow> component \<Rightarrow> path" where
  "resolve p RootDir = []"
| "resolve p CurDir = p"
| "resolve p ParentDir = butlast p"
| "resolve p (Normal s) = p @ [s]"

text \<open>\<open>Path::join\<close> of a relative or absolute path, in a tree without symbolic links.\<close>

definition join :: "path \<Rightarrow> string \<Rightarrow> path" where
  "join p v = foldl resolve p (components v)"

section \<open>The transaction\<close>

datatype tx_state = Candidate | Validated | Committed | RolledBack

record transaction =
  tx_root :: path
  tx_candidate :: path
  tx_previous :: "string option"
  tx_revision_id :: string
  tx_state :: tx_state

datatype tx_error =
    Io io_error
  | InvalidState tx_state tx_state
  | InvalidArtifactName
  | Validation string
  | NoPreviousRevision

fun decimal :: "nat \<Rightarrow> string" where
  "decimal n = (if n < 10 then [char_of (48 + n)] else decimal (n div 10) @ [char_of (48 + n mod 10)])"

declare decimal.simps [simp del]

definition revision_name :: "nat \<Rightarrow> nat \<Rightarrow> string" where
  "revision_name nanos pid = ''rev-'' @ decimal nanos @ ''-'' @ decimal pid"

text \<open>\<open>clock\<close> is the time since the epoch in nanoseconds, \<open>None\<close> when the clock is before it.\<close>

definition begin_tx :: "path \<Rightarrow> string option \<Rightarrow> nat option \<Rightarrow> nat \<Rightarrow> faults \<Rightarrow> node \<Rightarrow> node \<times> (tx_error + transaction)" where
  "begin_tx root previous clock pid io t =
     (if (case previous of Some v \<Rightarrow> \<not> is_plain_file_name v | None \<Rightarrow> False) then (t, Inl InvalidArtifactName)
      else case sys (io 0) (create_dir_all [] (root @ [''candidates'']) t) of
        Inl e \<Rightarrow> (t, Inl (Io e))
      | Inr t1 \<Rightarrow>
          (case sys (io 1) (create_dir_all [] (root @ [''revisions'']) t1) of
             Inl e \<Rightarrow> (t1, Inl (Io e))
           | Inr t2 \<Rightarrow>
               (case clock of
                  None \<Rightarrow> (t2, Inl (Io OtherIo))
                | Some nanos \<Rightarrow>
                    (let rid = revision_name nanos pid; candidate = root @ [''candidates'', rid] in
                     case sys (io 2) (create_dir candidate t2) of
                       Inl e \<Rightarrow> (t2, Inl (Io e))
                     | Inr t3 \<Rightarrow>
                         (t3, Inr \<lparr>tx_root = root, tx_candidate = candidate, tx_previous = previous,
                                   tx_revision_id = rid, tx_state = Candidate\<rparr>)))))"

definition expect_state :: "transaction \<Rightarrow> tx_state \<Rightarrow> tx_error + unit" where
  "expect_state tx expected = (if tx_state tx = expected then Inr () else Inl (InvalidState expected (tx_state tx)))"

text \<open>\<open>let _ = f()\<close>: an error of a clean-up step is ignored.\<close>

definition ignoring :: "(io_error + node) \<Rightarrow> node \<Rightarrow> node" where
  "ignoring r t = (case r of Inl _ \<Rightarrow> t | Inr t' \<Rightarrow> t')"

text \<open>A failed write may have written a part \<open>pre\<close> of the bytes.\<close>

definition stage :: "transaction \<Rightarrow> string \<Rightarrow> bytes \<Rightarrow> faults \<Rightarrow> bytes \<Rightarrow> node \<Rightarrow> node \<times> (tx_error + unit)" where
  "stage tx name bs io pre t =
     (case expect_state tx Candidate of
        Inl e \<Rightarrow> (t, Inl e)
      | Inr _ \<Rightarrow>
          if \<not> is_plain_file_name name then (t, Inl InvalidArtifactName)
          else
            (let target = join (tx_candidate tx) name; temporary = join (tx_candidate tx) (''.'' @ name @ ''.tmp'') in
             case sys (io 0) (create_new temporary t) of
               Inl e \<Rightarrow> (t, Inl (Io e))
             | Inr t1 \<Rightarrow>
                 (case (io 1, io 2) of
                    (Some e, _) \<Rightarrow>
                      (ignoring (sys (io 3) (remove_file temporary (write_file temporary pre t1))) (write_file temporary pre t1), Inl (Io e))
                  | (None, Some e) \<Rightarrow>
                      (ignoring (sys (io 3) (remove_file temporary (write_file temporary bs t1))) (write_file temporary bs t1), Inl (Io e))
                  | (None, None) \<Rightarrow>
                      (let t2 = write_file temporary bs t1 in
                       case sys (io 4) (rename temporary target t2) of
                         Inl e \<Rightarrow> (ignoring (sys (io 5) (remove_file temporary t2)) t2, Inl (Io e))
                       | Inr t3 \<Rightarrow> (t3, Inr ())))))"

text \<open>The validator sees the tree and the path of the candidate.\<close>

definition validate :: "(node \<Rightarrow> path \<Rightarrow> string + unit) \<Rightarrow> transaction \<Rightarrow> node \<Rightarrow> transaction \<times> (tx_error + unit)" where
  "validate validator tx t =
     (case expect_state tx Candidate of
        Inl e \<Rightarrow> (tx, Inl e)
      | Inr _ \<Rightarrow>
          (case validator t (tx_candidate tx) of
             Inl msg \<Rightarrow> (tx, Inl (Validation msg))
           | Inr _ \<Rightarrow> (tx\<lparr>tx_state := Validated\<rparr>, Inr ())))"

definition pointer_bytes :: "string \<Rightarrow> bytes" where
  "pointer_bytes revision = map of_char (revision @ [CHR 0x0A])"

text \<open>
  Moving the temporary pointer file into place: where \<open>rename\<close> does not replace a file (\<open>win\<close>) an
  existing pointer is kept in a backup meanwhile.
\<close>

definition install_pointer :: "bool \<Rightarrow> path \<Rightarrow> path \<Rightarrow> path \<Rightarrow> faults \<Rightarrow> node \<Rightarrow> node \<times> (io_error + unit)" where
  "install_pointer win temporary backup destination io t =
     (if win \<and> get t destination \<noteq> None then
        (case (if get t backup \<noteq> None then sys (io 4) (remove_file backup t) else Inr t) of
           Inl e \<Rightarrow> (t, Inl e)
         | Inr t1 \<Rightarrow>
             (case sys (io 5) (rename destination backup t1) of
                Inl e \<Rightarrow> (t1, Inl e)
              | Inr t2 \<Rightarrow>
                  (case sys (io 3) (rename temporary destination t2) of
                     Inl e \<Rightarrow> (ignoring (sys (io 6) (rename backup destination t2)) t2, Inl e)
                   | Inr t3 \<Rightarrow>
                       (case sys (io 7) (remove_file backup t3) of
                          Inl e \<Rightarrow> (t3, Inl e)
                        | Inr t4 \<Rightarrow> (t4, Inr ())))))
      else
        (case sys (io 3) (rename temporary destination t) of
           Inl e \<Rightarrow> (t, Inl e)
         | Inr t1 \<Rightarrow> (t1, Inr ())))"

definition write_pointer :: "bool \<Rightarrow> path \<Rightarrow> string \<Rightarrow> string \<Rightarrow> faults \<Rightarrow> bytes \<Rightarrow> node \<Rightarrow> node \<times> (io_error + unit)" where
  "write_pointer win root name revision io pre t =
     (let temporary = root @ [''.'' @ name @ ''.tmp'']; backup = root @ [''.'' @ name @ ''.previous''];
          destination = root @ [name] in
      case sys (io 0) (create_new temporary t) of
        Inl e \<Rightarrow> (t, Inl e)
      | Inr t1 \<Rightarrow>
          (case io 1 of
             Some e \<Rightarrow> (write_file temporary pre t1, Inl e)
           | None \<Rightarrow>
               (let t2 = write_file temporary (pointer_bytes revision) t1 in
                case io 2 of
                  Some e \<Rightarrow> (t2, Inl e)
                | None \<Rightarrow> install_pointer win temporary backup destination io t2)))"

definition commit :: "bool \<Rightarrow> transaction \<Rightarrow> faults \<Rightarrow> bytes \<Rightarrow> node \<Rightarrow> transaction \<times> node \<times> (tx_error + unit)" where
  "commit win tx io pre t =
     (case expect_state tx Validated of
        Inl e \<Rightarrow> (tx, t, Inl e)
      | Inr _ \<Rightarrow>
          (let committed = tx_root tx @ [''revisions'', tx_revision_id tx] in
           case sys (io 0) (rename (tx_candidate tx) committed t) of
             Inl e \<Rightarrow> (tx, t, Inl (Io e))
           | Inr t1 \<Rightarrow>
               (case write_pointer win (tx_root tx) ''current'' (tx_revision_id tx) (\<lambda>n. io (n + 1)) pre t1 of
                  (t2, Inl e) \<Rightarrow> (tx, ignoring (sys (io 9) (rename committed (tx_candidate tx) t2)) t2, Inl (Io e))
                | (t2, Inr _) \<Rightarrow> (tx\<lparr>tx_state := Committed\<rparr>, t2, Inr ()))))"

definition rollback :: "bool \<Rightarrow> transaction \<Rightarrow> faults \<Rightarrow> bytes \<Rightarrow> node \<Rightarrow> transaction \<times> node \<times> (tx_error + unit)" where
  "rollback win tx io pre t =
     (case expect_state tx Committed of
        Inl e \<Rightarrow> (tx, t, Inl e)
      | Inr _ \<Rightarrow>
          (case tx_previous tx of
             None \<Rightarrow> (tx, t, Inl NoPreviousRevision)
           | Some previous \<Rightarrow>
               if \<not> is_dir t (join (tx_root tx @ [''revisions'']) previous) then (tx, t, Inl NoPreviousRevision)
               else case write_pointer win (tx_root tx) ''current'' previous io pre t of
                 (t1, Inl e) \<Rightarrow> (tx, t1, Inl (Io e))
               | (t1, Inr _) \<Rightarrow> (tx\<lparr>tx_state := RolledBack\<rparr>, t1, Inr ())))"

section \<open>The tree\<close>

lemma get_append: "get t (p @ q) = (case get t p of None \<Rightarrow> None | Some n \<Rightarrow> get n q)"
  by (induction t p rule: get.induct) (auto split: option.split)

lemma is_dir_File [simp]: "\<not> is_dir (File b) p"
  by (cases p) (simp_all add: is_dir_def)

lemma is_dir_Dir [simp]:
  "is_dir (Dir es) []" "is_dir (Dir es) (x # xs) \<longleftrightarrow> (case map_of es x of None \<Rightarrow> False | Some n \<Rightarrow> is_dir n xs)"
  by (auto simp: is_dir_def split: option.split)

lemma get_put_same:
  "p \<noteq> [] \<Longrightarrow> is_dir t (butlast p) \<Longrightarrow> get (put p v t) p = v"
  by (induction p v t rule: put.induct) (auto simp: update_conv' delete_conv' split: option.splits)

lemma get_put_below:
  "p \<noteq> [] \<Longrightarrow> is_dir t (butlast p) \<Longrightarrow> get (put p (Some n) t) (p @ q) = get n q"
  using get_put_same [of p t "Some n"] by (simp add: get_append)

lemma get_put_disjoint:
  "\<not> prefix p q \<Longrightarrow> \<not> prefix q p \<Longrightarrow> get (put p v t) q = get t q"
proof (induction p v t arbitrary: q rule: put.induct)
  case (5 x y ys v es)
  show ?case
  proof (cases q)
    case (Cons z zs)
    then show ?thesis
      using 5 by (auto simp: update_conv' split: option.splits)
  qed (use 5 in simp)
next
  case (3 x v es)
  then show ?case by (cases q) (auto simp: update_conv' split: option.splits)
next
  case (4 x es)
  then show ?case by (cases q) (auto simp: delete_conv' split: option.splits)
qed auto

lemma is_dir_put: "\<not> prefix p q \<Longrightarrow> is_dir t q \<Longrightarrow> is_dir (put p v t) q"
proof (induction p v t arbitrary: q rule: put.induct)
  case (5 x y ys v es)
  then show ?case by (cases q) (auto simp: update_conv' split: option.splits)
next
  case (3 x v es)
  then show ?case by (cases q) (auto simp: update_conv' split: option.splits)
next
  case (4 x es)
  then show ?case by (cases q) (auto simp: delete_conv' split: option.splits)
qed auto

text \<open>What the system calls do to the rest of the tree.\<close>

lemma sys_Inr: "sys f r = Inr x \<longleftrightarrow> f = None \<and> r = Inr x"
  by (auto simp: sys_def split: option.splits)

lemma create_new_Inr:
  "create_new p t = Inr t' \<longleftrightarrow> get t p = None \<and> is_dir t (butlast p) \<and> t' = put p (Some (File [])) t"
  by (auto simp: create_new_def)

lemma rename_Inr:
  assumes "rename s d t = Inr t'"
  shows "\<exists>n. get t s = Some n \<and> is_dir t (butlast d) \<and> t' = put d (Some n) (put s None t)"
  using assms by (auto simp: rename_def split: option.splits if_splits node.splits list.splits)

lemma rename_get:
  assumes "rename s d t = Inr t'" and "\<not> prefix s d" and "\<not> prefix d s" and "d \<noteq> []" and "\<not> prefix s (butlast d)"
  shows "get t' d = get t s" and "\<not> prefix q d \<Longrightarrow> \<not> prefix d q \<Longrightarrow> \<not> prefix q s \<Longrightarrow> \<not> prefix s q \<Longrightarrow> get t' q = get t q"
    and "s \<noteq> [] \<Longrightarrow> is_dir t (butlast s) \<Longrightarrow> get t' s = None"
proof -
  obtain n where n: "get t s = Some n" "is_dir t (butlast d)" "t' = put d (Some n) (put s None t)"
    using rename_Inr [OF assms(1)] by blast
  have "is_dir (put s None t) (butlast d)" by (rule is_dir_put [OF assms(5) n(2)])
  then show "get t' d = get t s" using n assms(4) by (simp add: get_put_same)
  show "get t' q = get t q" if "\<not> prefix q d" "\<not> prefix d q" "\<not> prefix q s" "\<not> prefix s q"
    using that n(3) by (simp add: get_put_disjoint)
  show "get t' s = None" if "s \<noteq> []" "is_dir t (butlast s)"
    using that n(3) assms(2,3) by (simp add: get_put_disjoint get_put_same)
qed

lemma not_prefix_append [simp]: "\<not> prefix (xs @ y # ys) xs"
  by (auto dest: prefix_length_le)

definition apart :: "path \<Rightarrow> path \<Rightarrow> bool" where
  "apart p q \<longleftrightarrow> \<not> prefix p q \<and> \<not> prefix q p"

lemma apart_append [simp]: "apart (r @ p) (r @ q) \<longleftrightarrow> apart p q"
  by (simp add: apart_def)

lemma apart_Cons [simp]: "apart (x # p) (y # q) \<longleftrightarrow> x \<noteq> y \<or> apart p q"
  by (auto simp: apart_def)

lemma not_apart_Nil [simp]: "\<not> apart [] p" "\<not> apart p []"
  by (simp_all add: apart_def)

lemma apart_get: "apart q p \<Longrightarrow> get (put p v t) q = get t q"
  by (simp add: apart_def get_put_disjoint)

lemma rename_apart:
  assumes "rename s d t = Inr t'" and "apart s d" and "d \<noteq> []" and "\<not> prefix s (butlast d)"
  shows "get t' d = get t s" and "apart q d \<Longrightarrow> apart q s \<Longrightarrow> get t' q = get t q"
    and "s \<noteq> [] \<Longrightarrow> is_dir t (butlast s) \<Longrightarrow> get t' s = None"
  using rename_get [OF assms(1) _ _ assms(3,4)] assms(2) by (auto simp: apart_def)

section \<open>The pointer\<close>

lemma write_pointer_effect:
  assumes "write_pointer False root ''current'' target io pre t = (t', r)"
  shows "r = Inr () \<Longrightarrow> get t' (root @ [''current'']) = Some (File (pointer_bytes target)) \<and> get t' (root @ [''.current.tmp'']) = None"
    and "r \<noteq> Inr () \<Longrightarrow> get t' (root @ [''current'']) = get t (root @ [''current''])"
    and "apart q [''current''] \<Longrightarrow> apart q [''.current.tmp''] \<Longrightarrow> get t' (root @ q) = get t (root @ q)"
proof -
  let ?tmp = "root @ [''.current.tmp'']" and ?cur = "root @ [''current'']"
  let ?w = "\<lambda>b. put ?tmp (Some (File b)) (put ?tmp (Some (File [])) t)"
  have w: "get (?w b) ?cur = get t ?cur" "apart q [''.current.tmp''] \<Longrightarrow> get (?w b) (root @ q) = get t (root @ q)" for b q
    by (simp_all add: apart_get)
  consider (same) "t' = t" "r \<noteq> Inr ()" | (tmp) b where "t' = ?w b" "r \<noteq> Inr ()"
    | (ok) "is_dir t root" "rename ?tmp ?cur (?w (pointer_bytes target)) = Inr t'" "r = Inr ()"
    using assms by (auto simp: write_pointer_def install_pointer_def Let_def sys_Inr create_new_Inr write_file_def split: sum.splits option.splits)
  note cases = this
  show "get t' ?cur = Some (File (pointer_bytes target)) \<and> get t' ?tmp = None" if r: "r = Inr ()"
  proof (rule cases)
    assume ok: "is_dir t root" "rename ?tmp ?cur (?w (pointer_bytes target)) = Inr t'"
    have d: "is_dir (put ?tmp (Some (File [])) t) root" "is_dir (?w b) root" for b
      using ok(1) by (auto intro!: is_dir_put)
    have "get (?w (pointer_bytes target)) ?tmp = Some (File (pointer_bytes target))"
      using d(1) by (simp add: get_put_same)
    then show ?thesis
      using rename_apart(1,3) [OF ok(2)] d(2) by (simp add: apart_def)
  qed (use r in simp_all)
  show "get t' ?cur = get t ?cur" if "r \<noteq> Inr ()"
    by (rule cases) (use that w in simp_all)
  show "get t' (root @ q) = get t (root @ q)" if "apart q [''current'']" "apart q [''.current.tmp'']"
  proof (rule cases)
    assume "rename ?tmp ?cur (?w (pointer_bytes target)) = Inr t'"
    from rename_apart(2) [OF this, of "root @ q"] show ?thesis using that w by simp
  qed (use that w in simp_all)
qed

section \<open>Commit\<close>

definition active :: "path \<Rightarrow> node \<Rightarrow> node option" where
  "active root t = get t (root @ [''current''])"

definition tx_wf :: "transaction \<Rightarrow> bool" where
  "tx_wf tx \<longleftrightarrow> tx_candidate tx = tx_root tx @ [''candidates'', tx_revision_id tx]"

abbreviation committed_path :: "transaction \<Rightarrow> path" where
  "committed_path tx \<equiv> tx_root tx @ [''revisions'', tx_revision_id tx]"

text \<open>A commit ends early, after a pointer that could not be written, or well.\<close>

lemma commit_cases [consumes 1, case_names early pointer ok]:
  assumes "commit win tx io pre t = (tx', t', r)"
  obtains "tx' = tx" "t' = t" "r \<noteq> Inr ()"
  | t1 t2 e where "tx_state tx = Validated" "rename (tx_candidate tx) (committed_path tx) t = Inr t1"
      "write_pointer win (tx_root tx) ''current'' (tx_revision_id tx) (\<lambda>n. io (n + 1)) pre t1 = (t2, Inl e)"
      "t' = ignoring (sys (io 9) (rename (committed_path tx) (tx_candidate tx) t2)) t2" "tx' = tx" "r \<noteq> Inr ()"
  | t1 where "tx_state tx = Validated" "rename (tx_candidate tx) (committed_path tx) t = Inr t1"
      "write_pointer win (tx_root tx) ''current'' (tx_revision_id tx) (\<lambda>n. io (n + 1)) pre t1 = (t', Inr ())"
      "tx' = tx\<lparr>tx_state := Committed\<rparr>" "r = Inr ()"
proof (cases "tx_state tx = Validated")
  case False
  then show thesis using that(1) assms by (auto simp: commit_def expect_state_def)
next
  case True
  show thesis
  proof (cases "sys (io 0) (rename (tx_candidate tx) (committed_path tx) t)")
    case (Inl e)
    then show thesis using that(1) assms True by (auto simp: commit_def expect_state_def Let_def)
  next
    case (Inr t1)
    obtain t2 w where wp: "write_pointer win (tx_root tx) ''current'' (tx_revision_id tx) (\<lambda>n. io (n + 1)) pre t1 = (t2, w)"
      by fastforce
    have rn: "rename (tx_candidate tx) (committed_path tx) t = Inr t1" using Inr by (simp add: sys_Inr)
    have c: "(tx', t', r) = (case w of
        Inl e \<Rightarrow> (tx, ignoring (sys (io 9) (rename (committed_path tx) (tx_candidate tx) t2)) t2, Inl (Io e))
      | Inr _ \<Rightarrow> (tx\<lparr>tx_state := Committed\<rparr>, t2, Inr ()))"
      using assms unfolding commit_def expect_state_def Let_def Inr sum.case wp prod.case using True by simp
    show thesis
    proof (cases w)
      case (Inl e)
      with c show thesis by (intro that(2) [OF True rn wp [unfolded Inl]]) simp_all
    next
      case (Inr u)
      with c wp show thesis by (intro that(3) [OF True rn]) simp_all
    qed
  qed
qed

lemma tx_wf_apart:
  assumes "tx_wf tx"
  shows "apart (tx_candidate tx) (committed_path tx)" "\<not> prefix (tx_candidate tx) (butlast (committed_path tx))"
    and "apart (committed_path tx) (tx_candidate tx)" "\<not> prefix (committed_path tx) (butlast (tx_candidate tx))"
    and "apart (tx_root tx @ [''current'']) (tx_candidate tx)" "apart (tx_root tx @ [''current'']) (committed_path tx)"
  using assms by (simp_all add: tx_wf_def butlast_append)

text \<open>Moving the revision back restores the candidate and leaves the pointer alone.\<close>

lemma withdraw_effect:
  assumes "tx_wf tx" and "t' = ignoring (sys fault (rename (committed_path tx) (tx_candidate tx) t)) t"
  shows "active (tx_root tx) t' = active (tx_root tx) t \<and> (t' = t \<or> get t' (tx_candidate tx) = get t (committed_path tx))"
proof (cases "sys fault (rename (committed_path tx) (tx_candidate tx) t)")
  case (Inr t3)
  note ap = tx_wf_apart [OF assms(1)]
  have "rename (committed_path tx) (tx_candidate tx) t = Inr t3" using Inr by (simp add: sys_Inr)
  from rename_apart(1,2) [OF this ap(3) _ ap(4)] show ?thesis
    using assms Inr ap(5,6) by (simp add: ignoring_def active_def tx_wf_def)
qed (use assms(2) in \<open>simp add: ignoring_def\<close>)

lemma commit_effect:
  assumes "commit False tx io pre t = (tx', t', r)" and "tx_wf tx"
  shows "r = Inr () \<Longrightarrow> tx_state tx = Validated \<and> tx' = tx\<lparr>tx_state := Committed\<rparr> \<and>
      active (tx_root tx) t' = Some (File (pointer_bytes (tx_revision_id tx))) \<and>
      get t' (committed_path tx) = get t (tx_candidate tx) \<and> get t (tx_candidate tx) \<noteq> None"
    and "r \<noteq> Inr () \<Longrightarrow> tx' = tx \<and> active (tx_root tx) t' = active (tx_root tx) t \<and>
      (get t' (tx_candidate tx) = get t (tx_candidate tx) \<or> get t' (committed_path tx) = get t (tx_candidate tx))"
proof -
  note ap = tx_wf_apart [OF assms(2)]
  let ?com = "committed_path tx" and ?cand = "tx_candidate tx"
  have moved: "get t1 ?com = get t ?cand \<and> get t ?cand \<noteq> None \<and> active (tx_root tx) t1 = active (tx_root tx) t"
    if "rename ?cand ?com t = Inr t1" for t1
    using rename_apart(1,2) [OF that ap(1) _ ap(2)] rename_Inr [OF that] ap(5,6) by (auto simp: active_def)
  from assms(1) have "if r = Inr () then tx_state tx = Validated \<and> tx' = tx\<lparr>tx_state := Committed\<rparr> \<and>
      active (tx_root tx) t' = Some (File (pointer_bytes (tx_revision_id tx))) \<and> get t' ?com = get t ?cand \<and> get t ?cand \<noteq> None
    else tx' = tx \<and> active (tx_root tx) t' = active (tx_root tx) t \<and> (get t' ?cand = get t ?cand \<or> get t' ?com = get t ?cand)"
  proof (cases rule: commit_cases)
    case (pointer t1 t2 e)
    have "active (tx_root tx) t2 = active (tx_root tx) t" "get t2 ?com = get t ?cand"
      using moved [OF pointer(2)] write_pointer_effect(2,3) [OF pointer(3)] by (simp_all add: active_def)
    with withdraw_effect [OF assms(2) pointer(4)] pointer(5,6) show ?thesis by auto
  next
    case (ok t1)
    then show ?thesis
      using moved [OF ok(2)] write_pointer_effect(1,3) [OF ok(3)] by (simp add: active_def)
  qed simp
  then show "r = Inr () \<Longrightarrow> tx_state tx = Validated \<and> tx' = tx\<lparr>tx_state := Committed\<rparr> \<and>
      active (tx_root tx) t' = Some (File (pointer_bytes (tx_revision_id tx))) \<and> get t' ?com = get t ?cand \<and> get t ?cand \<noteq> None"
    and "r \<noteq> Inr () \<Longrightarrow> tx' = tx \<and> active (tx_root tx) t' = active (tx_root tx) t \<and>
      (get t' ?cand = get t ?cand \<or> get t' ?com = get t ?cand)" by (simp_all split: if_splits)
qed

section \<open>Names\<close>

lemma split_slash_acc: "split_slash acc cs = (acc @ hd (split_slash [] cs)) # tl (split_slash [] cs)"
proof (induction cs arbitrary: acc)
  case Nil
  then show ?case by simp
next
  case (Cons c cs)
  show ?case using Cons [of "acc @ [c]"] Cons [of "[c]"] by simp
qed

lemma split_slash_nonempty [simp]: "split_slash acc cs \<noteq> []"
  by (subst split_slash_acc) simp

lemma split_slash_append:
  "CHR ''/'' \<notin> set ys \<Longrightarrow> split_slash acc (xs @ ys) = butlast (split_slash acc xs) @ [last (split_slash acc xs) @ ys]"
proof (induction xs arbitrary: acc)
  case Nil
  then show ?case by (induction ys arbitrary: acc) auto
next
  case (Cons x xs)
  then show ?case by simp
qed

lemma foldl_resolve_Normal: "foldl resolve p (map Normal xs) = p @ xs"
  by (induction xs arbitrary: p) simp_all

text \<open>A plain name is one ordinary component, up to trailing separators and dots.\<close>

lemma plain_segments:
  assumes "is_plain_file_name v"
  obtains s rest where "split_slash [] v = s # rest" and "set rest \<subseteq> {'''', ''.''}" and "s \<notin> {'''', ''.'', ''..''}"
    and "components v = [Normal s]"
proof -
  obtain s rest where sp: "split_slash [] v = s # rest" by (cases "split_slash [] v") auto
  have v: "v \<noteq> []" using assms by (simp add: is_plain_file_name_def)
  obtain n where c: "components v = [Normal n]"
    using assms by (auto simp: is_plain_file_name_def length_Suc_conv split: component.splits)
  have noroot: "hd v \<noteq> CHR ''/''" and nodot: "s \<noteq> ''.''"
    using c sp v by (auto simp: components_def Let_def split: if_splits)
  have "s = [hd v] @ hd (split_slash [] (tl v))"
    using sp noroot v split_slash_acc [of "[hd v]" "tl v"] by (cases v) auto
  then have s: "s \<noteq> ''''" by simp
  have f: "map (\<lambda>s. if s = ''..'' then ParentDir else Normal s) (filter (\<lambda>s. s \<noteq> '''' \<and> s \<noteq> ''.'') (s # rest)) = [Normal n]"
    using c sp noroot nodot v by (simp add: components_def Let_def)
  then have "s \<noteq> ''..''" "n = s" "filter (\<lambda>s. s \<noteq> '''' \<and> s \<noteq> ''.'') rest = []"
    using s nodot by (auto split: if_splits)
  then show thesis using that [of s rest] sp s nodot c by (auto simp: filter_empty_conv)
qed

lemma plain_join:
  assumes "is_plain_file_name name"
  shows "\<exists>s x xs. join p name = p @ [s] \<and> join p (''.'' @ name @ ''.tmp'') = p @ x # xs \<and> x \<noteq> s"
proof -
  obtain s rest where sp: "split_slash [] name = s # rest" and rest: "set rest \<subseteq> {'''', ''.''}" and s: "s \<notin> {'''', ''.'', ''..''}"
    and c: "components name = [Normal s]"
    by (rule plain_segments [OF assms])
  let ?tmp = "''.'' @ name @ ''.tmp''"
  have "split_slash [] ?tmp = split_slash ''.'' (name @ ''.tmp'')" by simp
  also have "\<dots> = butlast (split_slash ''.'' name) @ [last (split_slash ''.'' name) @ ''.tmp'']"
    by (rule split_slash_append) simp
  also have "split_slash ''.'' name = (''.'' @ s) # rest" using split_slash_acc [of "''.''" name] sp by simp
  finally have segs: "split_slash [] ?tmp = butlast ((''.'' @ s) # rest) @ [last ((''.'' @ s) # rest) @ ''.tmp'']" .
  define ys where "ys = filter (\<lambda>s. s \<noteq> '''' \<and> s \<noteq> ''.'') (split_slash [] ?tmp)"
  have "\<exists>x xs. ys = x # xs \<and> x \<noteq> s \<and> ''..'' \<notin> set ys"
  proof (cases rest rule: rev_cases)
    case Nil
    then show ?thesis using s unfolding ys_def segs by auto
  next
    case (snoc zs z)
    have "set zs \<subseteq> {'''', ''.''}" "z \<in> {'''', ''.''}" using rest snoc by auto
    then show ?thesis using s snoc unfolding ys_def segs by auto
  qed
  then obtain x xs where ys: "ys = x # xs" "x \<noteq> s" "''..'' \<notin> set ys" by blast
  have "hd (split_slash [] ?tmp) \<noteq> ''.''"
    unfolding segs using s by (cases rest) auto
  then have "components ?tmp = map Normal ys"
    using ys(3) unfolding components_def Let_def ys_def [symmetric] by (auto intro!: map_cong)
  then have "join p ?tmp = p @ ys" by (simp add: join_def foldl_resolve_Normal del: map_map)
  then show ?thesis using c ys by (auto simp: join_def)
qed

section \<open>Staging\<close>

lemma apart_extend: "apart q p \<Longrightarrow> apart q (p @ r)"
  by (auto simp: apart_def prefix_def append_eq_append_conv2)

lemma not_prefix_butlast: "p \<noteq> [] \<Longrightarrow> \<not> prefix p (butlast p)"
proof
  assume "p \<noteq> []" and "prefix p (butlast p)"
  from prefix_length_le [OF this(2)] have "length p \<le> length p - 1" unfolding length_butlast .
  with \<open>p \<noteq> []\<close> show False by (cases p) simp_all
qed

lemma stage_effect:
  assumes "stage tx name bs io pre t = (t', r)"
  shows "apart q (tx_candidate tx) \<Longrightarrow> get t' q = get t q"
    and "r = Inr () \<Longrightarrow> is_plain_file_name name \<and> tx_state tx = Candidate \<and> get t' (join (tx_candidate tx) name) = Some (File bs)"
    and "r \<noteq> Inr () \<Longrightarrow> is_plain_file_name name \<Longrightarrow> get t' (join (tx_candidate tx) name) = get t (join (tx_candidate tx) name)"
proof -
  let ?cand = "tx_candidate tx"
  define target where "target = join ?cand name"
  define tmp where "tmp = join ?cand (''.'' @ name @ ''.tmp'')"
  let ?w = "\<lambda>b. put tmp (Some (File b)) (put tmp (Some (File [])) t)"
  consider (same) "t' = t" "r \<noteq> Inr ()"
    | (failed) b v where "is_plain_file_name name" "t' = ?w b \<or> t' = put tmp None (?w b)" "r \<noteq> Inr ()"
    | (ok) "is_plain_file_name name" "tx_state tx = Candidate" "is_dir t (butlast tmp)" "rename tmp target (?w bs) = Inr t'" "r = Inr ()"
    using assms unfolding stage_def Let_def target_def [symmetric] tmp_def [symmetric]
    by (auto simp: expect_state_def sys_Inr create_new_Inr write_file_def ignoring_def remove_file_def
        split: sum.splits option.splits if_splits node.splits)
  note cases = this
  have ap: "apart q ?cand \<Longrightarrow> apart q tmp \<and> apart q target" "apart target tmp" "apart tmp target" "target \<noteq> []" "butlast target = ?cand"
    "\<not> prefix tmp ?cand" if "is_plain_file_name name" for q
    using plain_join [OF that, of ?cand] by (auto simp: target_def tmp_def apart_extend)
  show "get t' q = get t q" if q: "apart q ?cand"
  proof (rule cases)
    fix b v
    assume "is_plain_file_name name" "t' = ?w b \<or> t' = put tmp None (?w b)"
    then show ?thesis using ap(1) [OF _ q] by (auto simp: apart_get)
  next
    assume a: "is_plain_file_name name" "rename tmp target (?w bs) = Inr t'"
    from rename_apart(2) [OF a(2) ap(3,4) [OF a(1)]] ap [OF a(1)] q show ?thesis by (simp add: apart_get)
  qed simp
  show "is_plain_file_name name \<and> tx_state tx = Candidate \<and> get t' (join ?cand name) = Some (File bs)" if r: "r = Inr ()"
  proof (rule cases)
    assume a: "is_plain_file_name name" "tx_state tx = Candidate" "is_dir t (butlast tmp)" "rename tmp target (?w bs) = Inr t'"
    have "tmp \<noteq> []" using plain_join [OF a(1), of ?cand] by (auto simp: tmp_def)
    note ne = this not_prefix_butlast [OF this]
    have "get (?w bs) tmp = Some (File bs)" using a(3) ne by (intro get_put_same is_dir_put)
    then show ?thesis
      using rename_apart(1) [OF a(4) ap(3,4) [OF a(1)]] ap [OF a(1)] a(1,2) by (simp add: target_def)
  qed (use r in simp_all)
  show "get t' (join ?cand name) = get t (join ?cand name)" if r: "r \<noteq> Inr ()" "is_plain_file_name name"
    by (rule cases) (use r ap(2) in \<open>auto simp: target_def [symmetric] apart_get\<close>)
qed

section \<open>Abstract specification\<close>

text \<open>
  What the transaction promises, without files: a life cycle and an active revision that only a commit
  and a rollback change.
\<close>

inductive tx_spec :: "bytes \<Rightarrow> bytes option \<Rightarrow> tx_state \<times> node option \<Rightarrow> tx_state \<times> node option \<Rightarrow> bool"
  for new :: bytes and previous :: "bytes option" where
  spec_validate: "tx_spec new previous (Candidate, a) (Validated, a)"
| spec_commit: "tx_spec new previous (Validated, a) (Committed, Some (File new))"
| spec_rollback: "previous = Some b \<Longrightarrow> tx_spec new previous (Committed, a) (RolledBack, Some (File b))"

inductive_cases tx_spec_from: "tx_spec new previous (s, a) y"

text \<open>Operations on a transaction, with their faults; a transaction fixes its root, candidate and identifiers.\<close>

datatype tx_op =
    Stage string bytes faults bytes
  | Validate "node \<Rightarrow> path \<Rightarrow> string + unit"
  | Commit faults bytes
  | Rollback faults bytes

fun tx_step :: "transaction \<times> node \<Rightarrow> tx_op \<Rightarrow> (transaction \<times> node) \<times> (tx_error + unit)" where
  "tx_step (tx, t) (Stage name bs io pre) = (case stage tx name bs io pre t of (t', r) \<Rightarrow> ((tx, t'), r))"
| "tx_step (tx, t) (Validate validator) = (case validate validator tx t of (tx', r) \<Rightarrow> ((tx', t), r))"
| "tx_step (tx, t) (Commit io pre) = (case commit False tx io pre t of (tx', t', r) \<Rightarrow> ((tx', t'), r))"
| "tx_step (tx, t) (Rollback io pre) = (case rollback False tx io pre t of (tx', t', r) \<Rightarrow> ((tx', t'), r))"

definition tx_run :: "transaction \<times> node \<Rightarrow> tx_op list \<Rightarrow> transaction \<times> node" where
  "tx_run s ops = foldl (\<lambda>s op. fst (tx_step s op)) s ops"

definition tx_abs :: "transaction \<times> node \<Rightarrow> tx_state \<times> node option" where
  "tx_abs s = (tx_state (fst s), active (tx_root (fst s)) (snd s))"

definition same_tx :: "transaction \<Rightarrow> transaction \<Rightarrow> bool" where
  "same_tx tx tx' \<longleftrightarrow> tx' = tx\<lparr>tx_state := tx_state tx'\<rparr>"

lemma rollback_effect:
  assumes "rollback False tx io pre t = (tx', t', r)"
  shows "r = Inr () \<Longrightarrow> tx_state tx = Committed \<and> tx' = tx\<lparr>tx_state := RolledBack\<rparr> \<and>
      (\<exists>previous. tx_previous tx = Some previous \<and> is_dir t (join (tx_root tx @ [''revisions'']) previous) \<and>
         active (tx_root tx) t' = Some (File (pointer_bytes previous)))"
    and "r \<noteq> Inr () \<Longrightarrow> tx' = tx \<and> active (tx_root tx) t' = active (tx_root tx) t"
  using assms write_pointer_effect(1,2) [of "tx_root tx" _ io pre t]
  by (auto simp: rollback_def expect_state_def active_def split: sum.splits option.splits prod.splits if_splits)

lemma tx_step_refines:
  assumes "tx_wf (fst s)"
  defines "new \<equiv> pointer_bytes (tx_revision_id (fst s))" and "previous \<equiv> map_option pointer_bytes (tx_previous (fst s))"
  shows "same_tx (fst s) (fst (fst (tx_step s op))) \<and>
     (if snd (tx_step s op) = Inr () \<and> \<not> (\<exists>name bs io pre. op = Stage name bs io pre)
      then tx_spec new previous (tx_abs s) (tx_abs (fst (tx_step s op)))
      else tx_abs (fst (tx_step s op)) = tx_abs s)"
proof -
  obtain tx t where s: "s = (tx, t)" by fastforce
  have wf: "tx_wf tx" using assms(1) s by simp
  show ?thesis
  proof (cases op)
    case (Stage name bs io pre)
    have "apart (tx_root tx @ [''current'']) (tx_candidate tx)" using wf by (simp add: tx_wf_def)
    then show ?thesis
      using stage_effect(1) [of tx name bs io pre t] Stage s
      by (auto simp: same_tx_def tx_abs_def active_def split: prod.split)
  next
    case (Validate validator)
    then show ?thesis
      using s by (auto simp: validate_def expect_state_def same_tx_def tx_abs_def intro: spec_validate split: sum.splits if_splits)
  next
    case (Commit io pre)
    obtain tx' t' r where c: "commit False tx io pre t = (tx', t', r)" by (metis prod.exhaust)
    show ?thesis
      using commit_effect [OF c wf] c Commit s
      by (cases "r = Inr ()") (auto simp: same_tx_def tx_abs_def new_def intro: spec_commit)
  next
    case (Rollback io pre)
    obtain tx' t' r where c: "rollback False tx io pre t = (tx', t', r)" by (metis prod.exhaust)
    show ?thesis
      using rollback_effect [OF c] c Rollback s
      by (cases "r = Inr ()") (auto simp: same_tx_def tx_abs_def previous_def intro: spec_rollback)
  qed
qed

lemma same_tx_fields:
  assumes "same_tx tx tx'"
  shows "tx_revision_id tx' = tx_revision_id tx" and "tx_previous tx' = tx_previous tx" and "tx_root tx' = tx_root tx"
    and "tx_wf tx' = tx_wf tx"
proof -
  obtain x where "tx' = tx\<lparr>tx_state := x\<rparr>" using assms unfolding same_tx_def by blast
  then show "tx_revision_id tx' = tx_revision_id tx" and "tx_previous tx' = tx_previous tx" and "tx_root tx' = tx_root tx"
    and "tx_wf tx' = tx_wf tx" by (simp_all add: tx_wf_def)
qed

lemma same_tx_trans:
  assumes "same_tx a b" and "same_tx b c"
  shows "same_tx a c"
proof -
  obtain x y where "b = a\<lparr>tx_state := x\<rparr>" "c = b\<lparr>tx_state := y\<rparr>" using assms unfolding same_tx_def by blast
  then show ?thesis by (simp add: same_tx_def)
qed

definition tx_of :: "transaction \<Rightarrow> transaction \<times> node \<Rightarrow> bool" where
  "tx_of tx0 s \<longleftrightarrow> tx_wf tx0 \<and> same_tx tx0 (fst s)"

interpretation tx_machine: relational_refinement "\<lambda>s op. fst (tx_step s op)" "tx_of tx0" tx_abs
    "tx_spec (pointer_bytes (tx_revision_id tx0)) (map_option pointer_bytes (tx_previous tx0))" for tx0
proof unfold_locales
  fix s op
  assume inv: "tx_of tx0 s"
  note same = same_tx_fields [of tx0 "fst s"]
  have wf: "tx_wf (fst s)" using inv same(4) by (simp add: tx_of_def)
  note st = tx_step_refines [OF wf, of op]
  show "tx_of tx0 (fst (tx_step s op))"
    using inv st same_tx_trans [of tx0 "fst s"] by (auto simp: tx_of_def)
  show "(tx_spec (pointer_bytes (tx_revision_id tx0)) (map_option pointer_bytes (tx_previous tx0)))\<^sup>*\<^sup>* (tx_abs s) (tx_abs (fst (tx_step s op)))"
    using st inv same(1,2) by (auto simp: tx_of_def split: if_splits)
qed

lemma tx_run_refines:
  assumes "tx_wf (fst s)"
  shows "(tx_spec (pointer_bytes (tx_revision_id (fst s))) (map_option pointer_bytes (tx_previous (fst s))))\<^sup>*\<^sup>* (tx_abs s) (tx_abs (tx_run s ops))"
    and "tx_root (fst (tx_run s ops)) = tx_root (fst s)"
proof -
  have inv: "tx_of (fst s) s" using assms by (simp add: tx_of_def same_tx_def)
  show "(tx_spec (pointer_bytes (tx_revision_id (fst s))) (map_option pointer_bytes (tx_previous (fst s))))\<^sup>*\<^sup>* (tx_abs s) (tx_abs (tx_run s ops))"
    unfolding tx_run_def by (rule tx_machine.run_follows [OF inv])
  show "tx_root (fst (tx_run s ops)) = tx_root (fst s)"
    using tx_machine.run_invar [OF inv, of ops] same_tx_fields(3) unfolding tx_run_def tx_of_def by blast
qed

text \<open>The reachable states of the specification.\<close>

lemma tx_spec_reachable:
  assumes "(tx_spec new previous)\<^sup>*\<^sup>* (Candidate, a) (st, b)"
  shows "b = (case st of Candidate \<Rightarrow> a | Validated \<Rightarrow> a | Committed \<Rightarrow> Some (File new) | RolledBack \<Rightarrow> map_option File previous)"
  using assms
proof (induction "(st, b)" arbitrary: st b rule: rtranclp_induct)
  case base
  then show ?case by simp
next
  case (step y)
  then show ?case by (cases y) (auto elim!: tx_spec_from)
qed

section \<open>Start of a transaction\<close>

lemma get_put_new_dir:
  "get t p = None \<Longrightarrow> \<not> prefix q p \<Longrightarrow> get (put p (Some (Dir [])) t) q = get t q"
proof (induction p "Some (Dir [])" t arbitrary: q rule: put.induct)
  case (3 x es)
  then show ?case by (cases q; cases "tl q") (auto simp: update_conv' split: option.splits)
next
  case (5 x y ys es)
  then show ?case by (cases q) (auto simp: update_conv' split: option.splits)
qed auto

lemma create_dir_all_get:
  "create_dir_all pre xs t = Inr t' \<Longrightarrow> \<not> prefix q (pre @ xs) \<Longrightarrow> get t' q = get t q"
proof (induction pre xs t rule: create_dir_all.induct)
  case (1 pre t)
  then show ?case by simp
next
  case (2 pre x xs t)
  have "\<not> prefix q (pre @ [x])" using 2(4) prefix_prefix [of q "pre @ [x]" xs] by auto
  with 2 show ?case by (auto simp: get_put_new_dir split: option.splits node.splits)
qed

lemma begin_tx_effect:
  assumes "begin_tx root previous clock pid io t0 = (t, Inr tx)"
  shows "tx_wf tx" and "tx_state tx = Candidate" and "tx_root tx = root" and "tx_previous tx = previous" and "active root t = active root t0"
proof -
  obtain t1 t2 nanos where b: "create_dir_all [] (root @ [''candidates'']) t0 = Inr t1"
    "create_dir_all [] (root @ [''revisions'']) t1 = Inr t2"
    "create_dir (root @ [''candidates'', revision_name nanos pid]) t2 = Inr t"
    "tx = \<lparr>tx_root = root, tx_candidate = root @ [''candidates'', revision_name nanos pid], tx_previous = previous,
       tx_revision_id = revision_name nanos pid, tx_state = Candidate\<rparr>"
    using assms by (auto simp: begin_tx_def Let_def sys_Inr split: if_splits sum.splits option.splits)
  show "tx_wf tx" and "tx_state tx = Candidate" and "tx_root tx = root" and "tx_previous tx = previous"
    using b(4) by (simp_all add: tx_wf_def)
  have "t = put (root @ [''candidates'', revision_name nanos pid]) (Some (Dir [])) t2"
    using b(3) by (auto simp: create_dir_def split: if_splits)
  then show "active root t = active root t0"
    using create_dir_all_get [OF b(1), of "root @ [''current'']"] create_dir_all_get [OF b(2), of "root @ [''current'']"]
    by (simp add: active_def apart_get)
qed

section \<open>Properties\<close>


definition no_faults :: faults where "no_faults = (\<lambda>_. None)"

definition sample_tx :: transaction where
  "sample_tx = \<lparr>tx_root = [''srv''], tx_candidate = [''srv'', ''candidates'', ''rev-5-7''], tx_previous = None,
     tx_revision_id = ''rev-5-7'', tx_state = Candidate\<rparr>"

definition sample_tree :: node where
  "sample_tree = Dir [(''srv'', Dir [(''candidates'', Dir [(''rev-5-7'', Dir [])]), (''revisions'', Dir [])])]"

lemma sample_begin: "begin_tx [''srv''] None (Some 5) 7 no_faults (Dir []) = (sample_tree, Inr sample_tx)"
  by code_simp

definition sample_ops :: "tx_op list" where
  "sample_ops = [Commit no_faults [], Stage ''config.yaml'' [1, 2] no_faults [], Validate (\<lambda>t p. Inr ()), Commit no_faults []]"




text \<open>C28: staging cannot leave the candidate directory and cannot damage it.  Nothing outside the candidate changes,
  whatever the artifact is called; a staged artifact has exactly the given bytes; a failed staging keeps
  the artifact as it was.\<close>

theorem stage_confined:
  assumes "stage tx name bs io pre t = (t', r)"
  shows "(\<forall>q. apart q (tx_candidate tx) \<longrightarrow> get t' q = get t q) \<and>
     (case r of
        Inr _ \<Rightarrow> is_plain_file_name name \<and> tx_state tx = Candidate \<and> get t' (join (tx_candidate tx) name) = Some (File bs)
      | Inl _ \<Rightarrow> is_plain_file_name name \<longrightarrow> get t' (join (tx_candidate tx) name) = get t (join (tx_candidate tx) name))"
  using stage_effect [OF assms] by (cases r) simp_all

theorem stage_confined_witness:
  "get (fst (stage sample_tx ''../../current'' [1] no_faults [] sample_tree)) [''srv'', ''current''] = None \<and>
   get (fst (stage sample_tx ''config.yaml'' [1] no_faults [] sample_tree)) [''srv'', ''current''] = None"
proof -
  have "apart [''srv'', ''current''] (tx_candidate sample_tx)" by (simp add: sample_tx_def)
  moreover have "get sample_tree [''srv'', ''current''] = None" by (simp add: sample_tree_def)
  ultimately show ?thesis using stage_confined [OF surjective_pairing] by metis
qed

text \<open>A temporary pointer file that is left over makes every further pointer update fail.\<close>

lemma stale_pointer_blocks:
  assumes "get t (tx_root tx @ [''.current.tmp'']) \<noteq> None" and "tx_wf tx"
  shows "snd (snd (commit False tx io pre t)) \<noteq> Inr ()" and "snd (snd (rollback False tx io pre t)) \<noteq> Inr ()"
proof -
  have wp: "snd (write_pointer False (tx_root tx) ''current'' x io' pre t') \<noteq> Inr ()"
    if "get t' (tx_root tx @ [''.current.tmp'']) \<noteq> None" for io' x t'
    using that by (auto simp: write_pointer_def install_pointer_def Let_def create_new_def sys_def split: option.splits)
  show "snd (snd (rollback False tx io pre t)) \<noteq> Inr ()"
  proof (cases "tx_previous tx")
    case (Some p)
    from wp [OF assms(1), of p io] show ?thesis
      by (cases "write_pointer False (tx_root tx) ''current'' p io pre t"; cases "snd (write_pointer False (tx_root tx) ''current'' p io pre t)")
        (simp_all add: rollback_def expect_state_def Some)
  qed (simp add: rollback_def expect_state_def)
  show "snd (snd (commit False tx io pre t)) \<noteq> Inr ()"
  proof (cases "sys (io 0) (rename (tx_candidate tx) (committed_path tx) t)")
    case (Inl e)
    then show ?thesis by (auto simp: commit_def Let_def split: sum.splits)
  next
    case (Inr t1)
    then have rn: "rename (tx_candidate tx) (committed_path tx) t = Inr t1" by (simp add: sys_Inr)
    have "get t1 (tx_root tx @ [''.current.tmp'']) = get t (tx_root tx @ [''.current.tmp''])"
      using assms(2) rename_apart(2) [OF rn, of "tx_root tx @ [''.current.tmp'']"] by (simp add: tx_wf_def butlast_append)
    then have "snd (write_pointer False (tx_root tx) ''current'' (tx_revision_id tx) (\<lambda>n. io (n + 1)) pre t1) \<noteq> Inr ()"
      using wp assms(1) by simp
    then show ?thesis using Inr by (auto simp: commit_def Let_def split: sum.splits prod.splits)
  qed
qed

text \<open>A commit cannot be retried after its pointer could not be written.  When writing the temporary pointer fails
  (a full disk), the temporary file stays behind, and from then on every commit fails, whatever happens to
  the cause of the first failure.\<close>

theorem commit_failure_blocks_retry:
  assumes "tx_wf tx" and "tx_state tx = Validated" and "io 0 = None" and "io 1 = None" and "io 2 = Some e" and "io 9 = None"
    and "rename (tx_candidate tx) (committed_path tx) t = Inr t1"
    and "get t (tx_root tx @ [''.current.tmp'']) = None" and "is_dir t (tx_root tx)"
  shows "\<exists>t'. commit False tx io pre t = (tx, t', Inl (Io e)) \<and> active (tx_root tx) t' = active (tx_root tx) t \<and>
     (\<forall>io' pre'. snd (snd (commit False tx io' pre' t')) \<noteq> Inr ())"
proof -
  let ?root = "tx_root tx" and ?tmp = "tx_root tx @ [''.current.tmp'']" and ?com = "committed_path tx" and ?cand = "tx_candidate tx"
  have wf: "?cand = ?root @ [''candidates'', tx_revision_id tx]" using assms(1) by (simp add: tx_wf_def)
  obtain n where n: "t1 = put ?com (Some n) (put ?cand None t)" using rename_Inr [OF assms(7)] by blast
  have t1: "get t1 ?tmp = None" "is_dir t1 ?root"
    using assms(8,9) by (simp_all add: n apart_get is_dir_put wf)
  define t2 where "t2 = put ?tmp (Some (File pre)) (put ?tmp (Some (File [])) t1)"
  have wp: "write_pointer False ?root ''current'' (tx_revision_id tx) (\<lambda>n. io (n + 1)) pre t1 = (t2, Inl e)"
    using t1 assms(4,5) by (simp add: write_pointer_def install_pointer_def Let_def sys_def create_new_def write_file_def t2_def numeral_2_eq_2)
  define t' where "t' = ignoring (sys (io 9) (rename ?com ?cand t2)) t2"
  have c: "commit False tx io pre t = (tx, t', Inl (Io e))"
    using assms(2,3,7) wp unfolding t'_def by (simp add: commit_def expect_state_def Let_def sys_def)
  have tmp: "get t2 ?tmp \<noteq> None"
    using t1(2) by (simp add: t2_def get_put_same is_dir_put)
  have "get t' ?tmp \<noteq> None"
  proof (cases "rename ?com ?cand t2")
    case (Inl x)
    then show ?thesis using tmp assms(6) by (simp add: t'_def sys_def ignoring_def)
  next
    case (Inr t3)
    have "get t3 ?tmp = get t2 ?tmp"
      using rename_apart(2) [OF Inr, of ?tmp] by (simp add: wf butlast_append)
    then show ?thesis using Inr tmp assms(6) by (simp add: t'_def sys_def ignoring_def)
  qed
  then have "\<forall>io' pre'. snd (snd (commit False tx io' pre' t')) \<noteq> Inr ()" using stale_pointer_blocks(1) assms(1) by blast
  with c commit_effect(2) [OF c assms(1)] show ?thesis by auto
qed

theorem commit_failure_blocks_retry_witness:
  "\<exists>t'. commit False (sample_tx\<lparr>tx_state := Validated\<rparr>) (\<lambda>n. if n = 2 then Some OtherIo else None) [] sample_tree =
       (sample_tx\<lparr>tx_state := Validated\<rparr>, t', Inl (Io OtherIo)) \<and>
     snd (snd (commit False (sample_tx\<lparr>tx_state := Validated\<rparr>) no_faults [] t')) \<noteq> Inr ()"
proof -
  have "\<exists>t1. rename (tx_candidate (sample_tx\<lparr>tx_state := Validated\<rparr>)) (committed_path (sample_tx\<lparr>tx_state := Validated\<rparr>)) sample_tree = Inr t1"
    by (simp add: rename_def sample_tx_def sample_tree_def)
  then obtain t1 where "rename (tx_candidate (sample_tx\<lparr>tx_state := Validated\<rparr>)) (committed_path (sample_tx\<lparr>tx_state := Validated\<rparr>)) sample_tree = Inr t1" by blast
  from commit_failure_blocks_retry [OF _ _ _ _ _ _ this, of "\<lambda>n. if n = 2 then Some OtherIo else None" OtherIo "[]"] show ?thesis
    by (auto simp: tx_wf_def sample_tx_def sample_tree_def)
qed

text \<open>Where an existing pointer is swapped through a backup, the new pointer is in place before the backup is removed.\<close>

lemma rename_fresh:
  "get t s = Some n \<Longrightarrow> is_dir t (butlast d) \<Longrightarrow> get t d = None \<Longrightarrow> rename s d t = Inr (put d (Some n) (put s None t))"
  by (cases n) (simp_all add: rename_def)

lemma swap_pointer_error:
  assumes "\<forall>n < 7. io n = None" and "io 7 = Some e" and "is_dir t root" and "get t (root @ [''current'']) = Some (File b)"
    and "get t (root @ [''.current.tmp'']) = None" and "get t (root @ [''.current.previous'']) = None"
  shows "\<exists>t'. write_pointer True root ''current'' revision io pre t = (t', Inl e) \<and>
     get t' (root @ [''current'']) = Some (File (pointer_bytes revision)) \<and>
     (\<forall>x q. x \<notin> {''current'', ''.current.tmp'', ''.current.previous''} \<longrightarrow> get t' (root @ x # q) = get t (root @ x # q))"
proof -
  let ?tmp = "root @ [''.current.tmp'']" and ?bak = "root @ [''.current.previous'']" and ?cur = "root @ [''current'']"
  let ?f = "Some (File (pointer_bytes revision))"
  define t2 where "t2 = put ?tmp ?f (put ?tmp (Some (File [])) t)"
  define t3 where "t3 = put ?bak (Some (File b)) (put ?cur None t2)"
  define t4 where "t4 = put ?cur ?f (put ?tmp None t3)"
  have d: "is_dir t2 root" "is_dir (put ?cur None t2) root" "is_dir t3 root" "is_dir (put ?tmp None t3) root"
    using assms(3) by (simp_all add: t2_def t3_def is_dir_put)
  have g2: "get t2 ?tmp = ?f" "get t2 ?cur = Some (File b)" "get t2 ?bak = None"
    using assms(3-6) by (simp_all add: t2_def apart_get get_put_same is_dir_put)
  have g3: "get t3 ?cur = None" "get t3 ?tmp = ?f" "get t3 ?bak = Some (File b)"
    using d g2 by (simp_all add: t3_def apart_get get_put_same)
  have r: "rename ?cur ?bak t2 = Inr t3" "rename ?tmp ?cur t3 = Inr t4"
    unfolding t3_def t4_def using d g2 g3 by (simp_all add: rename_fresh t3_def)
  have "write_pointer True root ''current'' revision io pre t = install_pointer True ?tmp ?bak ?cur io t2"
    using assms(1,3,5) by (simp add: write_pointer_def Let_def sys_def create_new_def write_file_def t2_def)
  also have "\<dots> = (t4, Inl e)"
    using assms(1,2) g2 r by (simp add: install_pointer_def sys_def)
  finally have "write_pointer True root ''current'' revision io pre t = (t4, Inl e)" .
  moreover have "get t4 ?cur = ?f" using d(4) by (simp add: t4_def get_put_same)
  moreover have "get t4 (root @ x # q) = get t (root @ x # q)" if "x \<notin> {''current'', ''.current.tmp'', ''.current.previous''}" for x q
    using that by (simp add: t4_def t3_def t2_def apart_get)
  ultimately show ?thesis by blast
qed

text \<open>C36: on Windows a failed commit can leave the active pointer dangling.  When an earlier revision is active and only
  the removal of the backup fails, the commit reports an error and moves the revision back to the
  candidates, but the active pointer already names it.\<close>

theorem commit_windows_dangling:
  assumes "tx_wf tx" and "tx_state tx = Validated" and "io 8 = Some e" and "\<forall>n. n \<noteq> 8 \<longrightarrow> io n = None"
    and "rename (tx_candidate tx) (committed_path tx) t = Inr t1" and "is_dir t (tx_root tx @ [''candidates''])"
    and "is_dir t (tx_root tx)" and "active (tx_root tx) t = Some (File b)"
    and "get t (tx_root tx @ [''.current.tmp'']) = None" and "get t (tx_root tx @ [''.current.previous'']) = None"
  shows "\<exists>t'. commit True tx io pre t = (tx, t', Inl (Io e)) \<and>
     active (tx_root tx) t' = Some (File (pointer_bytes (tx_revision_id tx))) \<and> get t' (committed_path tx) = None"
proof -
  let ?root = "tx_root tx" and ?com = "committed_path tx" and ?cand = "tx_candidate tx"
  have wf: "?cand = ?root @ [''candidates'', tx_revision_id tx]" using assms(1) by (simp add: tx_wf_def)
  obtain n where n: "get t ?cand = Some n" "is_dir t (butlast ?com)" "t1 = put ?com (Some n) (put ?cand None t)"
    using rename_Inr [OF assms(5)] by blast
  have t1: "is_dir t1 ?root" "get t1 (?root @ [''current'']) = Some (File b)" "get t1 (?root @ [''.current.tmp'']) = None"
    "get t1 (?root @ [''.current.previous'']) = None" "get t1 ?cand = None" "is_dir t1 (?root @ [''candidates''])"
    "get t1 ?com = Some n" "is_dir t1 (?root @ [''revisions''])"
    using assms(6-10) n(2) by (simp_all add: n(3) wf apart_get is_dir_put active_def get_put_same butlast_append)
  obtain t2 where t2: "write_pointer True ?root ''current'' (tx_revision_id tx) (\<lambda>n. io (n + 1)) pre t1 = (t2, Inl e)"
    "get t2 (?root @ [''current'']) = Some (File (pointer_bytes (tx_revision_id tx)))"
    "\<forall>x q. x \<notin> {''current'', ''.current.tmp'', ''.current.previous''} \<longrightarrow> get t2 (?root @ x # q) = get t1 (?root @ x # q)"
    using swap_pointer_error [of "\<lambda>n. io (n + 1)" e t1 ?root b "tx_revision_id tx" pre] t1 assms(3,4) by auto
  define t3 where "t3 = put ?cand (Some n) (put ?com None t2)"
  have g: "get t2 ?com = Some n" "get t2 ?cand = None" "is_dir t2 (?root @ [''candidates''])" "is_dir t2 (?root @ [''revisions''])"
    using t2(3) t1 by (simp_all add: wf is_dir_def)
  then have "rename ?com ?cand t2 = Inr t3"
    by (simp add: rename_fresh t3_def wf butlast_append)
  then have "commit True tx io pre t = (tx, t3, Inl (Io e))"
    using assms(2,4,5) t2(1) by (simp add: commit_def expect_state_def Let_def sys_def ignoring_def)
  moreover have "get t3 (?root @ [''current'']) = get t2 (?root @ [''current''])" "get t3 ?com = None"
    using g by (simp_all add: t3_def wf apart_get get_put_same butlast_append)
  ultimately show ?thesis using t2(2) by (simp add: active_def)
qed

definition windows_tree :: node where
  "windows_tree = Dir [(''srv'', Dir [(''candidates'', Dir [(''rev-5-7'', Dir [])]), (''revisions'', Dir [(''rev-4-7'', Dir [])]),
     (''current'', File (pointer_bytes ''rev-4-7''))])]"

theorem commit_windows_dangling_witness:
  "\<exists>t'. commit True (sample_tx\<lparr>tx_state := Validated\<rparr>) (\<lambda>n. if n = 8 then Some OtherIo else None) [] windows_tree =
       (sample_tx\<lparr>tx_state := Validated\<rparr>, t', Inl (Io OtherIo)) \<and>
     active [''srv''] t' = Some (File (pointer_bytes ''rev-5-7'')) \<and> get t' [''srv'', ''revisions'', ''rev-5-7''] = None"
proof -
  let ?tx = "sample_tx\<lparr>tx_state := Validated\<rparr>"
  obtain t1 where "rename (tx_candidate ?tx) (committed_path ?tx) windows_tree = Inr t1"
    by (simp add: rename_def sample_tx_def windows_tree_def)
  from commit_windows_dangling [OF _ _ _ _ this, of "\<lambda>n. if n = 8 then Some OtherIo else None" OtherIo "pointer_bytes ''rev-4-7''" "[]"]
  show ?thesis by (auto simp: tx_wf_def sample_tx_def windows_tree_def active_def)
qed

end
