(* ===== verification/Tests_Tunnel.thy ===== *)
theory Tests_Tunnel
  imports Server_Sessions Keyring
begin

text \<open>
  The unit tests of \<open>main.rs\<close> for the adaptive controller, the sequence window, the wire format, the keyring and
  the takeover of sessions, replayed on the model: the definition of a test is the conjunction of its assertions on the values that the
  model computes for its inputs, and the lemma named after it says that it passes.  A test that
  hashes or encrypts has the cryptographic functions as an argument, and passes for all of them where it can; a test that
  flips a bit and expects a rejection needs them to notice, as the checksums of \<open>sum_crypto\<close> do.
\<close>

section \<open>Adaptive redundancy\<close>

abbreviation reports :: "adaptive \<Rightarrow> u32 list \<Rightarrow> adaptive" where
  "reports \<equiv> foldl report"

definition adaptive_has_hysteresis :: bool where
  "adaptive_has_hysteresis \<longleftrightarrow>
     (let a = reports adaptive_default (replicate 8 90000); b = reports a (replicate 45 0);
          c = reports b (replicate 20 1000000) in
      1 \<le> ad_parity a \<and> ad_parity b = 0 \<and> ad_parity c = 0)"

definition adaptive_reacts_to_bursty_loss :: bool where
  "adaptive_reacts_to_bursty_loss \<longleftrightarrow>
     (let a = reports (adaptive_default\<lparr>ad_parity := 0\<rparr>) [0, 75000, 0, 80000, 0, 90000, 0, 70000] in
      1 \<le> ad_parity a \<and> ad_parity a \<le> MAX_PARITY)"

definition adaptive_bypasses_fec_after_sustained_high_loss :: bool where
  "adaptive_bypasses_fec_after_sustained_high_loss \<longleftrightarrow>
     (let a = report (adaptive_default\<lparr>ad_parity := MAX_PARITY\<rparr>) FEC_BYPASS_LOSS_PPM; b = report a FEC_BYPASS_LOSS_PPM;
          c = report b FEC_BYPASS_LOSS_PPM in
      ad_parity a = MAX_PARITY \<and> ad_parity b = MAX_PARITY \<and> ad_parity c = 0)"

definition adaptive_single_loss_spike_does_not_reset_parity :: bool where
  "adaptive_single_loss_spike_does_not_reset_parity \<longleftrightarrow>
     ad_parity (reports (adaptive_default\<lparr>ad_parity := 2\<rparr>) [FEC_BYPASS_LOSS_PPM + 100000, 0]) = 2"

definition adaptive_recovers_quickly_after_bypass :: bool where
  "adaptive_recovers_quickly_after_bypass \<longleftrightarrow>
     (let a = reports (adaptive_default\<lparr>ad_parity := MAX_PARITY\<rparr>) (replicate 3 FEC_BYPASS_LOSS_PPM); b = report a 290000 in
      ad_parity a = 0 \<and> ad_parity b = MAX_PARITY)"

definition adaptive_ignores_unavailable_loss_samples :: bool where
  "adaptive_ignores_unavailable_loss_samples \<longleftrightarrow>
     (let a = report \<lparr>ad_parity = 2, bad = 1, good = 7, last_loss_ppm = 80000, smoothed_loss_ppm = 70000,
                unavailable_reports = 0, bypass_streak = 0, bypassed = False\<rparr> LOSS_SAMPLE_UNAVAILABLE in
      ad_parity a = 2 \<and> bad a = 1 \<and> good a = 7 \<and> last_loss_ppm a = 80000 \<and> smoothed_loss_ppm a = 70000)"

definition adaptive_rises_through_interleaved_idle_gaps :: bool where
  "adaptive_rises_through_interleaved_idle_gaps \<longleftrightarrow>
     ad_parity (reports adaptive_default [90000, 0xFFFFFFFF, 90000, 0xFFFFFFFF, 90000]) = 1"

definition adaptive_retires_stale_parity_after_idle_timeout :: bool where
  "adaptive_retires_stale_parity_after_idle_timeout \<longleftrightarrow>
     (let a = reports (adaptive_default\<lparr>ad_parity := 2\<rparr>) (replicate 14 LOSS_SAMPLE_UNAVAILABLE);
          b = report a LOSS_SAMPLE_UNAVAILABLE; c = reports b (replicate 15 LOSS_SAMPLE_UNAVAILABLE) in
      ad_parity a = 2 \<and> ad_parity b = 1 \<and> ad_parity c = 0)"

text \<open>One report on a record of values, with the branches in the order of the code.\<close>

lemma report_values:
  "report \<lparr>ad_parity = p, bad = b, good = g, last_loss_ppm = l, smoothed_loss_ppm = s, unavailable_reports = u,
      bypass_streak = k, bypassed = x\<rparr> loss =
   (if loss = LOSS_SAMPLE_UNAVAILABLE then
      (if 15 \<le> sat_add u 1 then
         \<lparr>ad_parity = p - 1, bad = b, good = g, last_loss_ppm = (if p - 1 = 0 then 0 else l),
           smoothed_loss_ppm = (if p - 1 = 0 then 0 else s), unavailable_reports = 0, bypass_streak = k, bypassed = x\<rparr>
       else \<lparr>ad_parity = p, bad = b, good = g, last_loss_ppm = l, smoothed_loss_ppm = s, unavailable_reports = sat_add u 1,
              bypass_streak = k, bypassed = x\<rparr>)
    else if FEC_BYPASS_LOSS_PPM \<le> loss then
      (if 3 \<le> sat_add k 1 then
         \<lparr>ad_parity = 0, bad = 0, good = 0, last_loss_ppm = loss, smoothed_loss_ppm = smooth s loss, unavailable_reports = 0,
           bypass_streak = sat_add k 1, bypassed = True\<rparr>
       else \<lparr>ad_parity = p, bad = b, good = 0, last_loss_ppm = loss, smoothed_loss_ppm = smooth s loss, unavailable_reports = 0,
              bypass_streak = sat_add k 1, bypassed = x\<rparr>)
    else if x then
      \<lparr>ad_parity = min (target (smooth s loss)) MAX_PARITY, bad = 0, good = 0, last_loss_ppm = loss,
        smoothed_loss_ppm = smooth s loss, unavailable_reports = 0, bypass_streak = 0, bypassed = False\<rparr>
    else report_adjust \<lparr>ad_parity = p, bad = b, good = g, last_loss_ppm = loss, smoothed_loss_ppm = smooth s loss,
        unavailable_reports = 0, bypass_streak = 0, bypassed = False\<rparr> (target (smooth s loss)))"
  by (simp add: report_def report_unavailable_def report_bypass_def Let_def)

lemma report_adjust_values:
  "report_adjust \<lparr>ad_parity = p, bad = b, good = g, last_loss_ppm = l, smoothed_loss_ppm = s, unavailable_reports = u,
      bypass_streak = k, bypassed = x\<rparr> t =
   (if p < t then
      \<lparr>ad_parity = (if 2 \<le> b + 1 then min (p + 1) MAX_PARITY else p), bad = (if 2 \<le> b + 1 then 0 else b + 1), good = 0,
        last_loss_ppm = l, smoothed_loss_ppm = s, unavailable_reports = u, bypass_streak = k, bypassed = x\<rparr>
    else if t < p then
      \<lparr>ad_parity = (if 15 \<le> g + 1 then p - 1 else p), bad = sat_sub b 1, good = (if 15 \<le> g + 1 then 0 else g + 1),
        last_loss_ppm = l, smoothed_loss_ppm = s, unavailable_reports = u, bypass_streak = k, bypassed = x\<rparr>
    else \<lparr>ad_parity = p, bad = sat_sub b 1, good = 0,
           last_loss_ppm = l, smoothed_loss_ppm = s, unavailable_reports = u, bypass_streak = k, bypassed = x\<rparr>)"
  by (simp add: report_adjust_def Let_def)

lemmas adaptive_test_simps = Let_def word_le_nat_alt word_less_nat_alt replicate_numeral sat_add_def sat_sub_def adaptive_consts
  report_values report_adjust_values smooth_def target_def adaptive_default_def

lemma adaptive_has_hysteresis_passes: adaptive_has_hysteresis
  by (simp add: adaptive_has_hysteresis_def adaptive_test_simps)

lemma adaptive_reacts_to_bursty_loss_passes: adaptive_reacts_to_bursty_loss
  by (simp add: adaptive_reacts_to_bursty_loss_def adaptive_test_simps)

lemma adaptive_bypasses_fec_after_sustained_high_loss_passes: adaptive_bypasses_fec_after_sustained_high_loss
  by (simp add: adaptive_bypasses_fec_after_sustained_high_loss_def adaptive_test_simps)

lemma adaptive_single_loss_spike_does_not_reset_parity_passes: adaptive_single_loss_spike_does_not_reset_parity
  by (simp add: adaptive_single_loss_spike_does_not_reset_parity_def adaptive_test_simps)

lemma adaptive_recovers_quickly_after_bypass_passes: adaptive_recovers_quickly_after_bypass
  by (simp add: adaptive_recovers_quickly_after_bypass_def adaptive_test_simps)

lemma adaptive_ignores_unavailable_loss_samples_passes: adaptive_ignores_unavailable_loss_samples
  by (simp add: adaptive_ignores_unavailable_loss_samples_def adaptive_test_simps)

lemma adaptive_rises_through_interleaved_idle_gaps_passes: adaptive_rises_through_interleaved_idle_gaps
  by (simp add: adaptive_rises_through_interleaved_idle_gaps_def adaptive_test_simps)

lemma adaptive_retires_stale_parity_after_idle_timeout_passes: adaptive_retires_stale_parity_after_idle_timeout
  by (simp add: adaptive_retires_stale_parity_after_idle_timeout_def adaptive_test_simps)

section \<open>Sequence window\<close>

abbreviation observe_all :: "'a seq_window_scheme \<Rightarrow> u64 list \<Rightarrow> 'a seq_window_scheme" where
  "observe_all \<equiv> foldl (\<lambda>d q. fst (observe_seq d q))"

definition reorder_window_does_not_report_loss :: bool where
  "reorder_window_does_not_report_loss \<longleftrightarrow>
     (let d = fst (observe_seq (decoder_new 1) 1);
          d = observe_all d (map of_nat (concat (map (\<lambda>block. let base = block * 50 + 1 in rev [base + 1..<base + 51]) [0..<4]))) in
      map_option sequence_gap_ppm (snd (sequence_report d)) = Some 0)"

definition finalized_window_reports_real_loss_once :: bool where
  "finalized_window_reports_real_loss_once \<longleftrightarrow>
     (let d = observe_all (decoder_new 1) (map of_nat (filter (\<lambda>q. q \<noteq> 20 \<and> q \<noteq> 100) [1..<201])) in
      case sequence_report d of
        (d', Some r) \<Rightarrow> sequence_gap_ppm r = 2000000 div 136 \<and> expected r = 136 \<and> received r = 134 \<and> missing r = 2 \<and>
          snd (sequence_report d') = None
      | _ \<Rightarrow> False)"

definition sequence_report_separates_late_and_duplicate_frames_from_gaps :: bool where
  "sequence_report_separates_late_and_duplicate_frames_from_gaps \<longleftrightarrow>
     (let d = observe_all (decoder_new 1) (map of_nat [1..<201]) in
      case observe_seq d 100 of (d1, fresh1) \<Rightarrow>
      \<not> fresh1 \<and>
      (case sequence_report d1 of
         (d2, Some first) \<Rightarrow> sequence_gap_ppm first = 0 \<and> duplicates first = 1 \<and> late first = 0 \<and>
           (case observe_seq d2 10 of (d3, fresh2) \<Rightarrow>
            \<not> fresh2 \<and>
            (case sequence_report (observe_all d3 (map of_nat [201..<337])) of
               (_, Some second) \<Rightarrow> sequence_gap_ppm second = 0 \<and> duplicates second = 0 \<and> late second = 1
             | _ \<Rightarrow> False))
       | _ \<Rightarrow> False))"

definition first_high_sequence_establishes_baseline :: bool where
  "first_high_sequence_establishes_baseline \<longleftrightarrow>
     map_option sequence_gap_ppm (snd (sequence_report (observe_all (decoder_new 1) (map of_nat [10000..<10201])))) = Some 0"

text \<open>A decoder whose window is given by natural numbers.\<close>

definition window_of :: "nat \<Rightarrow> nat \<Rightarrow> nat set \<Rightarrow> nat \<Rightarrow> nat \<Rightarrow> decoder" where
  "window_of h f N l d = (decoder_new 1)\<lparr>highest_sequence := of_nat h, finalized_sequence := of_nat f,
     seen_sequences := of_nat ` N, late_sequences := of_nat l, duplicate_sequences := of_nat d\<rparr>"

lemma window_of_simps [simp]:
  "highest_sequence (window_of h f N l d) = of_nat h" "finalized_sequence (window_of h f N l d) = of_nat f"
  "seen_sequences (window_of h f N l d) = of_nat ` N" "late_sequences (window_of h f N l d) = of_nat l"
  "duplicate_sequences (window_of h f N l d) = of_nat d"
  by (simp_all add: window_of_def)

lemma unat_u64: "n < 2 ^ 64 \<Longrightarrow> unat (of_nat n :: u64) = n"
  by (simp add: unsigned_of_nat take_bit_nat_eq_self)

lemma u64_le: "m < 2 ^ 64 \<Longrightarrow> n < 2 ^ 64 \<Longrightarrow> (of_nat m :: u64) \<le> of_nat n \<longleftrightarrow> m \<le> n"
  by (simp add: word_le_nat_alt unat_u64)

lemma u64_mem: "n < 2 ^ 64 \<Longrightarrow> \<forall>x \<in> N. x < 2 ^ 64 \<Longrightarrow> (of_nat n :: u64) \<in> of_nat ` N \<longleftrightarrow> n \<in> N"
  by (metis (no_types, lifting) image_iff unat_u64)

lemma sat_add_u64: "n + 1 < 2 ^ 64 \<Longrightarrow> sat_add (of_nat n :: u64) 1 = of_nat (n + 1)"
  using unat_u64 [of n] by (simp add: sat_add_def)

lemma observe_window_of:
  assumes "n < 2 ^ 64" and "h < 2 ^ 64" and "f < 2 ^ 64" and "l + 1 < 2 ^ 64" and "d + 1 < 2 ^ 64"
    and "\<forall>x \<in> N. x < 2 ^ 64" and "N \<noteq> {}"
  shows "observe_seq (window_of h f N l d) (of_nat n) =
     (if n \<le> f then (window_of h f N (l + 1) d, False)
      else if n \<in> N then (window_of (max h n) f N l (d + 1), False)
      else (window_of (max h n) f (insert n N) l d, True))"
proof -
  have max: "max (of_nat h :: u64) (of_nat n) = of_nat (max h n)" using assms(1,2) by (simp add: max_def u64_le)
  have "\<not> fresh_window (window_of h f N l d)" using assms(7) by (simp add: fresh_window_def)
  note started = observe_started [OF this, of "of_nat n"]
  show ?thesis
    unfolding started window_of_simps u64_le [OF assms(1,3)] u64_mem [OF assms(1,6)] max
      sat_add_u64 [OF assms(4)] sat_add_u64 [OF assms(5)]
    by (auto simp: window_of_def)
qed

lemma observe_numbers:
  assumes "distinct ns" and "set ns \<inter> N = {}" and "\<forall>n \<in> set ns. f < n \<and> n < 2 ^ 64" and "\<forall>x \<in> N. x < 2 ^ 64" and "N \<noteq> {}"
    and "h < 2 ^ 64" and "f < 2 ^ 64" and "l + 1 < 2 ^ 64" and "d + 1 < 2 ^ 64"
  shows "observe_all (window_of h f N l d) (map of_nat ns) = window_of (fold max ns h) f (N \<union> set ns) l d"
  using assms
proof (induction ns arbitrary: h N)
  case (Cons n ns)
  have "observe_seq (window_of h f N l d) (of_nat n) = (window_of (max h n) f (insert n N) l d, True)"
    using observe_window_of [of n h f l d N] Cons.prems by simp
  then show ?case using Cons.IH [of "insert n N" "max h n"] Cons.prems by (simp add: max.commute)
qed simp

lemma observe_first:
  assumes "0 < n" and "n < 2 ^ 64"
  shows "observe_seq (decoder_new 1) (of_nat n) = (window_of n (n - 1) {n} 0 0, True)"
proof -
  have "(of_nat n :: u64) \<noteq> 0" using assms unat_u64 [of n] by auto
  moreover from this have "sat_sub (of_nat n :: u64) 1 = of_nat (n - 1)"
    using assms(1) by (simp add: sat_sub_def word_le_nat_alt unat_u64 [OF assms(2)] of_nat_diff)
  ultimately show ?thesis
    by (simp add: observe_fresh fresh_window_def decoder_new_def window_of_def)
qed

lemma unat_eq_of_nat: "unat x = n \<Longrightarrow> x = of_nat n"
  by auto

lemma report_window_of:
  assumes "f + 96 \<le> h" and "h < 2 ^ 64" and "\<forall>x \<in> N. x < 2 ^ 64"
  defines "c \<equiv> card {n \<in> N. f < n \<and> n \<le> h - 64}"
  shows "sequence_report (window_of h f N l d) = (window_of h (h - 64) {n \<in> N. h - 64 < n} 0 0,
     Some \<lparr>expected = of_nat (h - 64 - f), received = of_nat c, missing = of_nat (h - 64 - f - c),
       sequence_gap_ppm = of_nat ((h - 64 - f - c) * 1000000 div (h - 64 - f)), late = of_nat l, duplicates = of_nat d\<rparr>)"
proof -
  let ?w = "window_of h f N l d"
  have co: "sat_sub (highest_sequence ?w) REORDER_WINDOW = of_nat (h - 64)" "window_cutoff ?w = of_nat (h - 64)"
    using assms(1,2) by (simp_all add: window_cutoff_def REORDER_WINDOW_def sat_sub_def word_less_nat_alt unat_u64 of_nat_diff)
  have ex: "window_cutoff ?w - finalized_sequence ?w = of_nat (h - 64 - f)"
    unfolding co(2) using assms(1) by (simp add: of_nat_diff)
  then have e: "unat (window_cutoff ?w - finalized_sequence ?w) = h - 64 - f"
    using assms(2) unat_u64 [of "h - 64 - f"] by simp
  have "\<not> of_nat (h - 64) \<le> finalized_sequence ?w" "\<not> of_nat (h - 64) - finalized_sequence ?w < 32"
    using assms(1,2) e u64_le [of "h - 64" f] unfolding co(2) word_less_nat_alt by simp_all
  then obtain w' r where rep: "sequence_report ?w = (w', Some r)"
    unfolding sequence_report_def Let_def co(1) by auto
  have lift: "{s \<in> of_nat ` N. P (unat s)} = (of_nat :: nat \<Rightarrow> u64) ` {n \<in> N. P n}" for P
    using assms(3) unat_u64 by fastforce
  have co': "unat (of_nat (h - 64) :: u64) = h - 64" "unat (of_nat f :: u64) = f" using assms(1,2) by (intro unat_u64; simp)+
  have "inj_on (of_nat :: nat \<Rightarrow> u64) N"
    by (rule inj_on_inverseI [where g = unat], rule unat_u64) (use assms(3) in blast)
  then have "card ((of_nat :: nat \<Rightarrow> u64) ` {n \<in> N. f < n \<and> n \<le> h - 64}) = c"
    unfolding c_def by (intro card_image) (auto intro: inj_on_subset)
  then have c: "window_received ?w = c"
    unfolding window_received_def co(2) lift [symmetric] window_of_simps word_less_nat_alt word_le_nat_alt co' .
  note counts = window_counts [OF report_cutoff(2) [OF rep]]
  have m: "window_missing ?w = h - 64 - f - c" using counts c e by simp
  have "w' = window_of h (h - 64) {n \<in> N. h - 64 < n} 0 0"
    unfolding sequence_report_Some(1) [OF rep] co(2) window_of_simps word_less_nat_alt co' lift by (simp add: window_of_def)
  moreover have "unat (expected r) = h - 64 - f" using counts e sequence_report_Some(2) [OF rep] by simp
  ultimately show ?thesis
    using rep sequence_report_Some(3-) [OF rep] c m by (cases r) (auto simp: unat_eq_of_nat)
qed

lemma report_too_early:
  assumes "h \<le> f + 64" and "h < 2 ^ 64" and "f < 2 ^ 64"
  shows "sequence_report (window_of h f N l d) = (window_of h f N l d, None)"
proof -
  have "sat_sub (of_nat h :: u64) REORDER_WINDOW \<le> of_nat f"
    using assms by (simp add: word_le_nat_alt unat_sat_sub unat_u64 REORDER_WINDOW_def)
  then show ?thesis by (simp add: sequence_report_def)
qed

lemma observe_gaps:
  assumes "0 < a" and "a \<le> b" and "b < 2 ^ 64" and "P a" and "P b" and "c = Suc b"
  shows "observe_all (decoder_new 1) (map of_nat (filter P [a..<c])) = window_of b (a - 1) {n \<in> {a..b}. P n} 0 0"
proof -
  let ?ns = "filter P [Suc a..<Suc b]"
  have "Max (set (a # ?ns)) = b" by (rule Max_eqI) (use assms(2,5) in auto)
  then have "fold max ?ns a = b" unfolding Max.set_eq_fold .
  moreover have "{a} \<union> set ?ns = {n \<in> {a..b}. P n}" using assms(2,4) by auto
  moreover have "filter P [a..<c] = a # ?ns" using assms(2,4,6) by (simp add: upt_conv_Cons [of a] del: upt_Suc)
  moreover have "\<forall>n \<in> set ?ns. a - 1 < n \<and> n < 2 ^ 64" using assms(3) by auto
  ultimately show ?thesis
    using observe_numbers [of ?ns "{a}" "a - 1" a 0 0] observe_first [of a] assms(1,2,3)
    by (simp del: upt_Suc)
qed

lemma observe_range:
  assumes "0 < a" and "a \<le> b" and "b < 2 ^ 64" and "c = Suc b"
  shows "observe_all (decoder_new 1) (map of_nat [a..<c]) = window_of b (a - 1) {a..b} 0 0"
proof -
  have "{n \<in> {a..b}. True} = {a..b}" by auto
  then show ?thesis using observe_gaps [OF assms(1-3), of "\<lambda>_. True" c] assms(4) by (simp add: filter_True del: upt_Suc)
qed

lemma fold_max_upt:
  assumes "h \<le> b" and "a \<le> b" and "c = Suc b"
  shows "fold max [a..<c] h = b"
  unfolding Max.set_eq_fold [symmetric] by (rule Max_eqI) (use assms in auto)

lemma first_high_sequence_establishes_baseline_passes: first_high_sequence_establishes_baseline
proof -
  have "observe_all (decoder_new 1) (map of_nat [10000..<10201]) = window_of 10200 (10000 - 1) {10000..10200} 0 0"
    by (rule observe_range) simp_all
  moreover have "{n \<in> {10000..10200}. 9999 < n \<and> n \<le> 10136} = {10000..10136 :: nat}" by auto
  ultimately show ?thesis
    unfolding first_high_sequence_establishes_baseline_def
    by (simp add: report_window_of)
qed

lemma finalized_window_reports_real_loss_once_passes: finalized_window_reports_real_loss_once
proof -
  let ?P = "\<lambda>q. q \<noteq> 20 \<and> q \<noteq> 100" 
  let ?N = "{n \<in> {1..200 :: nat}. ?P n}"
  have "observe_all (decoder_new 1) (map of_nat (filter ?P [1..<201])) = window_of 200 (1 - 1) ?N 0 0"
    by (rule observe_gaps) simp_all
  moreover have "{n \<in> ?N. 0 < n \<and> n \<le> 136} = {1..136} - {20, 100}" by auto
  ultimately show ?thesis
    unfolding finalized_window_reports_real_loss_once_def Let_def
    by (simp add: report_window_of report_too_early)
qed

lemma reorder_window_does_not_report_loss_passes: reorder_window_does_not_report_loss
proof -
  let ?ns = "concat (map (\<lambda>block. let base = block * 50 + 1 in rev [base + 1..<base + 51]) [0..<4 :: nat])"
  have upt: "[0..<4] = [0, 1, 2, 3 :: nat]" by (simp add: upt_rec)
  have "set ?ns = {2..201}"
    unfolding upt by (simp only: Let_def list.map concat.simps set_append set_rev set_upt list.set) auto
  moreover have "distinct ?ns"
    unfolding upt by (simp only: Let_def list.map concat.simps distinct_append distinct_rev distinct_upt set_append set_rev set_upt list.set) auto
  moreover have "fold max ?ns 1 = 201"
    unfolding Max.set_eq_fold [symmetric] by (rule Max_eqI) (use \<open>set ?ns = {2..201}\<close> in auto)
  moreover have "{1} \<union> {2..201} = {1..201 :: nat}" "{n \<in> {1..201}. 0 < n \<and> n \<le> 137} = {1..137 :: nat}" by auto
  ultimately show ?thesis
    using observe_numbers [of ?ns "{1}" 0 1 0 0] observe_first [of 1]
    unfolding reorder_window_does_not_report_loss_def Let_def [of "fst _"] by (simp add: report_window_of)
qed

lemma sequence_report_separates_late_and_duplicate_frames_from_gaps_passes: sequence_report_separates_late_and_duplicate_frames_from_gaps
proof -
  have first: "observe_all (decoder_new 1) (map of_nat [1..<201]) = window_of 200 (1 - 1) {1..200} 0 0"
    by (rule observe_range) simp_all
  have again: "observe_seq (window_of 200 0 {1..200} 0 0) 100 = (window_of 200 0 {1..200} 0 1, False)"
    using observe_window_of [of 100 200 0 0 0 "{1..200}"] by simp
  have sets1: "{n \<in> {1..200}. 0 < n \<and> n \<le> 136} = {1..136 :: nat}" "{n \<in> {1..200}. 136 < n} = {137..200 :: nat}" by auto
  have tardy: "observe_seq (window_of 200 136 {137..200} 0 0) 10 = (window_of 200 136 {137..200} 1 0, False)"
    using observe_window_of [of 10 200 136 0 0 "{137..200}"] by simp
  have "fold max [201..<337] 200 = (336 :: nat)" by (rule fold_max_upt) simp_all
  moreover have "observe_all (window_of 200 136 {137..200} 1 0) (map of_nat [201..<337]) =
      window_of (fold max [201..<337] 200) 136 ({137..200} \<union> set [201..<337]) 1 0"
    by (rule observe_numbers) auto
  moreover have "{137..200} \<union> set [201..<337] = {137..336 :: nat}" unfolding set_upt by auto
  ultimately have second: "observe_all (window_of 200 136 {137..200} 1 0) (map of_nat [201..<337]) = window_of 336 136 {137..336} 1 0"
    by (simp only:)
  have sets2: "{n \<in> {137..336}. 136 < n \<and> n \<le> 272} = {137..272 :: nat}" by auto
  show ?thesis
    unfolding sequence_report_separates_late_and_duplicate_frames_from_gaps_def Let_def first
    using again tardy second sets1 sets2 by (simp add: report_window_of)
qed

section \<open>Wire format, keyring and takeover\<close>

unbundle bit_operations_syntax

abbreviation text_of :: "string \<Rightarrow> utext" where
  "text_of s \<equiv> map of_char s"

definition plain_frame :: "u8 \<Rightarrow> u64 \<Rightarrow> u64 \<Rightarrow> u8 \<Rightarrow> u8 \<Rightarrow> bytes \<Rightarrow> frame" where
  "plain_frame knd seq grp n p pl = \<lparr>version = VERSION_V1, key_id = 0, kind = knd, session = 1, sequence = seq, group = grp,
     index = 0, data = n, parity = p, payload = pl\<rparr>"

definition frame_auth_roundtrip :: "crypto \<Rightarrow> bool" where
  "frame_auth_roundtrip c \<longleftrightarrow>
     (let k = key c (text_of ''test''); f = plain_frame KIND_DATA 2 3 10 2 (replicate SHARD 7) in
      case decode c (encode c f k) k of Inl _ \<Rightarrow> False | Inr d \<Rightarrow> sequence d = 2 \<and> payload d = payload f)"

definition frame_rejects_tamper :: "crypto \<Rightarrow> bool" where
  "frame_rejects_tamper c \<longleftrightarrow>
     (let k = key c (text_of ''test''); b = encode c (plain_frame KIND_REPORT 1 0 0 0 (replicate 4 0)) k in
      isl (decode c (b[20 := b ! 20 XOR 1]) k))"

text \<open>The table of V2 keys, in which the two assertions of the second test differ, is not read by \<open>decode_server_frame\<close> any more.\<close>

definition v2_frame_is_rejected_after_removal :: "crypto \<Rightarrow> bool" where
  "v2_frame_is_rejected_after_removal c \<longleftrightarrow>
     (let k = key c (text_of ''device-secret-long-enough''); f = snd (report_frame (with_identity 77 VERSION_V2 42 None) 1234) in
      isl (decode_server_frame c (encode c f k) []))"

definition v2_frame_rejects_unknown_or_wrong_device_key :: "crypto \<Rightarrow> bool" where
  "v2_frame_rejects_unknown_or_wrong_device_key c \<longleftrightarrow>
     (let f = snd (report_frame (with_identity 77 VERSION_V2 42 None) 0) in
      isl (decode_server_frame c (encode c f (key c (text_of ''correct-device-secret''))) []))"

definition v3_envelope_hides_header_and_authenticates :: "crypto \<Rightarrow> bytes \<Rightarrow> bytes \<Rightarrow> bool" where
  "v3_envelope_hides_header_and_authenticates c nonce suffix \<longleftrightarrow>
     (let k = key c (text_of ''v3-device-secret-at-least-32-bytes'');
          f = snd (report_frame (with_identity 91 VERSION_V3 7 None) 9876);
          sel = [(v3_selector_prefix c 7, (7, k))] in
      case encode_wire c f k nonce suffix of
        Inl _ \<Rightarrow> False
      | Inr bytes \<Rightarrow>
          \<not> starts_with bytes (be_bytes 4 MAGIC) \<and>
          \<not> list_ex (\<lambda>i. take 4 (drop i bytes) = be_bytes 4 MAGIC) [0..<length bytes - 3] \<and>
          (case decode_server_frame c bytes sel of
             Inl _ \<Rightarrow> False
           | Inr (d, _) \<Rightarrow> version d = VERSION_V3 \<and> key_id d = 7 \<and> session d = 91) \<and>
          isl (decode_server_frame c (butlast bytes @ [last bytes XOR 1]) sel))"

definition new_device_session_replaces_old_but_late_old_frames_cannot_take_over :: bool where
  "new_device_session_replaces_old_but_late_old_frames_cannot_take_over \<longleftrightarrow>
     (let sessions = [((7, 100), ())] in
      superseded_sessions sessions 7 200 1 = Some [(7, 100)] \<and>
      superseded_sessions sessions 7 200 (SESSION_TAKEOVER_MAX_SEQUENCE + 1) = None \<and>
      superseded_sessions sessions 8 300 500 = Some [])"

definition keyring_rejects_reserved_duplicate_and_short_entries :: "crypto \<Rightarrow> bool" where
  "keyring_rejects_reserved_duplicate_and_short_entries c \<longleftrightarrow>
     isl (parse_keyring c (text_of ''0 a-very-long-secret'')) \<and>
     isl (parse_keyring c (text_of ''1 too-short'')) \<and>
     isl (parse_keyring c (text_of (''1 first-secret-long'' @ [CHR 0x0A] @ ''1 second-secret-long''))) \<and>
     (case parse_keyring c (text_of (''# device keys'' @ [CHR 0x0A] @ ''1 first-device-secret-at-least-32-bytes'' @
           [CHR 0x0A] @ ''2 second-device-secret-at-least-32-bytes'')) of
        Inl _ \<Rightarrow> False
      | Inr parsed \<Rightarrow> length parsed = 2)"

lemma frame_auth_roundtrip_passes: "hash_ok c \<Longrightarrow> frame_auth_roundtrip c"
  by (simp add: frame_auth_roundtrip_def plain_frame_def decode_encode_v1 SHARD_def Let_def)

lemma legacy_rejected: "version f = VERSION_V2 \<Longrightarrow> isl (decode_server_frame c (encode c f k) sel)"
  by (simp add: decode_server_frame_def encode_def encode_body_def starts_with_def be_bytes_4 Let_def)

lemma v2_frame_tests_pass: "v2_frame_is_rejected_after_removal c" "v2_frame_rejects_unknown_or_wrong_device_key c"
  by (simp_all add: v2_frame_is_rejected_after_removal_def v2_frame_rejects_unknown_or_wrong_device_key_def legacy_rejected
      report_frame_def with_identity_def Let_def)

lemma new_device_session_replaces_old_but_late_old_frames_cannot_take_over_passes:
  new_device_session_replaces_old_but_late_old_frames_cannot_take_over
  by (simp add: new_device_session_replaces_old_but_late_old_frames_cannot_take_over_def superseded_sessions_def SESSION_TAKEOVER_MAX_SEQUENCE_def)

lemma keyring_rejects_reserved_duplicate_and_short_entries_passes: "keyring_rejects_reserved_duplicate_and_short_entries c"
  by (simp add: keyring_rejects_reserved_duplicate_and_short_entries_def parse_keyring_def strip_cr_def keyring_line_def trim_def white_space_def
      split_whitespace_def parse_u64_def dec_value_def utf8_bytes_def utf8_def Let_def MAX_DEVICE_KEYS_def)

lemma tag_checked:
  assumes "length tag = TAG" and "take TAG (keyed_hash c k body) \<noteq> tag" and "length body = HEADER + n" and "body ! 4 = VERSION_V1"
  shows "isl (decode c (body @ tag) k)"
  using assms by (simp add: decode_def index_at_def slice_def nth_append HEADER_def TAG_def VERSION_V1_def Let_def)

lemma tampered_frame_rejected:
  assumes "hash_ok c"
    and "\<And>k body. 20 < length body \<Longrightarrow> take TAG (keyed_hash c k (body[20 := body ! 20 XOR 1])) \<noteq> take TAG (keyed_hash c k body)"
  shows "frame_rejects_tamper c"
proof -
  let ?k = "key c (text_of ''test'')" and ?body = "encode_body (plain_frame KIND_REPORT 1 0 0 0 (replicate 4 0))"
  let ?body' = "?body[20 := ?body ! 20 XOR 1]" and ?tag = "take TAG (keyed_hash c (key c (text_of ''test'')) (encode_body (plain_frame KIND_REPORT 1 0 0 0 (replicate 4 0))))"
  have len: "length ?body = HEADER + 4" "?body ! 4 = VERSION_V1"
    by (simp_all add: length_encode_body plain_frame_def VERSION_V2_def VERSION_V1_def encode_body_def be_bytes_4 nth_append HEADER_def)
  have "isl (decode c (?body' @ ?tag) ?k)"
    using assms len by (intro tag_checked) (simp_all add: hash_ok_def TAG_def HEADER_def)
  then show ?thesis
    using len(1) by (simp add: frame_rejects_tamper_def encode_def Let_def list_update_append nth_append HEADER_def)
qed

lemma sum_crypto_parts: "seal sum_crypto = (\<lambda>k n m. Some (m @ replicate 16 (sum_list k + sum_list n + sum_list m)))"
 "plain_hash sum_crypto = (\<lambda>m. replicate 32 (sum_list m))"
 by (simp_all add: sum_crypto_def)

lemma test_key: "key sum_crypto (text_of ''v3-device-secret-at-least-32-bytes'') = replicate 32 39"
  by (simp add: key_def sum_crypto_parts utf8_bytes_def utf8_def)

lemma test_bytes: "be_bytes 8 (91 :: u64) = [0, 0, 0, 0, 0, 0, 0, 91]" "be_bytes 8 (7 :: u64) = [0, 0, 0, 0, 0, 0, 0, 7]"
  "be_bytes 8 (1 :: u64) = [0, 0, 0, 0, 0, 0, 0, 1]" "be_bytes 8 (0 :: u64) = [0, 0, 0, 0, 0, 0, 0, 0]"
  "be_bytes 2 (0 :: u16) = [0, 0]" "be_bytes 2 (4 :: u16) = [0, 4]" "be_bytes 4 (9876 :: u32) = [0, 0, 38, 148]"
  by (simp_all add: be_bytes_def upt_rec)

definition test_report :: frame where
  "test_report = snd (report_frame (with_identity 91 VERSION_V3 7 None) 9876)"

lemma test_inner: "v3_inner test_report = [3, 0, 0, 0, 0, 0, 0, 0, 91, 0, 0, 0, 0, 0, 0, 0, 1, 0, 0, 0, 0, 0, 0, 0, 0, 0, 0, 0, 0, 0, 4, 0, 0, 38, 148]"
  by (simp add: test_report_def v3_inner_def report_frame_def with_identity_def test_bytes KIND_REPORT_def)

lemma test_selector: "v3_selector_prefix sum_crypto 7 = replicate 4 237"
  by (simp add: v3_selector_prefix_def sum_crypto_parts test_bytes V3_SELECTOR_PREFIX_def)

lemma test_env: "encode_wire sum_crypto test_report (replicate 32 39) (replicate 24 5) (replicate 4 6) =
   Inr (replicate 4 237 @ replicate 4 6 @ replicate 24 5 @ v3_inner test_report @ replicate 16 117)"
  by (simp add: encode_wire_def sum_crypto_parts test_inner sum_list_replicate) (simp add: test_report_def report_frame_def with_identity_def test_selector)

lemma sum_list_replace:
  fixes xs :: bytes
  shows "i < length xs \<Longrightarrow> sum_list (xs[i := v]) = sum_list xs - xs ! i + v"
  by (induction xs arbitrary: i) (auto split: nat.split)

lemma sum_crypto_tamper:
  assumes "20 < length body"
  shows "take TAG (keyed_hash sum_crypto k (body[20 := body ! 20 XOR 1])) \<noteq> take TAG (keyed_hash sum_crypto k body)"
proof -
  have "sum_list (body[20 := body ! 20 XOR 1]) \<noteq> sum_list body"
    using xor_one_neq [of "body ! 20"] sum_list_replace [OF assms] by simp
  then show ?thesis by (simp add: sum_crypto_def TAG_def)
qed

lemma unsealed:
  assumes "decode_server_frame c buf [(pre, (kid, k))] = Inr x"
  shows "unseal c k (take 24 (drop 8 buf)) (drop 32 buf) \<noteq> None"
proof -
  obtain f where "decode_v3 c buf kid k = Inr f"
    using assms by (auto simp: decode_server_frame_def rbind_eq_Inr_iff split: if_splits option.splits)
  from decode_v3_okD [OF this] show ?thesis by auto
qed

lemma frame_rejects_tamper_passes: "frame_rejects_tamper sum_crypto"
  by (rule tampered_frame_rejected [OF hash_ok_sum_crypto sum_crypto_tamper])

definition test_envelope :: bytes where
  "test_envelope = replicate 4 237 @ replicate 4 6 @ replicate 24 5 @ v3_inner test_report @ replicate 15 117"

lemma no_magic: "83 \<notin> set (test_envelope @ [117])"
  by (simp add: test_envelope_def test_inner)

lemma window_first: "take 4 (drop i bs) = be_bytes 4 MAGIC \<Longrightarrow> 83 \<in> set bs"
  using in_set_takeD [of 83 4 "drop i bs"] in_set_dropD [of 83 i bs] by (simp add: be_bytes_4 MAGIC_def)

lemma v3_envelope_hides_header_and_authenticates_passes: "v3_envelope_hides_header_and_authenticates sum_crypto (replicate 24 5) (replicate 4 6)"
proof -
  let ?k = "replicate 32 39 :: bytes" 
  let ?sel = "[(v3_selector_prefix sum_crypto 7, (7 :: u64, ?k))]"
  have "replicate 16 117 = replicate 15 117 @ [117 :: u8]" by (simp add: eval_nat_numeral)
  then have env: "encode_wire sum_crypto test_report ?k (replicate 24 5) (replicate 4 6) = Inr (test_envelope @ [117])"
    using test_env by (simp add: test_envelope_def)
  have f: "version test_report = VERSION_V3" "key_id test_report = 7" "session test_report = 91" "length (payload test_report) = 4"
    by (simp_all add: test_report_def report_frame_def with_identity_def)
  have "decode_server_frame sum_crypto (test_envelope @ [117]) ?sel = Inr (test_report, ?k)"
    using wire_accepted [OF hash_ok_sum_crypto aead_ok_sum_crypto f(1), of "replicate 24 5" "replicate 4 6" ?sel ?k] env f
      sample_selector_not_magic by (simp add: V3_NONCE_def V3_SELECTOR_PREFIX_def)
  moreover have "isl (decode_server_frame sum_crypto (test_envelope @ [117 XOR 1]) ?sel)"
  proof (rule ccontr)
    assume "\<not> isl (decode_server_frame sum_crypto (test_envelope @ [117 XOR 1]) ?sel)"
    then obtain x where "decode_server_frame sum_crypto (test_envelope @ [117 XOR 1]) ?sel = Inr x"
      by (cases "decode_server_frame sum_crypto (test_envelope @ [117 XOR 1]) ?sel") simp_all
    from unsealed [OF this] show False
      by (simp add: test_envelope_def test_inner sum_crypto_def replicate_numeral)
  qed
  moreover have "\<not> list_ex (\<lambda>i. take 4 (drop i (test_envelope @ [117])) = be_bytes 4 MAGIC) ixs" for ixs
    using window_first [of _ "test_envelope @ [117]"] no_magic by (auto simp: list_ex_iff)
  moreover have "\<not> starts_with (test_envelope @ [117]) (be_bytes 4 MAGIC)"
    using window_first [of 0 "test_envelope @ [117]"] no_magic by (auto simp: starts_with_def)
  ultimately show ?thesis
    unfolding v3_envelope_hides_header_and_authenticates_def Let_def test_key test_report_def [symmetric] env
    using f by simp
qed

end
