(* ===== verification/Tests_Fec.thy ===== *)
theory Tests_Fec
  imports Tunnel_Properties
begin

text \<open>
  The unit tests of \<open>main.rs\<close> that send datagrams through an encoder and a decoder, replayed on the model.
  They pass for every erasure code that meets the contract, at all times within the lifetime of a group.
\<close>

section \<open>The tests\<close>

text \<open>\<open>Encoder::new\<close>, which exists for the tests only, and an assignment to \<open>adaptive.parity\<close>; no level is forced.\<close>

definition encoder_new :: "u64 \<Rightarrow> encoder" where
  "encoder_new ses = with_identity ses VERSION_V1 0 None"

definition with_parity :: "encoder \<Rightarrow> nat \<Rightarrow> encoder" where
  "with_parity e p = e\<lparr>en_adaptive := (en_adaptive e)\<lparr>ad_parity := p\<rparr>\<rparr>"

definition flushed :: "rs_code \<Rightarrow> encoder \<Rightarrow> bytes \<Rightarrow> frame list result" where
  "flushed rs e pl = rbind (snd (encode_datagram rs e pl)) (\<lambda>_. snd (flush rs (fst (encode_datagram rs e pl))))"

definition duplicate_authenticated_frame_is_not_delivered_twice :: "rs_code \<Rightarrow> (nat \<Rightarrow> instant) \<Rightarrow> (nat \<Rightarrow> instant) \<Rightarrow> bool" where
  "duplicate_authenticated_frame_is_not_delivered_twice rs now now' \<longleftrightarrow>
     (case flushed rs (with_parity (with_identity 7 VERSION_V2 3 None) 0) (map of_char ''payload'') of
        Inr (f # _) \<Rightarrow>
          (case decoder_frame rs now (decoder_new 7) f of
             (d, r) \<Rightarrow> r = Inr [map of_char ''payload''] \<and> snd (decoder_frame rs now' d f) = Inr [])
      | _ \<Rightarrow> False)"

definition sessions_keep_independent_decoder_state :: "rs_code \<Rightarrow> (nat \<Rightarrow> instant) \<Rightarrow> bool" where
  "sessions_keep_independent_decoder_state rs now \<longleftrightarrow>
     (case (flushed rs (with_parity (with_identity 10 VERSION_V2 1 None) 0) (map of_char ''first''),
            flushed rs (with_parity (with_identity 20 VERSION_V2 2 None) 0) (map of_char ''second'')) of
        (Inr (f # _), Inr (s # _)) \<Rightarrow>
          snd (decoder_frame rs now (decoder_new 10) f) = Inr [map of_char ''first''] \<and>
          snd (decoder_frame rs now (decoder_new 20) s) = Inr [map of_char ''second'']
      | _ \<Rightarrow> False)"

definition outputs :: "bytes list result list \<Rightarrow> bytes list option" where
  "outputs rs = (if list_ex isl rs then None else Some (concat (map projr rs)))"

definition empty_datagram_roundtrip :: "rs_code \<Rightarrow> (nat \<Rightarrow> instant) \<Rightarrow> bool" where
  "empty_datagram_roundtrip rs now \<longleftrightarrow>
     snd (encode_datagram rs (with_parity (encoder_new 7) 0) []) = Inr [] \<and>
     (case flushed rs (with_parity (encoder_new 7) 0) [] of
        Inr frames \<Rightarrow> outputs (snd (decoder_run rs (decoder_new 7) (map (\<lambda>f. (now, f)) frames))) = Some [[]]
      | Inl _ \<Rightarrow> False)"

fun encode_each :: "rs_code \<Rightarrow> encoder \<Rightarrow> bytes list \<Rightarrow> frame list result" where
  "encode_each rs e [] = Inr []"
| "encode_each rs e (pl # pls) =
     (case encode_datagram rs e pl of
        (e1, Inl err) \<Rightarrow> Inl err
      | (e1, Inr fs) \<Rightarrow> rbind (encode_each rs e1 pls) (\<lambda>fs'. Inr (fs @ fs')))"

definition fec_recovers_missing_shard :: "rs_code \<Rightarrow> (nat \<Rightarrow> instant) \<Rightarrow> bool" where
  "fec_recovers_missing_shard rs now \<longleftrightarrow>
     (case encode_each rs (with_parity (encoder_new 9) 2) (map (\<lambda>i. replicate 20 (of_nat i)) [0..<10]) of
        Inl _ \<Rightarrow> False
      | Inr fs \<Rightarrow>
          (case outputs (snd (decoder_run rs (decoder_new 9)
               (map (\<lambda>f. (now, f)) (filter (\<lambda>f. \<not> (kind f = KIND_DATA \<and> index f = 4)) fs)))) of
             None \<Rightarrow> False
           | Some output \<Rightarrow> length output = 10 \<and> replicate 20 4 \<in> set output))"

section \<open>They pass\<close>

definition parity_encoder :: "u64 \<Rightarrow> u8 \<Rightarrow> u64 \<Rightarrow> nat \<Rightarrow> encoder" where
  "parity_encoder ses ver kid p = with_parity (with_identity ses ver kid None) p"

lemma test_encoders: "with_parity (encoder_new ses) p = parity_encoder ses VERSION_V1 0 p"
  "with_parity (with_identity ses ver kid None) p = parity_encoder ses ver kid p"
  by (simp_all add: parity_encoder_def encoder_new_def)

lemma encode_single:
  fixes e :: encoder
  assumes "length pl \<le> CHUNK"
  defines "e1 \<equiv> e\<lparr>en_packet := en_packet e + 1, en_shards := en_shards e @ [make_shard (en_packet e) 0 1 pl]\<rparr>"
  shows "encode_datagram rs e pl = (if length (en_shards e1) = DATA_SHARDS then flush rs e1 else (e1, Inr []))"
proof -
  have "(if pl = [] then [[]] else chunks CHUNK pl) = [pl]"
    using assms(1) by (auto simp: chunks_single shard_consts)
  moreover have "div_ceil (max (length pl) 1) CHUNK = 1"
    using assms(1) by (cases "max (length pl) 1 = CHUNK") (auto simp: div_ceil_def shard_consts max_def)
  ultimately show ?thesis
    by (auto simp: encode_datagram_def Let_def e1_def split: prod.split sum.split)
qed

lemma first_frame:
  "sequence f = 1 \<Longrightarrow> session f = s \<Longrightarrow>
     decoder_frame rs now (decoder_new s) f = decoder_frame rs now ((decoder_new s)\<lparr>highest_sequence := 1\<rparr>) f"
  by (simp add: decoder_frame_cases decoder_new_def observe_fresh observe_started fresh_window_def sat_sub_def)

lemma outputs_ok: "outputs (map Inr outs) = Some (concat outs)"
  by (simp add: outputs_def list_ex_iff comp_def)

lemma fresh_decoder_delivers:
  assumes "encoder_inv e" and "en_shards e = []" and "rs_supports rs (parity_level e)" and "rs_shape rs"
    and "\<forall>pl \<in> set pls. length pl \<le> 65535" and "encode_run rs e pls = (e', Inr fs)"
    and "length fs \<le> MAX_GROUPS" and "en_session e = s"
    and seq: "\<forall>f \<in> set fs. sequence f \<noteq> 0 \<and> session f = s" and f: "sequence f = 1"
    and xs: "distinct (f # ys)" "set (f # ys) \<subseteq> set fs" and now: "\<forall>k. now k < GROUP_TTL"
    and rcv: "\<forall>f' \<in> set fs. unat (data f') \<le> length (filter (\<lambda>h. group h = group f') (f # ys))"
  shows "\<exists>d' outs. decoder_run rs (decoder_new s) (map (Pair now) (f # ys)) = (d', map Inr outs) \<and> mset (concat outs) = mset pls"
proof -
  let ?d = "(decoder_new s)\<lparr>highest_sequence := 1\<rparr>"
  have "\<exists>d' outs. decoder_run rs ?d (map (Pair now) (f # ys)) = (d', map Inr outs) \<and> mset (concat outs) = mset pls"
  proof (rule fec_delivers [OF assms(1-7), where ?t0.0 = 0])
    show "\<forall>f \<in> set fs. sequence f \<notin> spent_sequences ?d"
      using seq by (auto simp: spent_sequences_def decoder_new_def)
  qed (use assms(8) xs now rcv in \<open>auto simp: decoder_new_def fresh_window_def comp_def\<close>)
  moreover have "session f = s" using seq xs(2) by auto
  ultimately show ?thesis using f by (simp add: first_frame [where s = s] del: )
qed

lemma parity_encoder_inv:
  "p \<le> MAX_PARITY \<Longrightarrow> encoder_inv (parity_encoder ses ver kid p)" "parity_level (parity_encoder ses ver kid p) = p"
  "en_shards (parity_encoder ses ver kid p) = []" "en_session (parity_encoder ses ver kid p) = ses"
  by (simp_all add: parity_encoder_def with_parity_def encoder_inv_def encoder_params_ok_def with_identity_def parity_level_def adaptive_inv_def
      adaptive_default_def DATA_SHARDS_def)

lemma single_flushed:
  assumes "length pl \<le> CHUNK"
  shows "flushed rs (parity_encoder ses ver kid 0) pl = Inr [shard_frame (parity_encoder ses ver kid 0) KIND_DATA 1 0 0 (make_shard 1 0 1 pl)]"
  using assms
  by (simp add: flushed_def encode_single parity_encoder_def with_parity_def with_identity_def DATA_SHARDS_def flush_def flush_parity_def
     adaptive_default_def div_ceil_def Let_def shard_frame_def)

lemma single_delivered:
  assumes "rs_shape rs" and "length pl \<le> CHUNK" and "\<forall>k. now k < GROUP_TTL"
  shows "snd (decoder_frame rs now (decoder_new ses)
     (shard_frame (parity_encoder ses ver kid 0) KIND_DATA 1 0 0 (make_shard 1 0 1 pl))) = Inr [pl]"
proof -
  let ?e = "parity_encoder ses ver kid 0"
  let ?f = "shard_frame ?e KIND_DATA 1 0 0 (make_shard 1 0 1 pl)"
  have "encode_run rs ?e [pl] = (fst (flush rs (fst (encode_datagram rs ?e pl))), Inr [?f])"
    using single_flushed [OF assms(2), of rs ses ver kid] encode_single [OF assms(2), where rs = rs and e = ?e]
    by (simp add: flushed_def parity_encoder_inv DATA_SHARDS_def case_prod_beta split: sum.splits)
  moreover have "sequence ?f = 1" "session ?f = ses" "unat (data ?f) = 1"
    by (simp_all add: shard_frame_def parity_encoder_def with_parity_def with_identity_def)
  ultimately obtain d outs where "decoder_run rs (decoder_new ses) (map (Pair now) [?f]) = (d, map Inr outs)"
    "mset (concat outs) = mset [pl]"
    using fresh_decoder_delivers [of ?e rs "[pl]" _ "[?f]" ses ?f "[]" now] assms parity_encoder_inv [where p = 0]
    by (auto simp: rs_supports_def MAX_GROUPS_def shard_consts)
  then show ?thesis by (auto simp: Let_def case_prod_beta)
qed

lemma repeated_frame:
  assumes "session f = s" and "sequence f \<noteq> 0"
  shows "snd (decoder_frame rs now' (fst (decoder_frame rs now (decoder_new s) f)) f) = Inr []"
proof -
  let ?d = "decoder_new s" and ?d1 = "fst (decoder_frame rs now (decoder_new s) f)"
  have new: "d_session ?d = session f" "fresh_window ?d" using assms(1) by (simp_all add: decoder_new_def fresh_window_def)
  have "same_window (fst (observe_seq ?d (sequence f))) ?d1" by (rule decoder_frame_window [OF new(1)])
  then have "sequence f \<in> seen_sequences ?d1" "d_session ?d1 = s"
    using assms(2) new by (simp_all add: same_window_def observe_fresh decoder_new_def)
  moreover from this have "\<not> snd (observe_seq ?d1 (sequence f))"
    by (subst observe_accepts_iff) (auto simp: fresh_window_def spent_sequences_def)
  ultimately show ?thesis using assms(1) by (simp add: decoder_frame_cases Let_def)
qed

lemmas parity_frame_simps = shard_frame_def parity_encoder_def with_parity_def with_identity_def

lemma duplicate_authenticated_frame_is_not_delivered_twice_passes:
  assumes "rs_shape rs" and "\<forall>k. now k < GROUP_TTL"
  shows "duplicate_authenticated_frame_is_not_delivered_twice rs now now'"
  using single_delivered [OF assms(1) _ assms(2)]
  unfolding duplicate_authenticated_frame_is_not_delivered_twice_def test_encoders
  by (simp add: single_flushed shard_consts case_prod_beta) (simp add: repeated_frame parity_frame_simps)

lemma sessions_keep_independent_decoder_state_passes:
  assumes "rs_shape rs" and "\<forall>k. now k < GROUP_TTL"
  shows "sessions_keep_independent_decoder_state rs now"
  using single_delivered [OF assms(1) _ assms(2)]
  by (simp add: sessions_keep_independent_decoder_state_def test_encoders single_flushed shard_consts)

lemma empty_datagram_roundtrip_passes:
  assumes "rs_shape rs" and "\<forall>k. now k < GROUP_TTL"
  shows "empty_datagram_roundtrip rs now"
  using single_delivered [OF assms(1) _ assms(2), of "[]"] encode_single [of "[]" rs "parity_encoder 7 VERSION_V1 0 0"]
  by (simp add: empty_datagram_roundtrip_def test_encoders single_flushed shard_consts Let_def case_prod_beta parity_encoder_inv outputs_def)

lemma encode_room:
  assumes "\<forall>pl \<in> set pls. length pl \<le> CHUNK" and "length (en_shards e) + length pls < DATA_SHARDS"
    and "\<forall>s \<in> set (en_shards e). proper_shard s"
  shows "\<exists>pid ss. length ss = length (en_shards e) + length pls \<and> (\<forall>s \<in> set ss. proper_shard s) \<and>
     encode_run rs e (pls @ qs) = encode_run rs (e\<lparr>en_packet := pid, en_shards := ss\<rparr>) qs \<and>
     encode_each rs e (pls @ qs) = encode_each rs (e\<lparr>en_packet := pid, en_shards := ss\<rparr>) qs"
  using assms
proof (induction pls arbitrary: e)
  case Nil
  then show ?case by (intro exI [of _ "en_packet e"] exI [of _ "en_shards e"]) simp
next
  case (Cons pl pls)
  let ?e1 = "e\<lparr>en_packet := en_packet e + 1, en_shards := en_shards e @ [make_shard (en_packet e) 0 1 pl]\<rparr>"
  have pl: "length pl \<le> CHUNK" using Cons.prems(1) by simp
  then have "encode_datagram rs e pl = (?e1, Inr [])" using Cons.prems(2) by (simp add: encode_single)
  moreover have "rbind x Inr = x" for x :: "frame list result" by (cases x) simp_all
  ultimately have "encode_run rs e ((pl # pls) @ qs) = encode_run rs ?e1 (pls @ qs)"
    "encode_each rs e ((pl # pls) @ qs) = encode_each rs ?e1 (pls @ qs)"
    by (auto split: prod.split sum.split)
  moreover have "\<forall>s \<in> set (en_shards ?e1). proper_shard s" using Cons.prems(3) pl by (auto simp: proper_shard_def)
  ultimately show ?case using Cons.IH [of ?e1] Cons.prems by simp
qed

lemma encode_group:
  assumes "length pls = DATA_SHARDS" and "\<forall>pl \<in> set pls. length pl \<le> CHUNK" and "en_shards e = []"
    and "encoder_params_ok e" and "rs_supports rs (parity_level e)"
  shows "\<exists>pid ss cw. length ss = DATA_SHARDS \<and>
     encode_run rs e pls = (next_group (e\<lparr>en_packet := pid, en_shards := ss\<rparr>), Inr (group_frames (e\<lparr>en_packet := pid, en_shards := ss\<rparr>) cw)) \<and>
     encode_each rs e pls = Inr (group_frames (e\<lparr>en_packet := pid, en_shards := ss\<rparr>) cw)"
proof -
  obtain ps q where pls: "pls = ps @ [q]" "length ps = 9"
    using assms(1) by (cases pls rule: rev_cases) (auto simp: DATA_SHARDS_def)
  obtain pid ss where ss: "length ss = 9" "\<forall>s \<in> set ss. proper_shard s"
    "encode_run rs e pls = encode_run rs (e\<lparr>en_packet := pid, en_shards := ss\<rparr>) [q]"
    "encode_each rs e pls = encode_each rs (e\<lparr>en_packet := pid, en_shards := ss\<rparr>) [q]"
    using encode_room [of ps e rs "[q]"] assms pls by (auto simp: DATA_SHARDS_def)
  let ?E = "e\<lparr>en_packet := pid + 1, en_shards := ss @ [make_shard pid 0 1 q]\<rparr>"
  have q: "length q \<le> CHUNK" using assms(2) pls by simp
  have par: "flush_parity ?E 10 = min (parity_level e) 10"
    using flush_parity_eq [of ?E 10] assms(4) by (simp add: encoder_params_ok_def DATA_SHARDS_def)
  obtain cw where "flush rs ?E = (next_group ?E, Inr (group_frames ?E cw))"
  proof (rule flush_spec [of ?E rs])
    show "\<forall>s \<in> set (en_shards ?E). proper_shard s" using ss(2) q by (auto simp: proper_shard_def)
    show "rs_ok rs (length (en_shards ?E)) (flush_parity ?E (length (en_shards ?E)))"
      if "0 < flush_parity ?E (length (en_shards ?E))"
      using that assms(5) ss(1) par by (simp add: rs_supports_def DATA_SHARDS_def)
  qed simp_all
  moreover have "en_shards (next_group ?E) = []" by (simp add: next_group_def)
  ultimately show ?thesis
    using ss encode_single [OF q, where rs = rs and e = "e\<lparr>en_packet := pid, en_shards := ss\<rparr>"]
    by (intro exI [of _ "pid + 1"] exI [of _ "ss @ [make_shard pid 0 1 q]"] exI [of _ cw]) (auto simp: DATA_SHARDS_def flush_empty)
qed

lemma without_fourth:
  fixes F :: "nat \<Rightarrow> frame"
  assumes "\<And>i. index (F i) = of_nat i" and "\<And>i. kind (F i) = (if i < 10 then KIND_DATA else KIND_PARITY)"
  shows "filter (\<lambda>f. \<not> (kind f = KIND_DATA \<and> index f = 4)) (map F [0..<12]) = F 0 # map F [1, 2, 3, 5, 6, 7, 8, 9, 10, 11]"
    and "distinct (F 0 # map F [1, 2, 3, 5, 6, 7, 8, 9, 10, 11])"
proof -
  let ?P = "\<lambda>f. \<not> (kind f = KIND_DATA \<and> index f = 4)"
  have "?P (F i) \<longleftrightarrow> i \<noteq> 4" if "i < 12" for i
    using that by (auto simp: assms word_unat_eq_iff unat_of_nat_small)
  then have "filter ?P (map F [0..<12]) = map F (filter (\<lambda>i. i \<noteq> 4) [0..<12])"
    unfolding filter_map comp_def by (intro arg_cong [where f = "map F"] filter_cong) auto
  also have "filter (\<lambda>i. i \<noteq> 4) [0..<12] = [0, 1, 2, 3, 5, 6, 7, 8, 9, 10, 11 :: nat]" by (simp add: upt_rec)
  finally show "filter ?P (map F [0..<12]) = F 0 # map F [1, 2, 3, 5, 6, 7, 8, 9, 10, 11]" by (simp only: list.map)
  have "distinct (map index (F 0 # map F [1, 2, 3, 5, 6, 7, 8, 9, 10, 11]))" by (simp add: assms(1))
  then show "distinct (F 0 # map F [1, 2, 3, 5, 6, 7, 8, 9, 10, 11])" unfolding distinct_map by (rule conjunct1)
qed

lemma fec_recovers_missing_shard_passes:
  assumes "rs_shape rs" and "rs_supports rs 2" and "\<forall>k. now k < GROUP_TTL"
  shows "fec_recovers_missing_shard rs now"
proof -
  let ?e = "parity_encoder 9 VERSION_V1 0 2" and ?pls = "map (\<lambda>i. replicate 20 (of_nat i)) [0..<10] :: bytes list"
  let ?P = "\<lambda>f. \<not> (kind f = KIND_DATA \<and> index f = 4)"
  note inv = parity_encoder_inv [where p = 2 and ses = 9 and ver = VERSION_V1 and kid = 0]
  obtain pid ss cw E where E: "E = ?e\<lparr>en_packet := pid, en_shards := ss\<rparr>" "length ss = 10"
    and run: "encode_run rs ?e ?pls = (next_group E, Inr (group_frames E cw))" "encode_each rs ?e ?pls = Inr (group_frames E cw)"
    using encode_group [of ?pls ?e rs] inv assms(2) by (auto simp: shard_consts encoder_inv_def MAX_PARITY_def)
  define F where "F = (\<lambda>i. shard_frame E (if i < 10 then KIND_DATA else KIND_PARITY) 10 2 i (cw ! i))"
  have "flush_parity E 10 = 2"
    using flush_parity_eq [of E 10] inv by (simp add: E encoder_inv_def encoder_params_ok_def DATA_SHARDS_def MAX_PARITY_def)
  then have fs: "group_frames E cw = map F [0..<12]" using E by (simp add: group_frames_def F_def)
  have fields: "sequence (F i) = of_nat (Suc i)" "session (F i) = 9" "unat (data (F i)) = 10" "group (F i) = 1" for i
    by (simp_all add: E F_def parity_frame_simps)
  have nz: "sequence (F i) \<noteq> 0" if "i < 12" for i
  proof
    assume "sequence (F i) = 0"
    then have "unat (of_nat (Suc i) :: u64) = 0" unfolding fields by simp
    then show False using unat_of_nat_small [of "Suc i", where 'a = 64] that by simp
  qed
  note left = without_fourth [of F]
  have F: "index (F i) = of_nat i" "kind (F i) = (if i < 10 then KIND_DATA else KIND_PARITY)" for i
    by (simp_all add: F_def shard_frame_def)
  have "\<exists>d' outs. decoder_run rs (decoder_new 9) (map (Pair now) (filter ?P (map F [0..<12]))) = (d', map Inr outs) \<and>
      mset (concat outs) = mset ?pls"
    unfolding left(1) [OF F]
  proof (rule fresh_decoder_delivers [OF _ _ _ assms(1) _ run(1)])
    show "set (F 0 # map F [1, 2, 3, 5, 6, 7, 8, 9, 10, 11]) \<subseteq> set (group_frames E cw)" by (auto simp: fs)
    show "distinct (F 0 # map F [1, 2, 3, 5, 6, 7, 8, 9, 10, 11])" by (rule left(2) [OF F])
    show "\<forall>f \<in> set (group_frames E cw). sequence f \<noteq> 0 \<and> session f = 9" using nz by (auto simp: fs fields(2))
  qed (use inv assms in \<open>auto simp: fs fields MAX_PARITY_def MAX_GROUPS_def\<close>)
  then obtain d' outs where out: "decoder_run rs (decoder_new 9) (map (Pair now) (filter ?P (group_frames E cw))) = (d', map Inr outs)"
    "mset (concat outs) = mset ?pls" unfolding fs by blast
  have "length (concat outs) = 10" using mset_eq_length [OF out(2)] by simp
  moreover have "replicate 20 4 \<in> set (concat outs)"
    unfolding mset_eq_setD [OF out(2)] by (auto intro: image_eqI [of _ _ 4])
  ultimately show ?thesis
    using run(2) out(1) by (simp add: fec_recovers_missing_shard_def test_encoders outputs_ok del: set_concat length_concat)
qed

end
