(* ===== verification/Tests_Relay.thy ===== *)
theory Tests_Relay
  imports Quic_Auth Quic_Carrier
begin

text \<open>
  The unit tests of \<open>quic_auth.rs\<close> and \<open>quic_relay.rs\<close>, replayed on the model.
\<close>

unbundle bit_operations_syntax

section \<open>Authentication\<close>

definition SECRET :: bytes where "SECRET = map of_char ''test-device-secret''"
definition BINDING :: bytes where "BINDING = replicate 32 7"

definition with_cache :: "nat \<Rightarrow> (replay_cache \<Rightarrow> bool) \<Rightarrow> bool" where
  "with_cache n P = (case replay_cache_new n of Inl _ \<Rightarrow> False | Inr cache \<Rightarrow> P cache)"

definition accepts_valid_channel_bound_envelope_once :: "crypto \<Rightarrow> bool" where
  "accepts_valid_channel_bound_envelope_once c \<longleftrightarrow> with_cache 8 (\<lambda>cache.
     let envelope = make_envelope c SECRET 7 1000 (replicate 16 1) BINDING in
     case verify_envelope c envelope SECRET BINDING 1005 30 cache of
       (cache, Inr claims) \<Rightarrow> device_id claims = 7 \<and> isl (snd (verify_envelope c envelope SECRET BINDING 1005 30 cache))
     | _ \<Rightarrow> False)"

definition rejects_wrong_secret_binding_expiry_and_zero_device :: "crypto \<Rightarrow> bool" where
  "rejects_wrong_secret_binding_expiry_and_zero_device c \<longleftrightarrow>
     (let valid = make_envelope c SECRET 7 1000 (replicate 16 2) BINDING in
      list_all (\<lambda>(secret, binding, now). with_cache 8 (\<lambda>cache. isl (snd (verify_envelope c valid secret binding now 30 cache))))
        [(map of_char ''wrong'', BINDING, 1000), (SECRET, replicate 32 8, 1000), (SECRET, BINDING, 1031)]) \<and>
     (let zero = make_envelope c SECRET 0 1000 (replicate 16 3) BINDING in
      with_cache 8 (\<lambda>cache. isl (snd (verify_envelope c zero SECRET BINDING 1000 30 cache))))"

definition invalid_mac_does_not_poison_nonce_and_cache_is_bounded :: "crypto \<Rightarrow> bool" where
  "invalid_mac_does_not_poison_nonce_and_cache_is_bounded c \<longleftrightarrow> with_cache 2 (\<lambda>cache.
     let valid = make_envelope c SECRET 7 1000 (replicate 16 4) BINDING;
         invalid = valid[ENVELOPE_LEN - 1 := valid ! (ENVELOPE_LEN - 1) XOR 1] in
     case verify_envelope c invalid SECRET BINDING 1000 30 cache of
       (cache, r) \<Rightarrow> isl r \<and>
         (case verify_envelope c valid SECRET BINDING 1000 30 cache of
            (cache, r) \<Rightarrow> \<not> isl r \<and>
              (case check_and_insert cache (replicate 16 5) 1000 30 of
                 (cache, ok1) \<Rightarrow> ok1 \<and>
                   (case check_and_insert cache (replicate 16 6) 1000 30 of (cache, ok2) \<Rightarrow> ok2 \<and> length (entries cache) = 2))))"

definition expired_entries_can_be_reused_after_window :: bool where
  "expired_entries_can_be_reused_after_window \<longleftrightarrow> with_cache 2 (\<lambda>cache.
     case check_and_insert cache (replicate 16 9) 100 30 of
       (cache, ok1) \<Rightarrow> ok1 \<and>
         (case check_and_insert cache (replicate 16 9) 130 30 of
            (cache, ok2) \<Rightarrow> \<not> ok2 \<and> snd (check_and_insert cache (replicate 16 9) 131 30)))"

lemma verify_made:
  assumes "hash_ok c" and "length nonce = 16" and "did \<noteq> 0" and "abs_diff now ts \<le> window"
  shows "verify_envelope c (make_envelope c secret did ts nonce ex) secret ex now window rc =
     (case check_and_insert rc nonce now window of
        (rc', False) \<Rightarrow> (rc', Inl (Bail ''replayed authentication envelope''))
      | (rc', True) \<Rightarrow> (rc', Inr \<lparr>device_id = did, timestamp = ts, auth_nonce = nonce\<rparr>))"
  using assms(3,4) by (simp add: verify_envelope_eq make_envelope_fields [OF assms(1,2)] not_less [symmetric])

lemmas cache_test_simps = with_cache_def replay_cache_new_def check_and_insert_def Let_def sat_add_def forget_def word_less_nat_alt word_le_nat_alt

lemma expired_entries_can_be_reused_after_window_passes: expired_entries_can_be_reused_after_window
  by (simp add: expired_entries_can_be_reused_after_window_def cache_test_simps)

lemma accepts_valid_channel_bound_envelope_once_passes: "hash_ok c \<Longrightarrow> accepts_valid_channel_bound_envelope_once c"
  by (simp add: accepts_valid_channel_bound_envelope_once_def verify_made cache_test_simps abs_diff_def)

lemma verify_tampered:
  fixes secret ex :: bytes
  assumes "hash_ok c" and "length nonce = 16" and "did \<noteq> 0" and "abs_diff now ts \<le> window"
  defines "valid \<equiv> make_envelope c secret did ts nonce ex"
  shows "verify_envelope c (valid[ENVELOPE_LEN - 1 := valid ! (ENVELOPE_LEN - 1) XOR 1]) secret ex now window rc =
     (rc, Inl (Bail ''invalid device proof''))"
proof -
  let ?inv = "valid[68 := valid ! 68 XOR 1]"
  note f = make_envelope_fields [OF assms(1,2), of secret did ts ex, folded valid_def]
  have len: "length valid = 69" using length_make_envelope [OF assms(1,2)] by (simp add: valid_def ENVELOPE_LEN_def PREFIX_LEN_def)
  have fields: "env_ok ?inv" "env_device ?inv = did" "env_time ?inv = ts" "env_nonce ?inv = nonce"
    using f by (simp_all add: env_ok_def env_device_def env_time_def env_nonce_def drop_update_swap)
  have "drop PREFIX_LEN valid ! 31 \<noteq> drop PREFIX_LEN ?inv ! 31"
    using len xor_one_neq [of "valid ! 68"] by (simp add: PREFIX_LEN_def)
  then have "drop PREFIX_LEN valid \<noteq> drop PREFIX_LEN ?inv" by metis
  then show ?thesis
    using assms(3,4) fields by (simp add: verify_envelope_eq valid_def [symmetric] not_less [symmetric] ENVELOPE_LEN_def PREFIX_LEN_def)
qed

lemma invalid_mac_does_not_poison_nonce_and_cache_is_bounded_passes: "hash_ok c \<Longrightarrow> invalid_mac_does_not_poison_nonce_and_cache_is_bounded c"
  by (simp add: invalid_mac_does_not_poison_nonce_and_cache_is_bounded_def verify_made verify_tampered [unfolded One_nat_def] cache_test_simps abs_diff_def)

lemma rejects_wrong_secret_binding_expiry_and_zero_device_passes: "rejects_wrong_secret_binding_expiry_and_zero_device sum_crypto"
proof -
  note f = make_envelope_fields [OF hash_ok_sum_crypto, of "replicate 16 2"] make_envelope_fields [OF hash_ok_sum_crypto, of "replicate 16 3"]
  show ?thesis
    unfolding rejects_wrong_secret_binding_expiry_and_zero_device_def
    by (simp add: with_cache_def replay_cache_new_def verify_envelope_eq f Let_def abs_diff_def word_less_nat_alt)
      (simp add: make_envelope_def Let_def length_envelope_prefix PREFIX_LEN_def device_key_def SECRET_def BINDING_def
        sum_crypto_def sum_list_replicate)
qed

section \<open>Carrier\<close>

definition stream_lane_mode_is_explicit_and_rejects_unvalidated_parallel_lanes :: bool where
  "stream_lane_mode_is_explicit_and_rejects_unvalidated_parallel_lanes \<longleftrightarrow>
     parse_stream_lanes None = Inr 0 \<and> parse_stream_lanes (Some (map of_char ''1'')) = Inr 1 \<and>
     list_all (\<lambda>invalid. isl (parse_stream_lanes (Some (map of_char invalid)))) [''0'', ''2'', ''16'', ''invalid'']"

definition relay_keyring_of :: "string \<Rightarrow> (u64 \<times> utext) list result" where
  "relay_keyring_of content = relay_parse_keyring (Some 0x8180) (Some (map of_char content))"

definition keyring_rejects_weak_duplicate_and_reserved_entries :: bool where
  "keyring_rejects_weak_duplicate_and_reserved_entries \<longleftrightarrow>
     list_all (\<lambda>invalid. isl (relay_keyring_of invalid))
       ['''', ''0 abcdefghijklmnop'', ''1 short'', ''1 abcdefghijklmnop'' @ [CHR 0x0A] @ ''1 different-secret-value''] \<and>
     (case relay_keyring_of (''7 a-very-long-device-secret-at-least-32'' @ [CHR 0x0A] @ ''8 another-very-long-device-secret-32'' @ [CHR 0x0A]) of
        Inl _ \<Rightarrow> False
      | Inr ks \<Rightarrow> length ks = 2)"

definition carrier_reassembles_out_of_order_and_ignores_duplicates :: "instant \<Rightarrow> bool" where
  "carrier_reassembles_out_of_order_and_ignores_duplicates now \<longleftrightarrow>
     snd (carrier_run [] (map (Pair now)
       [carrier_fragment 4 1 3 (map of_char ''bravo''), carrier_fragment 4 1 3 (map of_char ''wrong''),
        carrier_fragment 4 2 3 (map of_char ''charlie''), carrier_fragment 4 0 3 (map of_char ''alpha'')])) =
       [Inr None, Inr None, Inr None, Inr (Some (map of_char ''alphabravocharlie''))]"

definition carrier_rejects_invalid_dimensions :: "instant \<Rightarrow> bool" where
  "carrier_rejects_invalid_dimensions now \<longleftrightarrow>
     list_all isl (snd (carrier_run [] (map (Pair now)
       [replicate (CARRIER_HEADER - 1) 0, carrier_fragment 1 0 0 [], carrier_fragment 1 2 2 [],
        carrier_fragment 1 0 (MAX_CARRIER_FRAGMENTS + 1) []])))"

lemma stream_lane_mode_is_explicit_and_rejects_unvalidated_parallel_lanes_passes: stream_lane_mode_is_explicit_and_rejects_unvalidated_parallel_lanes
  by (simp add: stream_lane_mode_is_explicit_and_rejects_unvalidated_parallel_lanes_def parse_stream_lanes_def parse_u64_def dec_value_def MAX_STREAM_LANES_def)

lemma keyring_rejects_weak_duplicate_and_reserved_entries_passes: keyring_rejects_weak_duplicate_and_reserved_entries
  by (simp add: keyring_rejects_weak_duplicate_and_reserved_entries_def relay_keyring_of_def relay_parse_keyring_def relay_keyring_line_def strip_cr_def trim_def white_space_def
      split_whitespace_def parse_u64_def dec_value_def utf8_bytes_def utf8_def Let_def)

lemma carrier_reassembles_out_of_order_and_ignores_duplicates_passes: "carrier_reassembles_out_of_order_and_ignores_duplicates now"
  by (simp add: carrier_reassembles_out_of_order_and_ignores_duplicates_def carrier_push_def carrier_header_fragment carrier_retain_def
      drop_carrier_fragment [unfolded CARRIER_HEADER_def] get_or_insert_def carrier_consts Let_def replicate_numeral)

lemma carrier_rejects_invalid_dimensions_passes: "carrier_rejects_invalid_dimensions now"
  by (simp add: carrier_rejects_invalid_dimensions_def carrier_push_def carrier_header_def carrier_fragment_def slice_def Let_def carrier_consts)

end
