(* ===== verification/Tests_Deployment.thy ===== *)
theory Tests_Deployment
  imports Deployment_Plan Revision_Transaction
begin

text \<open>
  The unit tests of \<open>product_config.rs\<close> and \<open>controller.rs\<close>, replayed on the model; the temporary directory of a test
  starts empty.
\<close>

section \<open>Product configuration\<close>

definition enhanced_profile_has_production_modules :: bool where
  "enhanced_profile_has_production_modules \<longleftrightarrow>
     (case resolve_modules (for_profile Enhanced) of
        Inl _ \<Rightarrow> False
      | Inr ms \<Rightarrow> MultiWarp \<in> set ms \<and> AdaptiveFec \<in> set ms \<and> Masque \<notin> set ms \<and> DnsDoq \<notin> set ms)"

definition disabling_required_dependency_is_rejected :: bool where
  "disabling_required_dependency_is_rejected \<longleftrightarrow>
     (let config = (for_profile Enhanced)\<lparr>modules := AList.update Pmtu Disabled (modules (for_profile Enhanced))\<rparr> in
      resolve_modules config = Inl (MissingDependency AdaptiveFec Pmtu))"

definition experimental_module_requires_laboratory_profile :: bool where
  "experimental_module_requires_laboratory_profile \<longleftrightarrow>
     (let config = (for_profile Standard)\<lparr>modules := [(Tuic, Disabled), (Masque, Enabled)]\<rparr> in
      resolve_modules config = Inl (ExperimentalModuleOutsideLaboratory Masque))"

section \<open>Planner\<close>

definition clear_ports :: "port_binding \<Rightarrow> unit + port_conflict option" where
  "clear_ports request = Inr None"

definition has_conflict :: "port_binding \<Rightarrow> unit + port_conflict option" where
  "has_conflict request =
     Inr (if pb_protocol request = Udp then Some \<lparr>pc_requested = request, pc_current_owner = Some ''existing-daemon''\<rparr> else None)"

definition planner_reports_conflicts_without_mutation :: bool where
  "planner_reports_conflicts_without_mutation \<longleftrightarrow>
     (case build has_conflict (for_profile Enhanced) of
        Inl _ \<Rightarrow> False
      | Inr plan \<Rightarrow> (case dp_conflicts plan of [x] \<Rightarrow> pb_protocol (pc_requested x) = Udp | _ \<Rightarrow> False))"

definition clear_port_plan_contains_transaction_steps :: bool where
  "clear_port_plan_contains_transaction_steps \<longleftrightarrow>
     (case build clear_ports (for_profile Standard) of
        Inl _ \<Rightarrow> False
      | Inr plan \<Rightarrow> dp_conflicts plan = [] \<and> ValidateCandidate \<in> set (dp_actions plan))"

section \<open>Transactions\<close>

definition require_config :: "node \<Rightarrow> path \<Rightarrow> string + unit" where
  "require_config t candidate =
     (case get t (join candidate ''config.yaml'') of Some (File _) \<Rightarrow> Inr () | _ \<Rightarrow> Inl ''config.yaml is missing'')"

text \<open>A run of operations that must all succeed.\<close>

fun expect_all :: "transaction \<times> node \<Rightarrow> tx_op list \<Rightarrow> (transaction \<times> node) option" where
  "expect_all s [] = Some s"
| "expect_all s (op # ops) = (case tx_step s op of (s', Inr _) \<Rightarrow> expect_all s' ops | (_, Inl _) \<Rightarrow> None)"

definition transaction_requires_validation_and_can_rollback :: "nat \<Rightarrow> nat \<Rightarrow> nat \<Rightarrow> bool" where
  "transaction_requires_validation_and_can_rollback pid first_time second_time \<longleftrightarrow>
     (case begin_tx [''tmp''] None (Some first_time) pid no_faults (Dir []) of
        (t, Inr first) \<Rightarrow>
          (case expect_all (first, t) [Stage ''config.yaml'' (map of_char ''schema_version: 1'' @ [10]) no_faults [],
                  Validate require_config, Commit no_faults []] of
             None \<Rightarrow> False
           | Some (first, t) \<Rightarrow>
               (case begin_tx [''tmp''] (Some (tx_revision_id first)) (Some second_time) pid no_faults t of
                  (t, Inr second) \<Rightarrow>
                    (case expect_all (second, t) [Stage ''config.yaml''
                            (map of_char ''schema_version: 1'' @ [10] @ map of_char ''profile: enhanced'' @ [10]) no_faults []] of
                       None \<Rightarrow> False
                     | Some (second, t) \<Rightarrow>
                         (case tx_step (second, t) (Commit no_faults []) of
                            (s, Inl (InvalidState _ _)) \<Rightarrow>
                              (case expect_all s [Validate require_config, Commit no_faults [], Rollback no_faults []] of
                                 None \<Rightarrow> False
                               | Some (_, t) \<Rightarrow> get t [''tmp'', ''current''] = Some (File (pointer_bytes (tx_revision_id first))))
                          | _ \<Rightarrow> False))
                | _ \<Rightarrow> False))
      | _ \<Rightarrow> False)"

definition artifact_path_traversal_is_rejected :: "nat \<Rightarrow> nat \<Rightarrow> bool" where
  "artifact_path_traversal_is_rejected pid time \<longleftrightarrow>
     (case begin_tx [''tmp''] None (Some time) pid no_faults (Dir []) of
        (t, Inr tx) \<Rightarrow>
          snd (stage tx ''../escape'' (map of_char ''bad'') no_faults [] t) = Inl InvalidArtifactName \<and>
          snd (begin_tx [''tmp''] (Some ''../old'') (Some time) pid no_faults t) = Inl InvalidArtifactName
      | _ \<Rightarrow> False)"

definition failed_validation_never_advances_state :: "nat \<Rightarrow> nat \<Rightarrow> bool" where
  "failed_validation_never_advances_state pid time \<longleftrightarrow>
     (case begin_tx [''tmp''] None (Some time) pid no_faults (Dir []) of
        (t, Inr tx) \<Rightarrow>
          (case validate require_config tx t of
             (tx, Inl (Validation _)) \<Rightarrow> tx_state tx = Candidate \<and> get t [''tmp'', ''current''] = None
           | _ \<Rightarrow> False)
      | _ \<Rightarrow> False)"

section \<open>They pass\<close>

lemma enhanced_profile_has_production_modules_passes: enhanced_profile_has_production_modules
  by code_simp

lemma disabling_required_dependency_is_rejected_passes: disabling_required_dependency_is_rejected
  by code_simp

lemma experimental_module_requires_laboratory_profile_passes: experimental_module_requires_laboratory_profile
  by code_simp

lemma planner_reports_conflicts_without_mutation_passes: planner_reports_conflicts_without_mutation
  by code_simp

lemma clear_port_plan_contains_transaction_steps_passes: clear_port_plan_contains_transaction_steps
  by code_simp

lemma transaction_requires_validation_and_can_rollback_passes: "transaction_requires_validation_and_can_rollback 7 5 6"
  by code_simp

lemma artifact_path_traversal_is_rejected_passes: "artifact_path_traversal_is_rejected pid time"
  by (simp add: artifact_path_traversal_is_rejected_def begin_tx_def no_faults_def sys_def create_dir_def Let_def
      stage_def expect_state_def is_plain_file_name_def components_def is_dir_def)

lemma failed_validation_never_advances_state_passes: "failed_validation_never_advances_state pid time"
  by (simp add: failed_validation_never_advances_state_def begin_tx_def no_faults_def sys_def create_dir_def Let_def
      validate_def expect_state_def require_config_def join_def components_def is_dir_def)

end
