(* ===== verification/Spec2Isabelle.thy ===== *)
theory Spec2Isabelle
  imports Tunnel_Properties Session_Registry Tenant_Isolation Quic_Tunnel Program_Start Deployment_Plan Revision_Transaction
    Tests_Tunnel Tests_Fec Tests_Relay Tests_Deployment
begin

text \<open>
  Verification development of the Smart FEC Tunnel (a Rust program: \<open>src/src/main.rs\<close>,
  \<open>quic_relay.rs\<close>, \<open>quic_auth.rs\<close>, \<open>product_config.rs\<close>, \<open>controller.rs\<close> and the
  binary \<open>bin/smart-gateway-controller.rs\<close>).

  \<^bold>\<open>The program.\<close>  A tunnel client takes UDP datagrams from an application, cuts them into
  fragments, groups the fragments into data shards, adds Reed-Solomon parity shards as an adaptive
  controller asks for, and sends every shard as an encrypted frame to the server.  The server
  authenticates a frame by a per-device selector and key, dispatches it to the session of its device, and
  the session's decoder recovers lost shards, reassembles the datagrams and sends them upstream; the other
  direction works alike.  Loss reports flow back and drive the controller; a pacer limits the send rate.
  The frames can be carried inside an authenticated QUIC connection (\<open>quic_relay\<close>).  Beside the
  tunnel the program has a SOCKS load balancer and a deployment controller (product configuration, plan,
  revision transaction).

  \<^bold>\<open>Theories and the code they model.\<close>

  \<^item> \<open>Fec_Prelude\<close>: types (machine words, byte lists, errors as sums), Rust's slicing, saturating
    arithmetic, chunks and big-endian integers; lemmas on words, lists and association lists; the locales
    of the interfaces (an invariant kept by a step function, refinement of a specification by a step
    function, a system whose observers do not see each other, a window that accepts each number once, slots filled by index).
  \<^item> \<open>Frame_Wire\<close>: \<open>Frame::encode\<close>, \<open>decode\<close>, \<open>encode_wire\<close>, \<open>decode_v3\<close>,
    \<open>v3_selector_prefix\<close>, \<open>decode_client_frame\<close> and \<open>decode_server_frame\<close>.
  \<^item> \<open>Adaptive_Fec\<close>: \<open>Adaptive\<close>.  \<open>Fec_Encoder\<close>: \<open>Encoder\<close>.
    \<open>Sequence_Window\<close> and \<open>Fec_Decoder\<close>: \<open>Decoder\<close>.
  \<^item> \<open>Xor_Code\<close>: a single-parity erasure code that meets the contract assumed of the
    Reed-Solomon crate; witnesses use it.
  \<^item> \<open>Fec_Recovery\<close>: encoder and decoder together, by a simulation between the log of the groups
    the encoder sent and the tables of the decoder.  \<open>Tunnel_Properties\<close>: properties of the parts.
  \<^item> \<open>Tunnel_Endpoints\<close>: the loops of \<open>client\<close> and \<open>run_server_session\<close>.
    \<open>Server_Sessions\<close>: \<open>superseded_sessions\<close> and the loop of \<open>server\<close> with its table of
    sessions; every interleaving of its own events with the turns of the session tasks is a run.
    \<open>Session_Registry\<close>: the specification the session table refines.  \<open>Tenant_Isolation\<close>: the
    devices of a server do not interfere.
    \<open>Tunnel_End_To_End\<close>: the path of a datagram from the client's application to the upstream, from
    the first packet of a fresh client on and among whatever else the server does, and the way back.
  \<^item> \<open>Pacer\<close>: \<open>Pacer\<close> and the paced send loops.  \<open>Keyring\<close>: \<open>key\<close>,
    \<open>load_keyring\<close>, and both functions \<open>parse_keyring\<close>, with the parts of Rust's string
    library they use.
  \<^item> \<open>Quic_Auth\<close>: \<open>quic_auth.rs\<close> and \<open>authenticate_server\<close>.  \<open>Quic_Carrier\<close>:
    \<open>CarrierReassembly\<close>, \<open>send_carrier\<close> and the stream framing.  \<open>Quic_Relay\<close>: the
    connection loops, the client's handshake, statistics, \<open>run_server\<close> and \<open>run_client\<close>.
    \<open>Carrier_Flight\<close>: many datagrams in flight over a connection, against a specification of
    reassembly without tables and clocks.  \<open>Quic_Tunnel\<close>: the tunnel inside a QUIC connection.
    \<open>Quic_Endpoint\<close>: certificates, transport parameters, the congestion controller and the endpoints.
  \<^item> \<open>Balancer\<close>: \<open>read_socks_address\<close>, \<open>socks_connect\<close>,
    \<open>handle_balanced_client\<close> and \<open>balance\<close>.
  \<^item> \<open>Product_Config\<close>: \<open>product_config.rs\<close>.  \<open>Deployment_Plan\<close>: \<open>Planner\<close>
    and the controller binary.  \<open>Revision_Transaction\<close>: \<open>RevisionTransaction\<close> over a tree of
    files with faults in every system call.
  \<^item> \<open>Program_Start\<close>: \<open>main\<close> and the opening lines of its five commands.
  \<^item> \<open>Tests_Tunnel\<close>, \<open>Tests_Fec\<close>, \<open>Tests_Relay\<close>, \<open>Tests_Deployment\<close>: the program's own unit tests,
    all 39, replayed on the model; they tie the definitions to values that the authors expect.

  \<^bold>\<open>Conventions.\<close>  A struct is a record, an enum a datatype, \<open>Result\<close> a sum type whose left
  side is an error; an index or slice out of range is the error \<open>Panic\<close>.  Maps that the code keeps
  in a \<open>HashMap\<close> are association lists with distinct keys.  A loop of \<open>tokio::select!\<close> is a
  step function and a run over a list of events; the clock readings of a step are arguments.  What the
  program takes from elsewhere are parameters with named hypotheses: the hash and the cipher (\<open>crypto\<close>
  with \<open>hash_ok\<close> and \<open>aead_ok\<close>: lengths, and that opening undoes sealing), the erasure code
  (\<open>rs_code\<close> with \<open>rs_shape\<close> and \<open>rs_supports\<close>: lengths, and that enough shards give
  the rest), random numbers, the answers of Quinn, rustls and the PEM reader, the replies of SOCKS upstreams, the file system's faults.
  Every property with hypotheses has a witness on concrete instances.

  \<^bold>\<open>What is shown.\<close>  Delivery: datagrams come out of the tunnel exactly once under every loss
  pattern the parity covers, for the decoder alone, for client, wire, server and session together in both
  directions and from a cold start, and with a QUIC connection between client and server; the QUIC carrier
  delivers what it is given, in its two modes.  Safety: the server accepts and sends only what
  the keys of a device authenticate, a packet touches its own device alone, what a device's
  sessions send does not depend on the other devices as long as the keyring is within the limit on sessions, no received byte string panics a
  decoder, replays are rejected under the stated conditions, the QUIC server relays for nobody who has not
  authenticated.  Bounds: tables, queues, frames and rates.  The controller's rules, loss reports,
  session takeover and clean-up, heartbeat and back-off are characterised exactly.  The configuration
  resolver is equivalent to a declarative reference, and both keyring readers agree.  Three components refine
  an abstract specification: the session table a register of devices, the reassembly of QUIC fragments a set of
  arrivals, and the revision transaction a life cycle.  The program starts exactly on the arguments and files
  it should, and then in states that satisfy the invariants.  Some theorems show behaviour that a reader of the code or of
  its documentation would not expect (a replayed frame moves the peer address, a future-dated proof can be
  replayed, a failed pointer update blocks retries or, on Windows, leaves the pointer dangling, a server with
  only a legacy key is deaf, a QUIC client with identifier zero retries for ever).

  \<^bold>\<open>Bounds and termination.\<close>  All functions are total: recursions are structural or have a
  measure (\<open>chunks\<close>, \<open>read_lane\<close>, the eviction loops of the replay cache), and no fuel is used.
  Machine words keep their width; counters that wrap in the code wrap here.  Times are nanoseconds as
  natural numbers, a difference of instants saturates at zero as in the standard library, and lengths are
  natural numbers because no list here can reach the range of \<open>usize\<close>.  The release profile aborts on
  a panic, so that the theorems that exclude \<open>Panic\<close> are about the whole process and not about one task.

  \<^bold>\<open>Not modelled.\<close>  The parsing of the command line (the library \<open>clap\<close>: \<open>main\<close> starts
  from its result), logging, printing and the \<open>Display\<close> implementations; what sockets, TLS, the PEM
  reader and Quinn do inside, which are parameters; the rounding of \<open>f64\<close> in the pacer, whose
  fields are exact rationals; the interleaving of the sending and receiving halves of one QUIC client
  session inside a datagram, and of two balancer handlers inside the choice of an upstream; deployment
  scripts, documents and the integration tests.
\<close>

end
